(* ===== verification/CDHT_Prelude.thy ===== *)
theory CDHT_Prelude
  imports Main "HOL-Library.Word"
begin

text \<open>
  Shared vocabulary of the development: the machine types of the C code on its
  target (x86-64 Linux, gcc), the faults a C operation can run into, the parts
  of the C library the sources call (string comparison and copying, byte
  order), and the lemmas on lists and words that the component theories use.

  Conventions. Binary data is a list of bytes (\<open>8 word\<close>); text handled by the
  configuration parser and the formatters is a \<open>string\<close>. A \<open>size_t\<close> that is
  computed with is a \<open>64 word\<close>; one that is only the length of a buffer is the
  length of the list. A pointer that the code compares with \<open>NULL\<close> is an
  \<open>option\<close>. An operation that can read or write outside an object, or through a
  null pointer, returns a sum whose left side is the fault.
\<close>

unbundle bit_operations_syntax

subsection \<open>Machine types and faults\<close>

type_synonym byte = "8 word"
type_synonym u16 = "16 word"
type_synonym u32 = "32 word"
type_synonym c_int = "32 word"
type_synonym size_t = "64 word"

datatype c_fault =
    Null_Deref        \<comment> \<open>access through a null pointer\<close>
  | Out_Of_Bounds     \<comment> \<open>access outside an object\<close>
  | Dangling          \<comment> \<open>access to a freed object\<close>
  | Div_By_Zero       \<comment> \<open>remainder by zero\<close>
  | Signed_Overflow   \<comment> \<open>overflow of an \<open>int\<close>\<close>
  | Sync_Misuse       \<comment> \<open>use of a destroyed mutex or condition variable, or destruction of one in use\<close>

type_synonym 'a faulty = "c_fault + 'a"

text \<open>The largest \<open>int\<close>, and the conversion of a \<open>size_t\<close> to \<open>int\<close>, which gcc defines to be reduction
  modulo \<open>2^32\<close>.\<close>

abbreviation INT_MAX :: nat where "INT_MAX \<equiv> 2147483647"

definition cast_int :: "nat \<Rightarrow> int" where
  "cast_int n = signed_take_bit 31 (int n)"

lemma cast_int_small [simp]: "n \<le> INT_MAX \<Longrightarrow> cast_int n = int n"
  by (simp add: cast_int_def signed_take_bit_int_eq_self)

named_theorems wire_simps \<open>lengths and inverses of the byte encodings\<close>
named_theorems cstr_simps \<open>C strings inside byte buffers\<close>

definition no_fault :: "'a faulty \<Rightarrow> bool" where
  "no_fault r \<longleftrightarrow> (case r of Inl _ \<Rightarrow> False | Inr _ \<Rightarrow> True)"

lemma no_fault_simps [simp]:
  "no_fault (Inr x)" "\<not> no_fault (Inl f)"
  by (simp_all add: no_fault_def)

lemma no_fault_iff: "no_fault r \<longleftrightarrow> (\<exists>x. r = Inr x)"
  by (cases r) auto

text \<open>
  A loop that need not end is a partial function into \<open>'a run\<close>: \<open>None\<close> is a
  loop that runs forever, \<open>Some (Inl f)\<close> a fault, \<open>Some (Inr x)\<close> a normal
  return. \<open>run_bind\<close> is sequencing.
\<close>

type_synonym 'a run = "'a faulty option"

definition run_bind :: "'a run \<Rightarrow> ('a \<Rightarrow> 'b run) \<Rightarrow> 'b run" where
  "run_bind m f =
     Option.bind m (\<lambda>r. case r of Inl e \<Rightarrow> Some (Inl e) | Inr x \<Rightarrow> f x)"

lemma run_bind_simps [simp]:
  "run_bind (Some (Inr x)) f = f x"
  "run_bind (Some (Inl e)) f = Some (Inl e)"
  "run_bind None f = None"
  by (simp_all add: run_bind_def)

lemma run_bind_eq_Some_Inr:
  "run_bind m f = Some (Inr y) \<longleftrightarrow> (\<exists>x. m = Some (Inr x) \<and> f x = Some (Inr y))"
proof (cases m)
  case (Some r)
  then show ?thesis by (cases r) simp_all
qed simp

lemma run_bind_cong [fundef_cong]:
  "m = m' \<Longrightarrow> (\<And>x. m' = Some (Inr x) \<Longrightarrow> f x = f' x) \<Longrightarrow> run_bind m f = run_bind m' f'"
  by (cases m') (auto simp: run_bind_def split: sum.split)

lemma run_bind_assoc: "run_bind (run_bind m f) h = run_bind m (\<lambda>x. run_bind (f x) h)"
  by (cases m) (auto simp: run_bind_def split: sum.split)

lemma run_bind_mono [partial_function_mono]:
  assumes "mono_option B" and "\<And>y. mono_option (\<lambda>f. C y f)"
  shows "mono_option (\<lambda>f. run_bind (B f) (\<lambda>y. C y f))"
  unfolding run_bind_def
proof (rule bind_mono)
  show "mono_option B" by fact
  show "mono_option (\<lambda>f. case r of Inl e \<Rightarrow> Some (Inl e) | Inr x \<Rightarrow> C x f)" for r
    by (cases r) (simp_all add: assms(2) option.const_mono)
qed

text \<open>Sequencing of operations that may fault, and a fold of one over a list.\<close>

definition fault_bind :: "'a faulty \<Rightarrow> ('a \<Rightarrow> 'b faulty) \<Rightarrow> 'b faulty" where
  "fault_bind m f = (case m of Inl e \<Rightarrow> Inl e | Inr x \<Rightarrow> f x)"

lemma fault_bind_simps [simp]:
  "fault_bind (Inr x) f = f x"
  "fault_bind (Inl e) f = Inl e"
  by (simp_all add: fault_bind_def)

lemma fault_bind_eq_Inr: "fault_bind m f = Inr y \<longleftrightarrow> (\<exists>x. m = Inr x \<and> f x = Inr y)"
  by (cases m) simp_all

subsection \<open>Memory blocks\<close>

text \<open>A fresh block of \<open>n\<close> cells from \<open>malloc\<close>: its contents are whatever the
  parameter \<open>g\<close> says.\<close>

definition uninit :: "(nat \<Rightarrow> 'a) \<Rightarrow> nat \<Rightarrow> 'a list" where
  "uninit g n = map g [0..<n]"

lemma length_uninit [simp]: "length (uninit g n) = n"
  by (simp add: uninit_def)

text \<open>
  \<open>mem_read buf off n\<close> is \<open>memcpy(dst, buf + off, n)\<close>: the \<open>n\<close> bytes at offset
  \<open>off\<close>, or a fault when they do not lie inside the block. \<open>mem_write\<close> is the
  copy in the other direction; it never grows the block.
\<close>

definition mem_read :: "'a list \<Rightarrow> nat \<Rightarrow> nat \<Rightarrow> 'a list faulty" where
  "mem_read buf off n =
     (if off + n \<le> length buf then Inr (take n (drop off buf)) else Inl Out_Of_Bounds)"

definition mem_write :: "'a list \<Rightarrow> nat \<Rightarrow> 'a list \<Rightarrow> 'a list faulty" where
  "mem_write buf off src =
     (if off + length src \<le> length buf
      then Inr (take off buf @ src @ drop (off + length src) buf)
      else Inl Out_Of_Bounds)"

text \<open>A copy of \<open>n\<close> bytes from a pointer that may be null; a copy of no byte
  touches nothing.\<close>

definition ptr_read :: "'a list option \<Rightarrow> nat \<Rightarrow> 'a list faulty" where
  "ptr_read p n =
     (if n = 0 then Inr []
      else case p of None \<Rightarrow> Inl Null_Deref | Some buf \<Rightarrow> mem_read buf 0 n)"

lemma mem_read_in: "off + n \<le> length buf \<Longrightarrow> mem_read buf off n = Inr (take n (drop off buf))"
  by (simp add: mem_read_def)

lemma mem_read_append [simp]:
  "length pre = off \<Longrightarrow> length mid = n \<Longrightarrow> mem_read (pre @ mid @ post) off n = Inr mid"
  by (simp add: mem_read_def)

lemma mem_read_length: "mem_read buf off n = Inr xs \<Longrightarrow> length xs = n"
  by (auto simp: mem_read_def split: if_splits)

lemma mem_write_length: "mem_write buf off src = Inr buf' \<Longrightarrow> length buf' = length buf"
  by (auto simp: mem_write_def split: if_splits)

lemma mem_write_in:
  "off + length src \<le> length buf \<Longrightarrow>
   mem_write buf off src = Inr (take off buf @ src @ drop (off + length src) buf)"
  by (simp add: mem_write_def)

text \<open>Filling a block from the left: the written part grows by each write.\<close>

lemma mem_write_extend:
  "length done = off \<Longrightarrow> length src \<le> length rest \<Longrightarrow>
   mem_write (done @ rest) off src = Inr (done @ src @ drop (length src) rest)"
  by (simp add: mem_write_def)

lemma mem_write_start:
  "length src \<le> length buf \<Longrightarrow> mem_write buf 0 src = Inr (src @ drop (length src) buf)"
  by (simp add: mem_write_def)

subsection \<open>C strings\<close>

text \<open>
  The string stored at a byte pointer ends at the first zero byte. \<open>strncpy\<close>
  copies at most \<open>n\<close> bytes of it and fills the rest of the \<open>n\<close> bytes with zeros.
\<close>

definition cstr :: "byte list \<Rightarrow> byte list" where
  "cstr buf = takeWhile (\<lambda>b. b \<noteq> 0) buf"

definition strcmp_eq :: "byte list \<Rightarrow> byte list \<Rightarrow> bool" where
  "strcmp_eq a b \<longleftrightarrow> cstr a = cstr b"

definition strncpy :: "byte list \<Rightarrow> nat \<Rightarrow> byte list" where
  "strncpy src n = take n (cstr src) @ replicate (n - length (cstr src)) 0"

lemma cstr_no_zero [cstr_simps]: "0 \<notin> set (cstr buf)"
  unfolding cstr_def by (auto dest: set_takeWhileD)

lemma cstr_id [cstr_simps]: "0 \<notin> set s \<Longrightarrow> cstr s = s"
  unfolding cstr_def by (simp add: takeWhile_eq_all_conv) metis

lemma cstr_append_zero [cstr_simps]: "0 \<notin> set s \<Longrightarrow> cstr (s @ 0 # rest) = s"
  unfolding cstr_def by (subst takeWhile_append2) auto

lemma cstr_idem [cstr_simps]: "cstr (cstr s) = cstr s"
  by (intro cstr_id cstr_no_zero)

lemma length_strncpy [simp, cstr_simps]: "length (strncpy src n) = n"
  by (simp add: strncpy_def)

lemma cstr_zeros [cstr_simps]: "cstr (replicate k 0) = []"
  by (cases k) (simp_all add: cstr_def)

lemma cstr_append_zeros [cstr_simps]: "0 \<notin> set s \<Longrightarrow> cstr (s @ replicate k 0) = s"
  by (cases k) (simp_all add: cstr_id cstr_append_zero)

text \<open>A buffer filled by \<open>strncpy\<close> and closed by a zero byte holds the source
  string cut to \<open>n\<close> bytes.\<close>

lemma cstr_strncpy [cstr_simps]: "cstr (strncpy src n @ [0]) = take n (cstr src)"
proof -
  have "strncpy src n @ [0] = take n (cstr src) @ replicate (Suc (n - length (cstr src))) 0"
    by (simp add: strncpy_def replicate_append_same)
  moreover have "0 \<notin> set (take n (cstr src))"
    using cstr_no_zero in_set_takeD by metis
  ultimately show ?thesis
    by (metis cstr_append_zeros)
qed

subsection \<open>Little-endian storage and network byte order\<close>

text \<open>
  The target stores integers little-endian: \<open>le_bytes n w\<close> are the \<open>n\<close> bytes of
  \<open>w\<close> in memory and \<open>le_word\<close> reads them back. \<open>htons\<close> and \<open>ntohs\<close> swap the
  bytes of a 16-bit value.
\<close>

primrec le_bytes :: "nat \<Rightarrow> 'a::len word \<Rightarrow> byte list" where
  "le_bytes 0 w = []"
| "le_bytes (Suc n) w = ucast w # le_bytes n (drop_bit 8 w)"

primrec le_word :: "byte list \<Rightarrow> 'a::len word" where
  "le_word [] = 0"
| "le_word (b # bs) = ucast b OR push_bit 8 (le_word bs)"

definition htons :: "u16 \<Rightarrow> u16" where
  "htons w = push_bit 8 w OR drop_bit 8 w"

definition ntohs :: "u16 \<Rightarrow> u16" where
  "ntohs w = push_bit 8 w OR drop_bit 8 w"

lemma length_le_bytes [simp, wire_simps]: "length (le_bytes n w) = n"
  by (induction n arbitrary: w) simp_all

lemma le_word_le_bytes_take: "le_word (le_bytes n w) = take_bit (8 * n) w"
proof (induction n arbitrary: w)
  case 0
  then show ?case by simp
next
  case (Suc n)
  show ?case
    by (rule bit_word_eqI)
      (auto simp: Suc bit_simps not_less less_diff_conv2 dest: bit_imp_le_length)
qed

lemma le_word_le_bytes [wire_simps]:
  fixes w :: "'a::len word"
  shows "8 * n = LENGTH('a) \<Longrightarrow> le_word (le_bytes n w) = w"
  by (simp add: le_word_le_bytes_take take_bit_word_eq_self)

lemma bit_le_word:
  "bit (le_word bs :: 'a::len word) n \<longleftrightarrow>
     n < LENGTH('a) \<and> n div 8 < length bs \<and> bit (bs ! (n div 8)) (n mod 8)"
proof (induction bs arbitrary: n)
  case Nil
  then show ?case by simp
next
  case (Cons b bs)
  show ?case
  proof (cases "n < 8")
    case True
    then show ?thesis by (auto simp: bit_simps)
  next
    case False
    then have "n div 8 = Suc ((n - 8) div 8)" "n mod 8 = (n - 8) mod 8"
      by (simp_all add: le_div_geq le_mod_geq)
    with False show ?thesis
      by (auto simp: bit_simps Cons.IH dest: bit_imp_le_length)
  qed
qed

lemma le_bytes_le_word [wire_simps]:
  fixes bs :: "byte list"
  assumes "8 * length bs \<le> LENGTH('a)"
  shows "le_bytes (length bs) (le_word bs :: 'a::len word) = bs"
  using assms
proof (induction bs)
  case Nil
  then show ?case by simp
next
  case (Cons b bs)
  have "drop_bit 8 (ucast b OR push_bit 8 (le_word bs)) = (le_word bs :: 'a word)"
    using Cons.prems
    by (intro bit_word_eqI)
      (auto simp: bit_simps bit_le_word add.commute dest: bit_imp_le_length)
  moreover have "ucast (ucast b OR push_bit 8 (le_word bs) :: 'a word) = b"
    using Cons.prems by (intro bit_word_eqI) (auto simp: bit_simps)
  ultimately show ?case using Cons by simp
qed

lemma htons_ntohs [simp, wire_simps]: "ntohs (htons w) = w" "htons (ntohs w) = w"
  unfolding htons_def ntohs_def
  by (rule bit_word_eqI; auto simp: bit_simps dest: bit_imp_le_length)+

subsection \<open>Fixed-width fields of a wire format\<close>

text \<open>
  Both formats of the program (the packet header and the serialised lookup
  table) are sequences of fixed-width fields. An encoder with its decoder, the
  width and the domain on which they are inverse is the interface; the client
  lemma reads a field at its offset.
\<close>

locale fixed_field =
  fixes enc :: "'v \<Rightarrow> byte list"
    and dec :: "byte list \<Rightarrow> 'v"
    and width :: nat
    and valid :: "'v \<Rightarrow> bool"
  assumes enc_length: "valid v \<Longrightarrow> length (enc v) = width"
    and dec_enc: "valid v \<Longrightarrow> dec (enc v) = v"
begin

lemma read_field:
  "valid v \<Longrightarrow> length pre = off \<Longrightarrow>
   mem_read (pre @ enc v @ post) off width = Inr (enc v)"
  by (simp add: enc_length)

lemma enc_inj: "valid v \<Longrightarrow> valid v' \<Longrightarrow> enc v = enc v' \<Longrightarrow> v = v'"
  by (metis dec_enc)

end

interpretation u16_net: fixed_field
  "\<lambda>w::u16. le_bytes 2 (htons w)" "\<lambda>bs. ntohs (le_word bs)" 2 "\<lambda>_. True"
  by unfold_locales (simp_all add: le_word_le_bytes)

interpretation u32_host: fixed_field "\<lambda>w::c_int. le_bytes 4 w" le_word 4 "\<lambda>_. True"
  by unfold_locales (simp_all add: le_word_le_bytes)

interpretation u64_host: fixed_field "\<lambda>w::size_t. le_bytes 8 w" le_word 8 "\<lambda>_. True"
  by unfold_locales (simp_all add: le_word_le_bytes)

interpretation hash_field: fixed_field
  "\<lambda>h::byte list. h" "\<lambda>h. h" 20 "\<lambda>h. length h = 20"
  by unfold_locales simp_all

text \<open>Network order is big-endian: the high byte goes first.\<close>

lemma net_bytes: "le_bytes 2 (htons w) = [ucast (drop_bit 8 w), ucast w]"
  by (auto simp: htons_def numeral_2_eq_2 bit_simps intro!: bit_word_eqI dest: bit_imp_le_length)

subsection \<open>Lists\<close>

lemma takeWhile_neq_id: "c \<notin> set xs \<Longrightarrow> takeWhile (\<lambda>x. x \<noteq> c) xs = xs"
  by (simp add: takeWhile_eq_all_conv) metis

lemma takeWhile_split: "c \<notin> set xs \<Longrightarrow> takeWhile (\<lambda>x. x \<noteq> c) (xs @ c # ys) = xs"
  by (induction xs) auto

lemma dropWhile_split: "c \<notin> set xs \<Longrightarrow> dropWhile (\<lambda>x. x \<noteq> c) (xs @ c # ys) = c # ys"
  by (induction xs) auto

subsection \<open>Allocation\<close>

text \<open>What the code asks of \<open>malloc\<close>: an address that no live block has.\<close>

locale allocator =
  fixes fresh :: "(nat \<rightharpoonup> 'b) \<Rightarrow> nat"
  assumes fresh_free: "finite (dom h) \<Longrightarrow> h (fresh h) = None"

text \<open>An allocator that never reuses an address still in use.\<close>

definition next_addr :: "(nat \<rightharpoonup> 'b) \<Rightarrow> nat" where
  "next_addr h = Suc (Max (insert 0 (dom h)))"

interpretation bump: allocator next_addr
proof
  fix h :: "nat \<rightharpoonup> 'b"
  assume fin: "finite (dom h)"
  show "h (next_addr h) = None"
  proof (rule ccontr)
    assume "h (next_addr h) \<noteq> None"
    then have "next_addr h \<le> Max (insert 0 (dom h))" using fin by (intro Max_ge) auto
    then show False by (simp add: next_addr_def)
  qed
qed

end
