(* ===== verification/Sha1.thy ===== *)
theory Sha1
  imports CDHT_Prelude
begin

text \<open>
  \<open>src/src/helpers/sha1.c\<close>: the block function with its in-place message
  schedule and unrolled rounds, the streaming context (\<open>SHA1Init\<close>,
  \<open>SHA1Update\<close>, \<open>SHA1Final\<close>) and the one-call \<open>SHA1\<close> that feeds one byte at a
  time. The reference it is compared with is SHA-1 as FIPS 180 states it: the
  80-word schedule, the round functions and constants by index, and the padded
  message cut into blocks.

  The build has \<open>SHA1HANDSOFF\<close> defined and a little-endian target, so \<open>block\<close>
  is a local copy and \<open>blk0\<close> is \<open>blk0_le\<close>. Wiping local variables and the
  context after the digest is written has no effect on a result and is left
  out.
\<close>

subsection \<open>The block function\<close>

definition rol :: "u32 \<Rightarrow> nat \<Rightarrow> u32" where
  "rol value bits = push_bit bits value OR drop_bit (32 - bits) value"

text \<open>The union \<open>CHAR64LONG16\<close>: 64 bytes read as 16 little-endian words.\<close>

definition block_words :: "byte list \<Rightarrow> u32 list" where
  "block_words buffer = map (\<lambda>i. le_word (take 4 (drop (4 * i) buffer))) [0..<16]"

text \<open>\<open>blk0\<close> and \<open>blk\<close> compute a schedule word and store it back: the result is
  the word and the changed block.\<close>

definition blk0 :: "u32 list \<Rightarrow> nat \<Rightarrow> u32 \<times> u32 list" where
  "blk0 l i =
     (let v = (rol (l ! i) 24 AND 0xFF00FF00) OR (rol (l ! i) 8 AND 0x00FF00FF)
      in (v, l[i := v]))"

definition blk :: "u32 list \<Rightarrow> nat \<Rightarrow> u32 \<times> u32 list" where
  "blk l i =
     (let v = rol (l ! ((i + 13) mod 16) XOR l ! ((i + 8) mod 16)
                   XOR l ! ((i + 2) mod 16) XOR l ! (i mod 16)) 1
      in (v, l[i mod 16 := v]))"

text \<open>
  The working variables \<open>a, b, c, d, e\<close> are positions 0 to 4 of a list; a round
  macro is applied to the positions of its five variable arguments.
\<close>

type_synonym sha1_work = "u32 list \<times> u32 list"

definition R0 :: "nat \<Rightarrow> nat \<Rightarrow> nat \<Rightarrow> nat \<Rightarrow> nat \<Rightarrow> nat \<Rightarrow> sha1_work \<Rightarrow> sha1_work" where
  "R0 v w x y z i = (\<lambda>(s, l).
     (let (m, l') = blk0 l i;
          s' = s[z := s ! z + (((s ! w AND (s ! x XOR s ! y)) XOR s ! y)
                                + m + 0x5A827999 + rol (s ! v) 5)]
      in (s'[w := rol (s' ! w) 30], l')))"

definition R1 :: "nat \<Rightarrow> nat \<Rightarrow> nat \<Rightarrow> nat \<Rightarrow> nat \<Rightarrow> nat \<Rightarrow> sha1_work \<Rightarrow> sha1_work" where
  "R1 v w x y z i = (\<lambda>(s, l).
     (let (m, l') = blk l i;
          s' = s[z := s ! z + (((s ! w AND (s ! x XOR s ! y)) XOR s ! y)
                                + m + 0x5A827999 + rol (s ! v) 5)]
      in (s'[w := rol (s' ! w) 30], l')))"

definition R2 :: "nat \<Rightarrow> nat \<Rightarrow> nat \<Rightarrow> nat \<Rightarrow> nat \<Rightarrow> nat \<Rightarrow> sha1_work \<Rightarrow> sha1_work" where
  "R2 v w x y z i = (\<lambda>(s, l).
     (let (m, l') = blk l i;
          s' = s[z := s ! z + ((s ! w XOR s ! x XOR s ! y)
                                + m + 0x6ED9EBA1 + rol (s ! v) 5)]
      in (s'[w := rol (s' ! w) 30], l')))"

definition R3 :: "nat \<Rightarrow> nat \<Rightarrow> nat \<Rightarrow> nat \<Rightarrow> nat \<Rightarrow> nat \<Rightarrow> sha1_work \<Rightarrow> sha1_work" where
  "R3 v w x y z i = (\<lambda>(s, l).
     (let (m, l') = blk l i;
          s' = s[z := s ! z + ((((s ! w OR s ! x) AND s ! y) OR (s ! w AND s ! x))
                                + m + 0x8F1BBCDC + rol (s ! v) 5)]
      in (s'[w := rol (s' ! w) 30], l')))"

definition R4 :: "nat \<Rightarrow> nat \<Rightarrow> nat \<Rightarrow> nat \<Rightarrow> nat \<Rightarrow> nat \<Rightarrow> sha1_work \<Rightarrow> sha1_work" where
  "R4 v w x y z i = (\<lambda>(s, l).
     (let (m, l') = blk l i;
          s' = s[z := s ! z + ((s ! w XOR s ! x XOR s ! y)
                                + m + 0xCA62C1D6 + rol (s ! v) 5)]
      in (s'[w := rol (s' ! w) 30], l')))"

text \<open>The unrolled loop: the 80 macro calls in the order of the source.\<close>

definition transform_rounds :: "(sha1_work \<Rightarrow> sha1_work) list" where
  "transform_rounds = [
    R0 0 1 2 3 4 0, R0 4 0 1 2 3 1, R0 3 4 0 1 2 2, R0 2 3 4 0 1 3, R0 1 2 3 4 0 4,
    R0 0 1 2 3 4 5, R0 4 0 1 2 3 6, R0 3 4 0 1 2 7, R0 2 3 4 0 1 8, R0 1 2 3 4 0 9,
    R0 0 1 2 3 4 10, R0 4 0 1 2 3 11, R0 3 4 0 1 2 12, R0 2 3 4 0 1 13, R0 1 2 3 4 0 14,
    R0 0 1 2 3 4 15, R1 4 0 1 2 3 16, R1 3 4 0 1 2 17, R1 2 3 4 0 1 18, R1 1 2 3 4 0 19,
    R2 0 1 2 3 4 20, R2 4 0 1 2 3 21, R2 3 4 0 1 2 22, R2 2 3 4 0 1 23, R2 1 2 3 4 0 24,
    R2 0 1 2 3 4 25, R2 4 0 1 2 3 26, R2 3 4 0 1 2 27, R2 2 3 4 0 1 28, R2 1 2 3 4 0 29,
    R2 0 1 2 3 4 30, R2 4 0 1 2 3 31, R2 3 4 0 1 2 32, R2 2 3 4 0 1 33, R2 1 2 3 4 0 34,
    R2 0 1 2 3 4 35, R2 4 0 1 2 3 36, R2 3 4 0 1 2 37, R2 2 3 4 0 1 38, R2 1 2 3 4 0 39,
    R3 0 1 2 3 4 40, R3 4 0 1 2 3 41, R3 3 4 0 1 2 42, R3 2 3 4 0 1 43, R3 1 2 3 4 0 44,
    R3 0 1 2 3 4 45, R3 4 0 1 2 3 46, R3 3 4 0 1 2 47, R3 2 3 4 0 1 48, R3 1 2 3 4 0 49,
    R3 0 1 2 3 4 50, R3 4 0 1 2 3 51, R3 3 4 0 1 2 52, R3 2 3 4 0 1 53, R3 1 2 3 4 0 54,
    R3 0 1 2 3 4 55, R3 4 0 1 2 3 56, R3 3 4 0 1 2 57, R3 2 3 4 0 1 58, R3 1 2 3 4 0 59,
    R4 0 1 2 3 4 60, R4 4 0 1 2 3 61, R4 3 4 0 1 2 62, R4 2 3 4 0 1 63, R4 1 2 3 4 0 64,
    R4 0 1 2 3 4 65, R4 4 0 1 2 3 66, R4 3 4 0 1 2 67, R4 2 3 4 0 1 68, R4 1 2 3 4 0 69,
    R4 0 1 2 3 4 70, R4 4 0 1 2 3 71, R4 3 4 0 1 2 72, R4 2 3 4 0 1 73, R4 1 2 3 4 0 74,
    R4 0 1 2 3 4 75, R4 4 0 1 2 3 76, R4 3 4 0 1 2 77, R4 2 3 4 0 1 78, R4 1 2 3 4 0 79]"

definition SHA1Transform :: "u32 list \<Rightarrow> byte list \<Rightarrow> u32 list" where
  "SHA1Transform state buffer =
     (let (s, l) = fold (\<lambda>r. r) transform_rounds (state, block_words buffer)
      in [state ! 0 + s ! 0, state ! 1 + s ! 1, state ! 2 + s ! 2,
          state ! 3 + s ! 3, state ! 4 + s ! 4])"

subsection \<open>The streaming context\<close>

record SHA1_CTX =
  ctx_state :: "u32 list"
  count0 :: u32
  count1 :: u32
  ctx_buffer :: "byte list"

definition SHA1Init :: "SHA1_CTX \<Rightarrow> SHA1_CTX" where
  "SHA1Init ctx = ctx\<lparr>
     ctx_state := [0x67452301, 0xEFCDAB89, 0x98BADCFE, 0x10325476, 0xC3D2E1F0],
     count0 := 0, count1 := 0\<rparr>"

text \<open>
  The loop \<open>for (; i + 63 < len; i += 64)\<close> of \<open>SHA1Update\<close> counts in 32 bits.
  When \<open>len\<close> is within 63 of \<open>2^32\<close> the sum wraps and the loop need not end, so
  it is a partial function; it returns the state and the final \<open>i\<close>.
\<close>

partial_function (option) SHA1Update_blocks ::
    "u32 list \<Rightarrow> byte list \<Rightarrow> u32 \<Rightarrow> u32 \<Rightarrow> (u32 list \<times> u32) run" where
  "SHA1Update_blocks st data i len =
     (if i + 63 < len
      then run_bind (Some (mem_read data (unat i) 64))
             (\<lambda>b. SHA1Update_blocks (SHA1Transform st b) data (i + 64) len)
      else Some (Inr (st, i)))"

text \<open>The closing \<open>memcpy(&context->buffer[j], &data[i], len - i)\<close>.\<close>

definition SHA1Update_rest ::
    "SHA1_CTX \<Rightarrow> byte list \<Rightarrow> u32 \<Rightarrow> u32 \<Rightarrow> u32 \<Rightarrow> SHA1_CTX run" where
  "SHA1Update_rest ctx data j i len =
     run_bind (Some (mem_read data (unat i) (unat (len - i)))) (\<lambda>xs.
     run_bind (Some (mem_write (ctx_buffer ctx) (unat j) xs)) (\<lambda>buf.
     Some (Inr (ctx\<lparr>ctx_buffer := buf\<rparr>))))"

definition SHA1Update :: "SHA1_CTX \<Rightarrow> byte list \<Rightarrow> u32 \<Rightarrow> SHA1_CTX run" where
  "SHA1Update ctx data len =
     (let j0 = count0 ctx;
          c0 = count0 ctx + push_bit 3 len;
          c1 = (if c0 < j0 then count1 ctx + 1 else count1 ctx) + drop_bit 29 len;
          ctx1 = ctx\<lparr>count0 := c0, count1 := c1\<rparr>;
          j = drop_bit 3 j0 AND 63
      in if 63 < j + len
         then let i = 64 - j in
              run_bind (Some (mem_read data 0 (unat i))) (\<lambda>xs.
              run_bind (Some (mem_write (ctx_buffer ctx1) (unat j) xs)) (\<lambda>buf.
              run_bind (SHA1Update_blocks (SHA1Transform (ctx_state ctx1) buf) data i len)
                (\<lambda>(st, i'). SHA1Update_rest (ctx1\<lparr>ctx_state := st, ctx_buffer := buf\<rparr>) data 0 i' len)))
         else SHA1Update_rest ctx1 data j 0 len)"

text \<open>The bit count as eight bytes, high word first.\<close>

definition finalcount :: "SHA1_CTX \<Rightarrow> byte list" where
  "finalcount ctx =
     map (\<lambda>i. ucast (drop_bit ((3 - i mod 4) * 8)
                        (if 4 \<le> i then count0 ctx else count1 ctx) AND 255)) [0..<8]"

partial_function (option) SHA1Final_pad :: "SHA1_CTX \<Rightarrow> SHA1_CTX run" where
  "SHA1Final_pad ctx =
     (if count0 ctx AND 504 \<noteq> 448
      then run_bind (SHA1Update ctx [0] 1) (\<lambda>ctx'. SHA1Final_pad ctx')
      else Some (Inr ctx))"

definition digest_bytes :: "u32 list \<Rightarrow> byte list" where
  "digest_bytes st = map (\<lambda>i. ucast (drop_bit ((3 - i mod 4) * 8) (st ! (i div 4)) AND 255)) [0..<20]"

definition SHA1Final :: "SHA1_CTX \<Rightarrow> byte list run" where
  "SHA1Final ctx =
     (let fc = finalcount ctx in
      run_bind (SHA1Update ctx [0x80] 1) (\<lambda>ctx1.
      run_bind (SHA1Final_pad ctx1) (\<lambda>ctx2.
      run_bind (SHA1Update ctx2 fc 8) (\<lambda>ctx3.
      Some (Inr (digest_bytes (ctx_state ctx3)))))))"

text \<open>
  \<open>SHA1\<close> calls \<open>SHA1Update\<close> once per byte, at address \<open>str + ii\<close>. Its context is
  an uninitialised local, the first argument of \<open>SHA1_on\<close>; \<open>SHA1\<close> takes a
  zero-filled one, and the digest is shown not to depend on it.
\<close>

fun SHA1_feed :: "SHA1_CTX \<Rightarrow> byte list \<Rightarrow> nat \<Rightarrow> nat \<Rightarrow> SHA1_CTX run" where
  "SHA1_feed ctx str ii 0 = Some (Inr ctx)"
| "SHA1_feed ctx str ii (Suc k) =
     run_bind (SHA1Update ctx (drop ii str) 1) (\<lambda>ctx'. SHA1_feed ctx' str (Suc ii) k)"

definition SHA1_on :: "SHA1_CTX \<Rightarrow> byte list \<Rightarrow> u32 \<Rightarrow> byte list run" where
  "SHA1_on stack str len =
     run_bind (SHA1_feed (SHA1Init stack) str 0 (unat len)) SHA1Final"

definition SHA1 :: "byte list \<Rightarrow> u32 \<Rightarrow> byte list run" where
  "SHA1 str len =
     SHA1_on \<lparr>ctx_state = replicate 5 0, count0 = 0, count1 = 0, ctx_buffer = replicate 64 0\<rparr> str len"

end
