(* ===== verification/Sha1_Block.thy ===== *)
theory Sha1_Block
  imports Sha1
begin

text \<open>
  The block function against the standard. \<open>schedule\<close>, \<open>round_fun\<close>,
  \<open>round_const\<close> and \<open>fips_block\<close> state the computation of FIPS 180 on one
  512-bit block with an 80-word schedule; \<open>SHA1Transform\<close> keeps 16 words, swaps
  their bytes in place and renames its five variables from call to call. The
  two invariants relate the 16-word window to the schedule and the rotated
  variables to the standard's \<open>(a, b, c, d, e)\<close>.
\<close>

subsection \<open>The standard's block function\<close>

definition be_word32 :: "byte list \<Rightarrow> u32" where
  "be_word32 bs = le_word (rev bs)"

fun schedule :: "byte list \<Rightarrow> nat \<Rightarrow> u32" where
  "schedule M t =
     (if t < 16 then be_word32 (take 4 (drop (4 * t) M))
      else rol (schedule M (t - 3) XOR schedule M (t - 8)
                XOR schedule M (t - 14) XOR schedule M (t - 16)) 1)"

declare schedule.simps [simp del]

definition round_fun :: "nat \<Rightarrow> u32 \<Rightarrow> u32 \<Rightarrow> u32 \<Rightarrow> u32" where
  "round_fun t b c d =
     (if t < 20 then (b AND c) OR (NOT b AND d)
      else if t < 40 then b XOR c XOR d
      else if t < 60 then (b AND c) OR (b AND d) OR (c AND d)
      else b XOR c XOR d)"

definition round_const :: "nat \<Rightarrow> u32" where
  "round_const t =
     (if t < 20 then 0x5A827999 else if t < 40 then 0x6ED9EBA1
      else if t < 60 then 0x8F1BBCDC else 0xCA62C1D6)"

type_synonym five = "u32 \<times> u32 \<times> u32 \<times> u32 \<times> u32"

primrec fips_rounds :: "byte list \<Rightarrow> nat \<Rightarrow> five \<Rightarrow> five" where
  "fips_rounds M 0 h = h"
| "fips_rounds M (Suc t) h =
     (case fips_rounds M t h of (a, b, c, d, e) \<Rightarrow>
        (rol a 5 + round_fun t b c d + e + round_const t + schedule M t, a, rol b 30, c, d))"

definition fips_block :: "u32 list \<Rightarrow> byte list \<Rightarrow> u32 list" where
  "fips_block H M =
     (case fips_rounds M 80 (H ! 0, H ! 1, H ! 2, H ! 3, H ! 4) of (a, b, c, d, e) \<Rightarrow>
        [H ! 0 + a, H ! 1 + b, H ! 2 + c, H ! 3 + d, H ! 4 + e])"

subsection \<open>The unrolled rounds are the standard's rounds\<close>

text \<open>One round with its position: the argument rotation of the source repeats
  every five calls.\<close>

definition round_at :: "nat \<Rightarrow> sha1_work \<Rightarrow> sha1_work" where
  "round_at t =
     (if t < 16 then R0 else if t < 20 then R1 else if t < 40 then R2
      else if t < 60 then R3 else R4)
     ((4 * t + 5) mod 5) ((4 * t + 6) mod 5) ((4 * t + 7) mod 5) ((4 * t + 8) mod 5)
     ((4 * t + 9) mod 5) t"

lemma transform_rounds_table: "transform_rounds = map round_at [0..<80]"
proof -
  have upto: "[0..<80] = [0,1,2,3,4,5,6,7,8,9,10,11,12,13,14,15,16,17,18,19,20,21,22,23,24,25,26,27,28,29,30,31,32,33,34,35,36,37,38,39,
      40,41,42,43,44,45,46,47,48,49,50,51,52,53,54,55,56,57,58,59,60,61,62,63,64,65,66,67,68,69,70,71,72,73,74,75,76,77,78,79]"
    by code_simp
  show ?thesis
    unfolding transform_rounds_def upto by (simp add: round_at_def)
qed

lemma choose_eq: "((w AND (x XOR y)) XOR y) = (w AND x) OR (NOT w AND y)" for w x y :: u32
  by (rule bit_word_eqI) (auto simp: bit_simps)

lemma majority_eq:
  "(((w OR x) AND y) OR (w AND x)) = (w AND x) OR (w AND y) OR (x AND y)" for w x y :: u32
  by (rule bit_word_eqI) (auto simp: bit_simps)

lemma odd_byte_masks:
  "(0xFF00FF00 :: u32) = push_bit 8 (mask 8) OR push_bit 24 (mask 8)"
  "(0x00FF00FF :: u32) = mask 8 OR push_bit 16 (mask 8)"
  by (simp_all add: mask_eq_exp_minus_1)

lemma swap_bytes:
  "(rol (le_word [b0, b1, b2, b3]) 24 AND 0xFF00FF00) OR
   (rol (le_word [b0, b1, b2, b3]) 8 AND 0x00FF00FF) = be_word32 [b0, b1, b2, b3]"
  (is "?l = ?r")
proof (rule bit_word_eqI)
  fix n
  assume "n < LENGTH(32)"
  then consider "n < 8" | "8 \<le> n" "n < 16" | "16 \<le> n" "n < 24" | "24 \<le> n" "n < 32"
    by fastforce
  then show "bit ?l n = bit ?r n"
  proof cases
    case 1
    then have d: "n div 8 = 0" "n mod 8 = n" "(24 + n) div 8 = 3" "(24 + n) mod 8 = n"
      using mod_mult_self1 [of n 3 8] by (simp_all add: add.commute)
    show ?thesis using 1
      by (auto simp: be_word32_def rol_def odd_byte_masks bit_simps bit_le_word d simp del: le_word.simps)
  next
    case 2
    then have d: "n div 8 = 1" "(8 + n) div 8 = 2" "n - 8 < 8" "n - 8 < 32" by auto
    show ?thesis using 2
      by (auto simp: be_word32_def rol_def odd_byte_masks bit_simps bit_le_word d simp del: le_word.simps)
  next
    case 3
    then have d: "n div 8 = 2" "(n - 8) div 8 = 1" "(n - 8) mod 8 = n mod 8"
      by (simp_all add: le_mod_geq [symmetric])
    show ?thesis using 3
      by (auto simp: be_word32_def rol_def odd_byte_masks bit_simps bit_le_word d simp del: le_word.simps)
  next
    case 4
    then have d: "n div 8 = 3" "(n - 24) div 8 = 0" "(n - 24) mod 8 = n mod 8"
      using mod_mult_self1 [of "n - 24" 3 8] by simp_all
    show ?thesis using 4
      by (auto simp: be_word32_def rol_def odd_byte_masks bit_simps bit_le_word d simp del: le_word.simps)
  qed
qed

lemma round_at_general:
  "round_at t (s, l) =
     (let v = (4 * t + 5) mod 5; w = (4 * t + 6) mod 5; x = (4 * t + 7) mod 5;
          y = (4 * t + 8) mod 5; z = (4 * t + 9) mod 5;
          (m, l') = (if t < 16 then blk0 l t else blk l t);
          s' = s[z := s ! z + (round_fun t (s ! w) (s ! x) (s ! y)
                                + m + round_const t + rol (s ! v) 5)]
      in (s'[w := rol (s' ! w) 30], l'))"
proof -
  consider "t < 16" | "16 \<le> t" "t < 20" | "20 \<le> t" "t < 40" | "40 \<le> t" "t < 60" | "60 \<le> t"
    by linarith
  then show ?thesis
    by cases (simp_all add: round_at_def R0_def R1_def R2_def R3_def R4_def round_fun_def
      round_const_def choose_eq majority_eq Let_def)
qed

definition sched_inv :: "byte list \<Rightarrow> nat \<Rightarrow> u32 list \<Rightarrow> bool" where
  "sched_inv M t l \<longleftrightarrow> length l = 16 \<and>
     (\<forall>u. u < t \<and> t \<le> u + 16 \<longrightarrow> l ! (u mod 16) = schedule M u) \<and>
     (\<forall>u. t \<le> u \<and> u < 16 \<longrightarrow> l ! u = le_word (take 4 (drop (4 * u) M)))"

lemma sched_inv_start: "sched_inv M 0 (block_words M)"
  by (simp add: sched_inv_def block_words_def)

lemma sched_inv_blk0:
  assumes "sched_inv M t l" "length M = 64" "t < 16" "blk0 l t = (m, l')"
  shows "m = schedule M t \<and> sched_inv M (Suc t) l'"
proof -
  have four: "take 4 (drop (4 * t) M) = [M ! (4*t), M ! (4*t+1), M ! (4*t+2), M ! (4*t+3)]"
    using assms(2,3) by (intro nth_equalityI) (auto simp: nth_Cons less_Suc_eq numeral_eq_Suc)
  have "l ! t = le_word (take 4 (drop (4 * t) M))"
    using assms(1,3) by (simp add: sched_inv_def)
  then have m: "m = schedule M t" and l': "l' = l[t := m]"
    using assms(3,4) unfolding blk0_def Let_def four schedule.simps [of M t]
    by (auto simp: swap_bytes simp del: le_word.simps)
  moreover have "sched_inv M (Suc t) (l[t := schedule M t])"
    using assms(1,3) by (auto simp: sched_inv_def nth_list_update less_Suc_eq)
  ultimately show ?thesis by simp
qed

lemma mod_shift_neq: "0 < k \<Longrightarrow> k < b \<Longrightarrow> (n + k) mod b \<noteq> n mod (b::nat)"
  by (metis add_diff_cancel_left' dvd_imp_le leD le_add1 mod_eq_dvd_iff_nat)

lemma sched_inv_blk:
  assumes inv: "sched_inv M t l" and t: "16 \<le> t" and b: "blk l t = (m, l')"
  shows "m = schedule M t \<and> sched_inv M (Suc t) l'"
proof -
  have word: "l ! (u mod 16) = schedule M u" if "u < t" "t \<le> u + 16" for u
    using inv that by (simp add: sched_inv_def)
  have idx: "(t + 13) mod 16 = (t - 3) mod 16" "(t + 8) mod 16 = (t - 8) mod 16"
    "(t + 2) mod 16 = (t - 14) mod 16" "t mod 16 = (t - 16) mod 16"
    using t le_mod_geq [of 16 "t + 13"] le_mod_geq [of 16 "t + 8"] le_mod_geq [of 16 "t + 2"]
      le_mod_geq [of 16 t] by simp_all
  have "l ! ((t + 13) mod 16) = schedule M (t - 3)" "l ! ((t + 8) mod 16) = schedule M (t - 8)"
    "l ! ((t + 2) mod 16) = schedule M (t - 14)" "l ! (t mod 16) = schedule M (t - 16)"
    unfolding idx using t by (intro word; simp)+
  then have m: "m = schedule M t" and l': "l' = l[t mod 16 := schedule M t]"
    using b t by (auto simp: blk_def Let_def schedule.simps [of M t])
  have "sched_inv M (Suc t) (l[t mod 16 := schedule M t])"
    unfolding sched_inv_def
  proof (intro conjI allI impI)
    show "length (l[t mod 16 := schedule M t]) = 16"
      using inv by (simp add: sched_inv_def)
    show "l[t mod 16 := schedule M t] ! (u mod 16) = schedule M u"
      if "u < Suc t \<and> Suc t \<le> u + 16" for u
    proof (cases "u = t")
      case True
      then show ?thesis using inv by (simp add: sched_inv_def)
    next
      case False
      with that have "u < t" "t < u + 16" by auto
      then show ?thesis
        using mod_shift_neq [of "t - u" 16 u] by (simp add: word)
    qed
  qed (use t in simp)
  with m l' show ?thesis by simp
qed

definition regs_inv :: "nat \<Rightarrow> five \<Rightarrow> u32 list \<Rightarrow> bool" where
  "regs_inv t h s \<longleftrightarrow> length s = 5 \<and>
     h = (s ! ((4 * t + 5) mod 5), s ! ((4 * t + 6) mod 5), s ! ((4 * t + 7) mod 5),
          s ! ((4 * t + 8) mod 5), s ! ((4 * t + 9) mod 5))"

lemma mod5_shift:
  "(4 * Suc t + 5) mod 5 = (4 * t + 9) mod 5" "(4 * Suc t + 6) mod 5 = (4 * t + 5) mod 5"
  "(4 * Suc t + 7) mod 5 = (4 * t + 6) mod 5" "(4 * Suc t + 8) mod 5 = (4 * t + 7) mod 5"
  "(4 * Suc t + 9) mod 5 = (4 * t + 8) mod (5::nat)"
  using mod_add_self2 [of "4 * t + 5" 5] mod_add_self2 [of "4 * t + 6" 5]
    mod_add_self2 [of "4 * t + 7" 5] mod_add_self2 [of "4 * t + 8" 5]
  by (simp_all only: mult_Suc_right add.assoc) (simp_all add: algebra_simps)

lemma mod5_cases:
  obtains "(4 * t + 5) mod 5 = 0" "(4 * t + 6) mod 5 = 1" "(4 * t + 7) mod 5 = 2"
      "(4 * t + 8) mod 5 = 3" "(4 * t + 9) mod 5 = (4::nat)"
  | "(4 * t + 5) mod 5 = 1" "(4 * t + 6) mod 5 = 2" "(4 * t + 7) mod 5 = 3"
      "(4 * t + 8) mod 5 = 4" "(4 * t + 9) mod 5 = 0"
  | "(4 * t + 5) mod 5 = 2" "(4 * t + 6) mod 5 = 3" "(4 * t + 7) mod 5 = 4"
      "(4 * t + 8) mod 5 = 0" "(4 * t + 9) mod 5 = 1"
  | "(4 * t + 5) mod 5 = 3" "(4 * t + 6) mod 5 = 4" "(4 * t + 7) mod 5 = 0"
      "(4 * t + 8) mod 5 = 1" "(4 * t + 9) mod 5 = 2"
  | "(4 * t + 5) mod 5 = 4" "(4 * t + 6) mod 5 = 0" "(4 * t + 7) mod 5 = 1"
      "(4 * t + 8) mod 5 = 2" "(4 * t + 9) mod 5 = 3"
proof -
  have "(4 * t) mod 5 < 5" by simp
  then consider "(4 * t) mod 5 = 0" | "(4 * t) mod 5 = 1" | "(4 * t) mod 5 = 2"
    | "(4 * t) mod 5 = 3" | "(4 * t) mod 5 = 4" by linarith
  moreover have "(4 * t + k) mod 5 = ((4 * t) mod 5 + k) mod 5" for k
    by (rule mod_add_left_eq [symmetric])
  ultimately show thesis
    by cases (use that in simp_all)
qed

lemma round_step:
  assumes regs: "regs_inv t (a, b, c, d, e) s" and sched: "sched_inv M t l"
    and M: "length M = 64" and r: "round_at t (s, l) = (s', l')"
  shows "regs_inv (Suc t)
           (rol a 5 + round_fun t b c d + e + round_const t + schedule M t, a, rol b 30, c, d) s'
         \<and> sched_inv M (Suc t) l'"
proof -
  obtain m l1 where w: "(if t < 16 then blk0 l t else blk l t) = (m, l1)" by fastforce
  have m: "m = schedule M t" and l1: "sched_inv M (Suc t) l1"
    using w sched_inv_blk0 [OF sched M] sched_inv_blk [OF sched] by (auto split: if_splits)
  have "length s = 5" using regs by (simp add: regs_inv_def)
  then have "regs_inv (Suc t)
           (rol a 5 + round_fun t b c d + e + round_const t + schedule M t, a, rol b 30, c, d) s'"
    using regs r w
    unfolding regs_inv_def mod5_shift round_at_general Let_def m
    by (cases rule: mod5_cases [of t]) (auto simp: algebra_simps)
  moreover have "l' = l1"
    using r w unfolding round_at_general Let_def by simp
  ultimately show ?thesis using l1 by simp
qed

lemma rounds_inv:
  assumes M: "length M = 64" and st: "length st = 5"
    and run: "fold (\<lambda>r. r) (map round_at [0..<t]) (st, block_words M) = (s, l)"
  shows "regs_inv t (fips_rounds M t (st ! 0, st ! 1, st ! 2, st ! 3, st ! 4)) s \<and> sched_inv M t l"
  using run
proof (induction t arbitrary: s l)
  case 0
  then show ?case using st by (auto simp: regs_inv_def sched_inv_start numeral_2_eq_2)
next
  case (Suc t)
  obtain s1 l1 where r1: "fold (\<lambda>r. r) (map round_at [0..<t]) (st, block_words M) = (s1, l1)"
    by fastforce
  obtain a b c d e where h:
    "fips_rounds M t (st ! 0, st ! 1, st ! 2, st ! 3, st ! 4) = (a, b, c, d, e)"
    by (metis prod_cases5)
  from Suc.prems r1 have "round_at t (s1, l1) = (s, l)" by simp
  with Suc.IH [OF r1] round_step [of t a b c d e s1 M l1 s l] M h show ?case by simp
qed

lemma SHA1Transform_fips_block:
  assumes "length st = 5" and "length M = 64"
  shows "SHA1Transform st M = fips_block st M"
proof -
  obtain s l where r: "fold (\<lambda>r. r) transform_rounds (st, block_words M) = (s, l)"
    by fastforce
  have "regs_inv 80 (fips_rounds M 80 (st ! 0, st ! 1, st ! 2, st ! 3, st ! 4)) s"
    using rounds_inv [OF assms(2,1)] r unfolding transform_rounds_table by blast
  then show ?thesis
    by (simp add: SHA1Transform_def r fips_block_def regs_inv_def)
qed

end
