(* ===== verification/Sha1_Stream.thy ===== *)
theory Sha1_Stream
  imports Sha1_Block
begin

text \<open>
  The streaming interface against the standard's padded message. \<open>ctx_holds\<close>
  says which byte sequence a context represents; \<open>SHA1Update\<close> appends to it
  (any chunk length, with the 64-bit bit counter kept in two words),
  \<open>SHA1Final\<close> pads it and returns the digest, and \<open>SHA1\<close> is the composition.
\<close>

subsection \<open>The standard's padding and digest\<close>

text \<open>\<open>fips_fold\<close> runs the block function over the complete blocks of a byte
  sequence.\<close>

function fips_fold :: "u32 list \<Rightarrow> byte list \<Rightarrow> u32 list" where
  "fips_fold H m = (if length m < 64 then H else fips_fold (fips_block H (take 64 m)) (drop 64 m))"
  by pat_completeness auto
termination
  by (relation "measure (\<lambda>(H, m). length m)") auto

declare fips_fold.simps [simp del]

definition sha1_H0 :: "u32 list" where
  "sha1_H0 = [0x67452301, 0xEFCDAB89, 0x98BADCFE, 0x10325476, 0xC3D2E1F0]"

definition sha1_pad :: "byte list \<Rightarrow> byte list" where
  "sha1_pad m =
     m @ [0x80] @ replicate ((119 - length m mod 64) mod 64) 0
       @ rev (le_bytes 8 (word_of_nat (8 * length m) :: 64 word))"

definition fips_sha1 :: "byte list \<Rightarrow> byte list" where
  "fips_sha1 m = concat (map (\<lambda>w. rev (le_bytes 4 w)) (fips_fold sha1_H0 (sha1_pad m)))"

lemma length_fips_block [simp]: "length (fips_block H M) = 5"
  by (simp add: fips_block_def split: prod.split)

lemma length_fips_fold: "length H = 5 \<Longrightarrow> length (fips_fold H m) = 5"
  by (induction H m rule: fips_fold.induct) (simp add: fips_fold.simps)

lemma fips_fold_short: "length m < 64 \<Longrightarrow> fips_fold H m = H"
  by (simp add: fips_fold.simps)

lemma fips_fold_block: "length b = 64 \<Longrightarrow> fips_fold H (b @ m) = fips_fold (fips_block H b) m"
  by (simp add: fips_fold.simps [of H])

text \<open>The bytes after the last complete block.\<close>

definition pending :: "byte list \<Rightarrow> byte list" where
  "pending m = drop (length m - length m mod 64) m"

lemma length_pending [simp]: "length (pending m) = length m mod 64"
  by (simp add: pending_def)

lemma pending_short: "length m < 64 \<Longrightarrow> pending m = m"
  by (simp add: pending_def)

lemma pending_drop64: "64 \<le> length m \<Longrightarrow> pending (drop 64 m) = pending m"
proof -
  assume m: "64 \<le> length m"
  then have "1 \<le> length m div 64"
    using div_le_mono [OF m, of 64] by simp
  then have "64 + length m mod 64 \<le> length m"
    using mult_div_mod_eq [of 64 "length m"] by linarith
  with m show ?thesis by (simp add: pending_def le_mod_geq [symmetric])
qed

lemma pending_block: "length b = 64 \<Longrightarrow> pending (b @ m) = pending m"
  using pending_drop64 [of "b @ m"] by simp

lemma fips_fold_append: "fips_fold H (m @ d) = fips_fold (fips_fold H m) (pending m @ d)"
proof (induction H m rule: fips_fold.induct)
  case (1 H m)
  show ?case
  proof (cases "length m < 64")
    case True
    then show ?thesis by (simp add: fips_fold_short pending_short)
  next
    case False
    then have "fips_fold H (m @ d) = fips_fold (fips_block H (take 64 m)) (drop 64 m @ d)"
      by (simp add: fips_fold.simps [of H "m @ d"])
    also have "\<dots> = fips_fold (fips_fold (fips_block H (take 64 m)) (drop 64 m)) (pending (drop 64 m) @ d)"
      using 1 False by simp
    finally show ?thesis
      using False by (simp add: fips_fold.simps [of H m] pending_drop64)
  qed
qed

lemma pending_append: "pending (m @ d) = pending (pending m @ d)"
proof -
  have "pending (a @ x) = pending x" if "length a = 64 * k" for a x k
    using that by (simp add: pending_def)
  moreover have "m = take (length m - length m mod 64) m @ pending m"
    by (simp add: pending_def)
  moreover have "length m - length m mod 64 = 64 * (length m div 64)"
    by (simp add: minus_mod_eq_mult_div)
  ultimately show ?thesis
    by (metis append.assoc diff_le_self length_take min.absorb2)
qed

subsection \<open>The context represents the bytes fed so far\<close>

definition ctx_holds :: "SHA1_CTX \<Rightarrow> byte list \<Rightarrow> bool" where
  "ctx_holds ctx m \<longleftrightarrow>
     ctx_state ctx = fips_fold sha1_H0 m \<and>
     length (ctx_buffer ctx) = 64 \<and>
     take (length m mod 64) (ctx_buffer ctx) = pending m \<and>
     count0 ctx = word_of_nat (8 * length m) \<and>
     count1 ctx = word_of_nat (8 * length m div 2 ^ 32)"

lemma length_sha1_H0 [simp]: "length sha1_H0 = 5"
  by (simp add: sha1_H0_def)

lemma ctx_holds_init: "length (ctx_buffer ctx) = 64 \<Longrightarrow> ctx_holds (SHA1Init ctx) []"
  by (simp add: ctx_holds_def SHA1Init_def fips_fold_short pending_def sha1_H0_def)

lemma unat_u32_less: "unat (w :: u32) < 2 ^ 32"
  by (rule order_less_le_trans [OF unsigned_less]) simp

lemma buffered_position: "unat (drop_bit 3 (word_of_nat (8 * n) :: u32) AND 63) = n mod 64"
proof -
  have mask: "drop_bit 3 w AND 63 = take_bit 6 (drop_bit 3 w)" for w :: u32
    by (simp add: take_bit_eq_mask mask_eq_exp_minus_1)
  have "unat (drop_bit 3 (word_of_nat (8 * n) :: u32) AND 63) = (8 * n) mod 2 ^ 32 div 2 ^ 3 mod 2 ^ 6"
    unfolding mask unsigned_take_bit_eq unat_drop_bit_eq unat_of_nat
    by (simp add: take_bit_eq_mod drop_bit_eq_div)
  also have "(8 * n) mod 2 ^ 32 div 2 ^ 3 = n mod 2 ^ 29"
    using mult_mod_right [of 8 n "2 ^ 29"] by simp
  also have "\<dots> mod 2 ^ 6 = n mod 64"
    by (simp add: mod_mod_cancel)
  finally show ?thesis .
qed

lemma count0_update: "word_of_nat (8 * n) + push_bit 3 len = (word_of_nat (8 * (n + unat len)) :: u32)"
  by (simp add: push_bit_eq_mult algebra_simps)

lemma carry_nat:
  fixes a b B :: nat
  assumes "a < B" "b < B"
  shows "(a + b) div B = (if a + b < B then 0 else 1)"
    and "(a + b) mod B = (if a + b < B then a + b else a + b - B)"
  using assms by (simp_all add: le_div_geq le_mod_geq)

lemma count1_update:
  fixes len c :: u32
  assumes c_def: "c = word_of_nat (8 * n)"
  shows "(if c + push_bit 3 len < c then word_of_nat (8 * n div 2 ^ 32) + 1
          else word_of_nat (8 * n div 2 ^ 32)) + drop_bit 29 len
         = (word_of_nat (8 * (n + unat len) div 2 ^ 32) :: u32)"
proof -
  define B where "B = (2::nat) ^ 32"
  define x where "x = 8 * n"
  define y where "y = 8 * unat len"
  have c: "unat c = x mod B"
    unfolding c_def x_def B_def unat_of_nat by simp
  have s: "c + push_bit 3 len = word_of_nat (x + y)"
    using count0_update [of n len] unfolding c_def x_def y_def by (simp only: distrib_left)
  have "unat (c + push_bit 3 len) = (x + y) mod B"
    unfolding s B_def unat_of_nat by simp
  then have lt: "c + push_bit 3 len < c \<longleftrightarrow> (x + y) mod B < x mod B"
    by (simp add: word_less_nat_alt c)
  have "drop_bit 29 len = word_of_nat (unat len div 2 ^ 29)"
  proof (rule word_unat_eq_iff [THEN iffD2])
    have "unat len div 2 ^ 29 < 2 ^ 32"
      using unat_u32_less [of len] div_le_dividend [of "unat len" "2 ^ 29"] by linarith
    then show "unat (drop_bit 29 len) = unat (word_of_nat (unat len div 2 ^ 29) :: u32)"
      unfolding unat_drop_bit_eq unat_of_nat by (simp add: drop_bit_eq_div)
  qed
  then have hi: "drop_bit 29 len = word_of_nat (y div B)"
    by (simp add: y_def B_def)
  have "B > 0" by (simp add: B_def)
  then have m: "x mod B < B" "y mod B < B" by simp_all
  have carry: "(x + y) div B = x div B + y div B + (if (x + y) mod B < x mod B then 1 else 0)"
    using carry_nat [OF m] m div_add1_eq [of x y B] mod_add_eq [of x B y] by (auto split: if_splits)
  have "(if c + push_bit 3 len < c then word_of_nat (x div B) + 1 else word_of_nat (x div B))
      + drop_bit 29 len = (word_of_nat ((x + y) div B) :: u32)"
    unfolding lt hi carry by simp
  then show ?thesis
    unfolding x_def y_def B_def distrib_left .
qed

lemma SHA1Update_blocks_fold:
  assumes "unat i \<le> unat len" and "unat len \<le> length data" and "unat len + 63 < 2 ^ 32"
    and "length st = 5"
  shows "\<exists>i'. SHA1Update_blocks st data i len
           = Some (Inr (fips_fold st (drop (unat i) (take (unat len) data)), i'))
         \<and> unat i' = unat len - (unat len - unat i) mod 64"
  using assms
proof (induction "unat len - unat i" arbitrary: i st rule: less_induct)
  case less
  have i63: "unat (i + 63) = unat i + 63"
    using less.prems by (simp add: unat_word_ariths)
  show ?case
  proof (cases "i + 63 < len")
    case True
    then have room: "unat i + 64 \<le> unat len"
      using i63 by (simp add: word_less_nat_alt)
    then have i64: "unat (i + 64) = unat i + 64"
      using less.prems by (simp add: unat_word_ariths)
    let ?b = "take 64 (drop (unat i) data)"
    have b: "length ?b = 64" using room less.prems by simp
    have read: "mem_read data (unat i) 64 = Inr ?b"
      using room less.prems by (simp add: mem_read_def)
    have shorter: "unat len - unat (i + 64) < unat len - unat i" using room by (simp add: i64)
    obtain i' where IH: "SHA1Update_blocks (fips_block st ?b) data (i + 64) len
        = Some (Inr (fips_fold (fips_block st ?b) (drop (unat i + 64) (take (unat len) data)), i'))"
      and i': "unat i' = unat len - (unat len - (unat i + 64)) mod 64"
      using less.hyps [OF shorter, of "fips_block st ?b"] room less.prems by (auto simp: i64)
    have "drop (unat i) (take (unat len) data) = ?b @ drop (unat i + 64) (take (unat len) data)"
    proof -
      have "take 64 (drop (unat i) (take (unat len) data)) = ?b"
        using room by (simp add: drop_take min_def)
      then show ?thesis
        using append_take_drop_id [of 64 "drop (unat i) (take (unat len) data)"]
        by (simp add: add.commute)
    qed
    then have "fips_fold st (drop (unat i) (take (unat len) data))
        = fips_fold (fips_block st ?b) (drop (unat i + 64) (take (unat len) data))"
      by (simp only: fips_fold_block [OF b])
    moreover have "(unat len - (unat i + 64)) mod 64 = (unat len - unat i) mod 64"
      using room by (metis add.commute diff_diff_left le_diff_conv2 add_leD1 le_mod_geq)
    ultimately show ?thesis
      using True IH i' less.prems b
      by (simp add: SHA1Update_blocks.simps [of st data i len] read SHA1Transform_fips_block)
  next
    case False
    then have "unat len - unat i < 64"
      using i63 by (simp add: word_less_nat_alt)
    with False less.prems show ?thesis
      by (simp add: SHA1Update_blocks.simps [of st data i len] fips_fold_short)
  qed
qed

lemma SHA1Update_rest_run:
  assumes "unat i \<le> unat len" "unat len \<le> length data"
    and "unat j + (unat len - unat i) \<le> length (ctx_buffer ctx)"
  shows "SHA1Update_rest ctx data j i len = Some (Inr (ctx\<lparr>ctx_buffer :=
           take (unat j) (ctx_buffer ctx) @ drop (unat i) (take (unat len) data)
           @ drop (unat j + (unat len - unat i)) (ctx_buffer ctx)\<rparr>))"
proof -
  have "i \<le> len" using assms(1) by (simp add: word_le_nat_alt)
  then have d: "unat (len - i) = unat len - unat i" by (rule unat_sub)
  show ?thesis
    using assms unfolding SHA1Update_rest_def d
    by (simp add: mem_read_def mem_write_def drop_take)
qed

lemma SHA1Update_holds:
  assumes ctx: "ctx_holds ctx m" and data: "unat len \<le> length data"
    and small: "unat len + 63 < 2 ^ 32"
  shows "\<exists>ctx'. SHA1Update ctx data len = Some (Inr ctx')
               \<and> ctx_holds ctx' (m @ take (unat len) data)"
proof -
  define r where "r = length m mod 64"
  define d where "d = take (unat len) data"
  define j where "j = (drop_bit 3 (count0 ctx) AND 63 :: u32)"
  define c0 where "c0 = count0 ctx + push_bit 3 len"
  define c1 where "c1 = (if c0 < count0 ctx then count1 ctx + 1 else count1 ctx) + drop_bit 29 len"
  have len_d: "length d = unat len" using data by (simp add: d_def)
  have j: "unat j = r"
    using ctx buffered_position by (simp add: j_def r_def ctx_holds_def del: of_nat_mult)
  have r64: "r < 64" by (simp add: r_def)
  have k: "count0 ctx = word_of_nat (8 * length m)" "count1 ctx = word_of_nat (8 * length m div 2 ^ 32)"
    using ctx unfolding ctx_holds_def by blast+
  have counts: "c0 = word_of_nat (8 * length (m @ d))" "c1 = word_of_nat (8 * length (m @ d) div 2 ^ 32)"
    unfolding c1_def c0_def k(2) length_append len_d
    by (unfold k(1), rule count0_update, rule count1_update) (rule refl)
  have jl: "unat (j + len) = r + unat len"
    using small r64 by (simp add: unat_word_ariths j)
  have buf: "length (ctx_buffer ctx) = 64" "take r (ctx_buffer ctx) = pending m"
    using ctx by (simp_all add: ctx_holds_def r_def)
  have st5: "length (ctx_state ctx) = 5"
    using ctx by (simp add: ctx_holds_def length_fips_fold)
  let ?ctx1 = "ctx\<lparr>count0 := c0, count1 := c1\<rparr>"
  show ?thesis
  proof (cases "63 < j + len")
    case False
    then have fits: "r + unat len < 64" using jl by (simp add: word_less_nat_alt)
    let ?buf = "pending m @ d @ drop (r + unat len) (ctx_buffer ctx)"
    have "SHA1Update ctx data len = Some (Inr (?ctx1\<lparr>ctx_buffer := ?buf\<rparr>))"
      using False fits data buf SHA1Update_rest_run [of 0 len data j ?ctx1]
      by (simp add: SHA1Update_def Let_def c0_def c1_def j_def [symmetric] j d_def)
    moreover have "(length m + unat len) mod 64 = r + unat len"
      using fits by (simp add: r_def mod_add_left_eq [symmetric, of "length m"])
    then have "ctx_holds (?ctx1\<lparr>ctx_buffer := ?buf\<rparr>) (m @ d)"
      using ctx fits counts buf len_d fips_fold_append [of sha1_H0 m d] pending_append [of m d]
      by (simp add: ctx_holds_def fips_fold_short pending_short r_def del: of_nat_mult)
    ultimately show ?thesis by (auto simp: d_def)
  next
    case True
    then have full: "64 \<le> r + unat len" using jl by (simp add: word_less_nat_alt)
    then have le: "64 - r \<le> unat len" by simp
    define i where "i = 64 - j"
    have i: "unat i = 64 - r"
      using r64 j by (simp add: i_def unat_sub word_le_nat_alt)
    define b where "b = pending m @ take (64 - r) d"
    have blk: "length b = 64" using full r64 len_d by (simp add: b_def r_def)
    have fill: "mem_read data 0 (unat i) = Inr (take (64 - r) d)"
      using full data by (simp add: mem_read_def i d_def min_absorb1)
    have store: "mem_write (ctx_buffer ctx) (unat j) (take (64 - r) d) = Inr b"
      using buf blk by (simp add: mem_write_def j r_def b_def)
    obtain i' where loop: "SHA1Update_blocks (fips_block (ctx_state ctx) b) data i len
        = Some (Inr (fips_fold (fips_block (ctx_state ctx) b) (drop (64 - r) d), i'))"
      and i': "unat i' = unat len - (unat len - (64 - r)) mod 64"
      using SHA1Update_blocks_fold [of i len data "fips_block (ctx_state ctx) b"]
        le data small by (auto simp: i d_def)
    define n where "n = (unat len - (64 - r)) mod 64"
    have n: "n \<le> unat len" "n < 64" and i'n: "unat i' = unat len - n"
      using i' by (simp_all add: n_def le_trans [OF mod_less_eq_dividend])
    let ?st = "fips_fold (fips_block (ctx_state ctx) b) (drop (64 - r) d)"
    let ?buf = "drop (unat len - n) d @ drop n b"
    let ?res = "?ctx1\<lparr>ctx_state := ?st, ctx_buffer := ?buf\<rparr>"
    have "SHA1Update ctx data len = Some (Inr ?res)"
      using True fill store loop n data blk st5
        SHA1Update_rest_run [of i' len data 0 "?ctx1\<lparr>ctx_state := ?st, ctx_buffer := b\<rparr>"]
      by (simp add: SHA1Update_def Let_def c0_def c1_def j_def [symmetric] i_def [symmetric]
          SHA1Transform_fips_block i'n d_def)
    moreover have "ctx_holds ?res (m @ d)"
    proof -
      have split: "pending m @ d = b @ drop (64 - r) d" by (simp add: b_def)
      have st: "ctx_state ctx = fips_fold sha1_H0 m" using ctx by (simp add: ctx_holds_def)
      have "fips_fold sha1_H0 (m @ d) = ?st"
        unfolding fips_fold_append [of sha1_H0 m d] split fips_fold_block [OF blk] st ..
      moreover have pend: "pending (m @ d) = pending (drop (64 - r) d)"
        unfolding pending_append [of m d] split by (rule pending_block [OF blk])
      moreover have "pending (drop (64 - r) d) = drop (unat len - n) d"
        using n full len_d by (simp add: pending_def n_def)
      moreover have "length (m @ d) mod 64 = n"
        using arg_cong [OF pend, of length] len_d by (simp add: n_def)
      ultimately show ?thesis
        using counts blk n len_d by (simp add: ctx_holds_def del: of_nat_mult)
    qed
    ultimately show ?thesis by (auto simp: d_def)
  qed
qed

lemma pad_condition: "(word_of_nat (8 * n) :: u32) AND 504 = 448 \<longleftrightarrow> n mod 64 = 56"
proof -
  let ?w = "word_of_nat (8 * n) :: u32"
  have masks: "(504 :: u32) = push_bit 3 (mask 6)" "(63 :: u32) = mask 6"
    by (simp_all add: mask_eq_exp_minus_1)
  have "w AND 504 = push_bit 3 (drop_bit 3 w AND 63)" for w :: u32
    unfolding masks by (auto intro!: bit_word_eqI simp: bit_simps)
  then have "unat (?w AND 504) = unat (push_bit 3 (drop_bit 3 ?w AND 63))"
    by (simp del: of_nat_mult)
  also have "\<dots> = 8 * (n mod 64)"
    using buffered_position [of n] by (simp add: push_bit_eq_mult unat_word_ariths del: of_nat_mult)
  finally have "unat (?w AND 504) = 8 * (n mod 64)" .
  then show ?thesis
    by (simp add: word_unat_eq_iff del: of_nat_mult)
qed

lemma SHA1Final_pad_holds:
  assumes "ctx_holds ctx m" "(length m + k) mod 64 = 56" "k < 64"
  shows "\<exists>ctx'. SHA1Final_pad ctx = Some (Inr ctx') \<and> ctx_holds ctx' (m @ replicate k 0)"
  using assms
proof (induction k arbitrary: ctx m)
  case 0
  then have "count0 ctx AND 504 = 448"
    using pad_condition [of "length m"] by (simp add: ctx_holds_def del: of_nat_mult)
  with 0 show ?case by (simp add: SHA1Final_pad.simps [of ctx])
next
  case (Suc k)
  have "length m mod 64 \<noteq> 56"
    using Suc.prems(2,3) mod_shift_neq [of "Suc k" 64 "length m"] by simp
  then have "count0 ctx AND 504 \<noteq> 448"
    using Suc.prems(1) pad_condition [of "length m"] by (simp add: ctx_holds_def del: of_nat_mult)
  moreover obtain ctx1 where upd: "SHA1Update ctx [0] 1 = Some (Inr ctx1)"
    and ctx1: "ctx_holds ctx1 (m @ [0])"
    using SHA1Update_holds [OF Suc.prems(1), of 1 "[0]"] by auto
  moreover have "\<exists>ctx'. SHA1Final_pad ctx1 = Some (Inr ctx')
      \<and> ctx_holds ctx' ((m @ [0]) @ replicate k 0)"
    using Suc.IH [OF ctx1] Suc.prems(2,3) by simp
  ultimately show ?case
    by (simp add: SHA1Final_pad.simps [of ctx])
qed

lemma count_words_of_64:
  fixes W :: "64 word"
  assumes "W = word_of_nat N"
  shows "(word_of_nat N :: u32) = ucast W"
    and "(word_of_nat (N div 2 ^ 32) :: u32) = ucast (drop_bit 32 W)"
proof -
  show "(word_of_nat N :: u32) = ucast W"
    unfolding assms by (rule word_unat_eq_iff [THEN iffD2])
      (simp add: unsigned_ucast_eq unat_of_nat take_bit_eq_mod mod_mod_cancel)
  show "(word_of_nat (N div 2 ^ 32) :: u32) = ucast (drop_bit 32 W)"
  proof (rule word_unat_eq_iff [THEN iffD2])
    have "(N mod 2 ^ 64) div 2 ^ 32 mod 2 ^ 32 = N div 2 ^ 32 mod (2 ^ 32 :: nat)"
      using mod_mult2_eq [of N "2 ^ 32" "2 ^ 32"] by simp
    then show "unat (word_of_nat (N div 2 ^ 32) :: u32) = unat (ucast (drop_bit 32 W) :: u32)"
      unfolding assms unsigned_ucast_eq unat_drop_bit_eq unat_of_nat
      by (simp add: take_bit_eq_mod drop_bit_eq_div)
  qed
qed

lemma low_byte_mask: "w AND 255 = take_bit 8 w" for w :: u32
  by (simp add: take_bit_eq_mask mask_eq_exp_minus_1)

lemma low_byte: "(ucast (w AND 255) :: byte) = ucast w" for w :: u32
  unfolding low_byte_mask by (auto intro!: bit_word_eqI simp: bit_simps)

lemma count_byte:
  fixes W :: "64 word"
  assumes "k \<le> 24"
  shows "(ucast (drop_bit k (ucast W :: u32) AND 255) :: byte) = ucast (drop_bit k W)"
    and "(ucast (drop_bit k (ucast (drop_bit 32 W) :: u32) AND 255) :: byte) = ucast (drop_bit (32 + k) W)"
  unfolding low_byte using assms by (auto intro!: bit_word_eqI simp: bit_simps ac_simps)

lemma le_bytes_4:
  "le_bytes 4 w = [ucast w, ucast (drop_bit 8 w), ucast (drop_bit 16 w), ucast (drop_bit 24 w)]"
  by (simp add: eval_nat_numeral)

lemma le_bytes_8:
  "le_bytes 8 w = [ucast w, ucast (drop_bit 8 w), ucast (drop_bit 16 w), ucast (drop_bit 24 w),
     ucast (drop_bit 32 w), ucast (drop_bit 40 w), ucast (drop_bit 48 w), ucast (drop_bit 56 w)]"
  by (simp add: eval_nat_numeral)

lemma upt_8: "[0..<8] = [0,1,2,3,4,5,6,7]"
  by code_simp

lemma finalcount_big_endian:
  assumes "count0 ctx = word_of_nat N" "count1 ctx = word_of_nat (N div 2 ^ 32)"
  shows "finalcount ctx = rev (le_bytes 8 (word_of_nat N :: 64 word))"
proof -
  define W :: "64 word" where "W = word_of_nat N"
  have "count0 ctx = ucast W" "count1 ctx = ucast (drop_bit 32 W)"
    using count_words_of_64 [OF W_def] assms by simp_all
  then have "finalcount ctx = map (\<lambda>k. ucast (drop_bit k W)) [56, 48, 40, 32, 24, 16, 8, 0]"
    using count_byte [of 0 W] count_byte [of 8 W] count_byte [of 16 W] count_byte [of 24 W]
    by (simp add: finalcount_def upt_8)
  also have "\<dots> = rev (le_bytes 8 W)"
    by (simp add: le_bytes_8)
  finally show ?thesis by (simp only: W_def)
qed

lemma upt_20: "[0..<20] = [0,1,2,3,4,5,6,7,8,9,10,11,12,13,14,15,16,17,18,19]"
  by code_simp

lemma digest_bytes_big_endian:
  assumes "length st = 5"
  shows "digest_bytes st = concat (map (\<lambda>w. rev (le_bytes 4 w)) st)"
proof -
  obtain a b c d e where "st = [a, b, c, d, e]"
    using assms by (auto simp: length_Suc_conv eval_nat_numeral)
  then show ?thesis
    by (simp add: digest_bytes_def upt_20 low_byte le_bytes_4)
qed

lemma SHA1Final_fips:
  assumes ctx: "ctx_holds ctx m"
  shows "SHA1Final ctx = Some (Inr (fips_sha1 m))"
proof -
  define k where "k = (119 - length m mod 64) mod 64"
  obtain ctx1 where u1: "SHA1Update ctx [0x80] 1 = Some (Inr ctx1)"
    and h1: "ctx_holds ctx1 (m @ [0x80])"
    using SHA1Update_holds [OF ctx, of 1 "[0x80]"] by auto
  have "(length (m @ [0x80]) + k) mod 64 = 56"
  proof -
    have "(length m + 1 + k) mod 64 = (length m + (1 + (119 - length m mod 64))) mod 64"
      unfolding k_def add.assoc by (simp only: mod_add_right_eq add.assoc [symmetric])
    also have "\<dots> = (length m mod 64 + (1 + (119 - length m mod 64))) mod 64"
      by (rule mod_add_left_eq [symmetric])
    also have "length m mod 64 + (1 + (119 - length m mod 64)) = 120"
      using mod_less_divisor [of 64 "length m"] by linarith
    finally show ?thesis by simp
  qed
  then obtain ctx2 where u2: "SHA1Final_pad ctx1 = Some (Inr ctx2)"
    and h2: "ctx_holds ctx2 ((m @ [0x80]) @ replicate k 0)"
    using SHA1Final_pad_holds [OF h1, of k] k_def by auto
  have fc: "finalcount ctx = rev (le_bytes 8 (word_of_nat (8 * length m) :: 64 word))"
    using ctx by (intro finalcount_big_endian) (simp_all add: ctx_holds_def)
  obtain ctx3 where u3: "SHA1Update ctx2 (finalcount ctx) 8 = Some (Inr ctx3)"
    and h3: "ctx_holds ctx3 (((m @ [0x80]) @ replicate k 0) @ finalcount ctx)"
    using SHA1Update_holds [OF h2, of 8 "finalcount ctx"] by (auto simp: fc)
  have "ctx_state ctx3 = fips_fold sha1_H0 (sha1_pad m)"
    using h3 by (simp add: ctx_holds_def sha1_pad_def k_def fc)
  then show ?thesis
    using u1 u2 u3 by (simp add: SHA1Final_def Let_def fips_sha1_def digest_bytes_big_endian length_fips_fold)
qed

lemma SHA1_feed_holds:
  assumes "ctx_holds ctx m" "ii + k \<le> length str"
  shows "\<exists>ctx'. SHA1_feed ctx str ii k = Some (Inr ctx') \<and> ctx_holds ctx' (m @ take k (drop ii str))"
  using assms
proof (induction k arbitrary: ctx m ii)
  case 0
  then show ?case by simp
next
  case (Suc k)
  have room: "Suc 0 \<le> length str - ii" using Suc.prems(2) by simp
  obtain ctx1 where u: "SHA1Update ctx (drop ii str) 1 = Some (Inr ctx1)"
    and h: "ctx_holds ctx1 (m @ take 1 (drop ii str))"
    using SHA1Update_holds [OF Suc.prems(1), of 1 "drop ii str"] room by auto
  have "take 1 (drop ii str) @ take k (drop (Suc ii) str) = take (Suc k) (drop ii str)"
    using Suc.prems(2) by (cases "drop ii str") (auto simp: drop_Suc tl_drop [symmetric])
  then show ?case
    using Suc.IH [OF h, of "Suc ii"] Suc.prems(2) u by auto
qed

lemma SHA1_on_fips_sha1:
  assumes "length (ctx_buffer stack) = 64" and "unat len \<le> length str"
  shows "SHA1_on stack str len = Some (Inr (fips_sha1 (take (unat len) str)))"
proof -
  obtain ctx where "SHA1_feed (SHA1Init stack) str 0 (unat len) = Some (Inr ctx)"
    and "ctx_holds ctx (take (unat len) str)"
    using SHA1_feed_holds [OF ctx_holds_init [OF assms(1)], of 0 "unat len" str] assms(2) by auto
  then show ?thesis
    by (simp add: SHA1_on_def SHA1Final_fips)
qed

lemma length_fips_sha1 [simp]: "length (fips_sha1 m) = 20"
proof -
  obtain a b c d e where "fips_fold sha1_H0 (sha1_pad m) = [a, b, c, d, e]"
    using length_fips_fold [of sha1_H0 "sha1_pad m"] by (auto simp: length_Suc_conv eval_nat_numeral)
  then show ?thesis by (simp add: fips_sha1_def)
qed

lemma SHA1_fips_sha1:
  "unat len \<le> length str \<Longrightarrow> SHA1 str len = Some (Inr (fips_sha1 (take (unat len) str)))"
  by (simp add: SHA1_def SHA1_on_fips_sha1)

subsection \<open>Properties\<close>

text \<open>C4. The one-call digest is SHA-1: for every buffer that holds \<open>len\<close> bytes,
  \<open>SHA1\<close> returns (its loops end and it reads nothing outside the buffer) and
  the result is the standard's digest of the first \<open>len\<close> bytes.\<close>

theorem sha1_is_fips:
  "unat len \<le> length str \<Longrightarrow> SHA1 str len = Some (Inr (fips_sha1 (take (unat len) str)))"
  by (rule SHA1_fips_sha1)

theorem sha1_is_fips_witness:
  "unat (2 :: u32) \<le> length [0x61, 0x62, 0x63 :: byte] \<and>
   SHA1 [0x61, 0x62, 0x63] 2 = Some (Inr (fips_sha1 [0x61, 0x62]))"
  using sha1_is_fips [of 2 "[0x61, 0x62, 0x63]"] by simp

text \<open>The unrolled block function with its 16-word in-place schedule computes the
  standard's compression of a 64-byte block.\<close>

lemma sha1_transform_is_fips:
  "length st = 5 \<Longrightarrow> length M = 64 \<Longrightarrow> SHA1Transform st M = fips_block st M"
  by (rule SHA1Transform_fips_block)

lemma sha1_transform_is_fips_witness:
  "length sha1_H0 = 5 \<and> length (replicate 64 (7 :: byte)) = 64 \<and>
   SHA1Transform sha1_H0 (replicate 64 7) = fips_block sha1_H0 (replicate 64 7)"
  using sha1_transform_is_fips [of sha1_H0 "replicate 64 7"] by simp

text \<open>\<open>SHA1Update\<close> refines appending: on a context that represents the bytes
  \<open>m\<close>, feeding any chunk (up to \<open>2^32 - 64\<close> bytes, across any number of block
  boundaries) returns a context that represents \<open>m\<close> followed by the chunk,
  block state, pending bytes and 64-bit bit count alike.\<close>

lemma sha1_update_appends:
  assumes "ctx_holds ctx m" and "unat len \<le> length data" and "unat len + 63 < 2 ^ 32"
  shows "\<exists>ctx'. SHA1Update ctx data len = Some (Inr ctx')
               \<and> ctx_holds ctx' (m @ take (unat len) data)"
  using assms by (rule SHA1Update_holds)

definition zero_ctx :: SHA1_CTX where
  "zero_ctx = \<lparr>ctx_state = replicate 5 0, count0 = 0, count1 = 0, ctx_buffer = replicate 64 0\<rparr>"

lemma zero_ctx_init: "ctx_holds (SHA1Init zero_ctx) []"
  by (rule ctx_holds_init) (simp add: zero_ctx_def)

lemma sha1_update_appends_witness:
  "ctx_holds (SHA1Init zero_ctx) [] \<and>
   (\<exists>ctx'. SHA1Update (SHA1Init zero_ctx) (replicate 100 1) 100 = Some (Inr ctx')
         \<and> ctx_holds ctx' (replicate 100 1))"
  using sha1_update_appends [OF zero_ctx_init, of 100 "replicate 100 1"] zero_ctx_init by simp

text \<open>The padding loop of \<open>SHA1Final\<close>, whose guard reads the wrapping 32-bit bit
  counter, ends from every context, after fewer than 64 zero bytes, with exactly
  eight bytes left in the block.\<close>

lemma sha1_pad_loop_ends:
  assumes "ctx_holds ctx m"
  shows "\<exists>ctx' k. k < 64 \<and> SHA1Final_pad ctx = Some (Inr ctx')
               \<and> ctx_holds ctx' (m @ replicate k 0) \<and> (length m + k) mod 64 = 56"
proof -
  define k where "k = (120 - length m mod 64) mod 64"
  have "(length m + k) mod 64 = (length m mod 64 + (120 - length m mod 64)) mod 64"
    unfolding k_def by (simp only: mod_add_right_eq mod_add_left_eq)
  also have "length m mod 64 + (120 - length m mod 64) = 120"
    using mod_less_divisor [of 64 "length m"] by linarith
  finally have "(length m + k) mod 64 = 56" by simp
  moreover have "k < 64" by (simp add: k_def)
  ultimately show ?thesis using SHA1Final_pad_holds [OF assms] by blast
qed

lemma sha1_pad_loop_ends_witness:
  "\<exists>ctx' k. k < 64 \<and> SHA1Final_pad (SHA1Init zero_ctx) = Some (Inr ctx')
          \<and> ctx_holds ctx' (replicate k 0) \<and> k mod 64 = 56"
  using sha1_pad_loop_ends [OF zero_ctx_init] by simp

text \<open>The digest does not depend on what the uninitialised stack context of
  \<open>SHA1\<close> held before.\<close>

lemma sha1_stack_independent:
  assumes "length (ctx_buffer stack) = 64" and "length (ctx_buffer stack') = 64"
    and "unat len \<le> length str"
  shows "SHA1_on stack str len = SHA1_on stack' str len"
  using assms by (simp add: SHA1_on_fips_sha1)

lemma sha1_stack_independent_witness:
  "SHA1_on zero_ctx [1, 2] 2 = SHA1_on (zero_ctx\<lparr>ctx_buffer := replicate 64 9\<rparr>) [1, 2] 2"
  using sha1_stack_independent [of zero_ctx "zero_ctx\<lparr>ctx_buffer := replicate 64 9\<rparr>" 2 "[1, 2]"]
  by (simp add: zero_ctx_def)

end
