(* ===== verification/Sha1_Vector.thy ===== *)
theory Sha1_Vector
  imports Sha1_Stream
begin

text \<open>
  The first test vector in the comment at the head of \<open>sha1.c\<close>, evaluated on the
  model of the code itself, twenty rounds at a time.
\<close>

definition abc_block :: "byte list" where
  "abc_block = [0x61, 0x62, 0x63, 0x80] @ replicate 59 0 @ [24]"

lemma abc_block_words:
  "block_words abc_block = [0x80636261, 0, 0, 0, 0, 0, 0, 0, 0, 0, 0, 0, 0, 0, 0, 0x18000000]"
  by code_simp

lemma abc_rounds_20:
  "fold (\<lambda>r. r) (take 20 (drop 0 transform_rounds))
     ([0x67452301, 0xEFCDAB89, 0x98BADCFE, 0x10325476, 0xC3D2E1F0],
      [0x80636261, 0, 0, 0, 0, 0, 0, 
       0, 0, 0, 0, 0, 0, 0, 
       0, 0x18000000])
   = ([0xFD9E1D7D, 0xDC64901D, 0x20AA99CA, 0xD3A49608, 0xC82F758B],
      [0xC2C4C700, 0, 0x00000030, 0x85898E01, 0, 0, 0, 
       0, 0, 0, 0, 0, 0, 0, 
       0, 0x00000018])"
  by (simp add: transform_rounds_def R0_def R1_def R2_def R3_def R4_def blk0_def blk_def rol_def Let_def)

lemma abc_rounds_40:
  "fold (\<lambda>r. r) (take 20 (drop 20 transform_rounds))
     ([0xFD9E1D7D, 0xDC64901D, 0x20AA99CA, 0xD3A49608, 0xC82F758B],
      [0xC2C4C700, 0, 0x00000030, 0x85898E01, 0, 0, 0, 
       0, 0, 0, 0, 0, 0, 0, 
       0, 0x00000018])
   = ([0x32DE1CBA, 0x4C986405, 0xF718E5CF, 0x03D447F6, 0xF72EEC32],
      [0x8E9A9202, 0x00000600, 0xB131C0F0, 0x16263BC6, 0x4EBED41E, 0x626380A1, 0x16263806, 
       0x000018C0, 0x85898EC1, 0x16263806, 0, 0x00000180, 0x2C4C700C, 0x000000F0, 
       0x93AFB507, 0x5898E048])"
  by (simp add: transform_rounds_def R0_def R1_def R2_def R3_def R4_def blk0_def blk_def rol_def Let_def)

lemma abc_rounds_60:
  "fold (\<lambda>r. r) (take 20 (drop 40 transform_rounds))
     ([0x32DE1CBA, 0x4C986405, 0xF718E5CF, 0x03D447F6, 0xF72EEC32],
      [0x8E9A9202, 0x00000600, 0xB131C0F0, 0x16263BC6, 0x4EBED41E, 0x626380A1, 0x16263806, 
       0x000018C0, 0x85898EC1, 0x16263806, 0, 0x00000180, 0x2C4C700C, 0x000000F0, 
       0x93AFB507, 0x5898E048])
   = ([0x3F52DE5A, 0x09D785FD, 0x3498BFD4, 0xF211824F, 0xD79915AB],
      [0xDA9415ED, 0x26380A16, 0x626383A1, 0x4EBF54DE, 0x3835B44B, 0x0000F600, 0x1E84C7A3, 
       0x98E04D98, 0x651D16A0, 0x62658CA1, 0x458544D6, 0x44584CB7, 0xE2BA3C2B, 0x000060C0, 
       0x053A37CD, 0x74458547])"
  by (simp add: transform_rounds_def R0_def R1_def R2_def R3_def R4_def blk0_def blk_def rol_def Let_def)

lemma abc_rounds_80:
  "fold (\<lambda>r. r) (take 20 (drop 60 transform_rounds))
     ([0x3F52DE5A, 0x09D785FD, 0x3498BFD4, 0xF211824F, 0xD79915AB],
      [0xDA9415ED, 0x26380A16, 0x626383A1, 0x4EBF54DE, 0x3835B44B, 0x0000F600, 0x1E84C7A3, 
       0x98E04D98, 0x651D16A0, 0x62658CA1, 0x458544D6, 0x44584CB7, 0xE2BA3C2B, 0x000060C0, 
       0x053A37CD, 0x74458547])
   = ([0x42541B35, 0x5738D5E1, 0x21834873, 0x681E6DF6, 0xD8FDF6AD],
      [0x7CD45C9D, 0x000F0000, 0xFB50753A, 0xEC6765E8, 0xBA3C2BE2, 0x0060C000, 0x3A37CD05, 
       0x458546F4, 0xB8599DD6, 0x380A1A26, 0x01E02203, 0xE7CC3456, 0xE6E60B69, 0x00F60A00, 
       0x5795EF4F, 0x822E0879])"
  by (simp add: transform_rounds_def R0_def R1_def R2_def R3_def R4_def blk0_def blk_def rol_def Let_def)

lemma fold_rounds_split:
  "fold (\<lambda>r. r) transform_rounds w =
     fold (\<lambda>r. r) (take 20 (drop 60 transform_rounds))
       (fold (\<lambda>r. r) (take 20 (drop 40 transform_rounds))
         (fold (\<lambda>r. r) (take 20 (drop 20 transform_rounds))
           (fold (\<lambda>r. r) (take 20 (drop 0 transform_rounds)) w)))"
  by (simp add: transform_rounds_def)

lemma SHA1Transform_abc:
  "SHA1Transform sha1_H0 abc_block = [0xA9993E36, 0x4706816A, 0xBA3E2571, 0x7850C26C, 0x9CD0D89D]"
  unfolding SHA1Transform_def abc_block_words sha1_H0_def fold_rounds_split
    abc_rounds_20 abc_rounds_40 abc_rounds_60 abc_rounds_80
  by simp

lemma sha1_pad_abc: "sha1_pad [0x61, 0x62, 0x63] = abc_block"
  by code_simp

lemma length_abc_block [simp]: "length abc_block = 64"
  by (simp add: abc_block_def)

text \<open>The test vector of the source's header comment: the SHA-1 of \<open>abc\<close> is
  \<open>A9993E36 4706816A BA3E2571 7850C26C 9CD0D89D\<close>.\<close>

lemma sha1_vector_abc:
  "SHA1 [0x61, 0x62, 0x63] 3 = Some (Inr
     [0xA9, 0x99, 0x3E, 0x36, 0x47, 0x06, 0x81, 0x6A, 0xBA, 0x3E, 0x25, 0x71,
      0x78, 0x50, 0xC2, 0x6C, 0x9C, 0xD0, 0xD8, 0x9D])"
proof -
  have "fips_fold sha1_H0 abc_block = fips_block sha1_H0 abc_block"
    using fips_fold_block [of abc_block sha1_H0 "[]"] by (simp add: fips_fold_short)
  then have "fips_fold sha1_H0 (sha1_pad [0x61, 0x62, 0x63])
      = [0xA9993E36, 0x4706816A, 0xBA3E2571, 0x7850C26C, 0x9CD0D89D]"
    using SHA1Transform_fips_block [of sha1_H0 abc_block] SHA1Transform_abc
    by (simp add: sha1_pad_abc)
  then show ?thesis
    using SHA1_fips_sha1 [of 3 "[0x61, 0x62, 0x63]"]
    by (simp add: fips_sha1_def le_bytes_4)
qed

end
