(* ===== verification/Store.thy ===== *)
theory Store
  imports Sha1_Stream
begin

text \<open>
  \<open>src/src/database/store.c\<close> with \<open>store.h\<close>: the in-memory key-value store, a
  table of buckets, each a chain of entries under its own mutex. A key is known
  by its SHA-1 digest, which also selects the bucket.

  A chain of entries is the list of them from the bucket's pointer on (the null
  pointer is the empty list). A mutex is a flag; locking one that is held blocks
  for ever (\<open>None\<close>) in this sequential model. \<open>char\<close> is signed on the target, so
  \<open>hash[i]\<close> is sign-extended where \<open>sha1_mod_bucket\<close> adds it to a \<open>size_t\<close>. The
  allocations, which the code does not check, are taken to succeed.
\<close>

subsection \<open>The structures\<close>

record kv_entry_t =
  entry_key :: "byte list"
  data_length :: nat
  entry_data :: "byte list"

record kv_store_t =
  buckets :: "kv_entry_t list list"
  bucket_locks :: "bool list"
  bucket_count :: size_t

subsection \<open>Choosing the bucket\<close>

fun sha1_mod_loop :: "byte list \<Rightarrow> size_t \<Rightarrow> size_t \<Rightarrow> nat \<Rightarrow> nat \<Rightarrow> size_t faulty" where
  "sha1_mod_loop hash n result i 0 = Inr result"
| "sha1_mod_loop hash n result i (Suc k) =
     fault_bind (mem_read hash i 1) (\<lambda>bs.
     if n = 0 then Inl Div_By_Zero
     else sha1_mod_loop hash n ((result * 256 + scast (hd bs)) mod n) (Suc i) k)"

definition sha1_mod_bucket :: "byte list \<Rightarrow> size_t \<Rightarrow> size_t faulty" where
  "sha1_mod_bucket hash n = sha1_mod_loop hash n 0 0 20"

subsection \<open>Operations\<close>

definition kv_store_new :: "size_t \<Rightarrow> kv_store_t" where
  "kv_store_new n =
     \<lparr>buckets = replicate (unat n) [], bucket_locks = replicate (unat n) False, bucket_count = n\<rparr>"

definition kv_entry_new :: "byte list \<Rightarrow> byte list \<Rightarrow> nat \<Rightarrow> kv_entry_t faulty" where
  "kv_entry_new key dat len =
     fault_bind (mem_read dat 0 len) (\<lambda>d.
     fault_bind (mem_read key 0 20) (\<lambda>k.
     Inr \<lparr>entry_key = k, data_length = len, entry_data = d\<rparr>))"

definition memcmp20 :: "byte list \<Rightarrow> byte list \<Rightarrow> bool" where
  "memcmp20 a b \<longleftrightarrow> take 20 a = take 20 b"

text \<open>The loop of \<open>kv_store_put\<close> over a chain that is not null: stop at an entry
  with the same digest, append behind the last entry.\<close>

fun kv_put_walk :: "byte list \<Rightarrow> byte list \<Rightarrow> nat \<Rightarrow> kv_entry_t \<Rightarrow> kv_entry_t list \<Rightarrow> kv_entry_t list faulty" where
  "kv_put_walk result dat len e es =
     (if memcmp20 result (entry_key e) then Inr (e # es)
      else (case es of
              [] \<Rightarrow> fault_bind (kv_entry_new result dat len) (\<lambda>entry. Inr [e, entry])
            | e' # es' \<Rightarrow> fault_bind (kv_put_walk result dat len e' es') (\<lambda>rest. Inr (e # rest))))"

definition kv_bucket_put :: "byte list \<Rightarrow> byte list \<Rightarrow> nat \<Rightarrow> kv_entry_t list \<Rightarrow> kv_entry_t list faulty" where
  "kv_bucket_put result dat len chain =
     (case chain of
        [] \<Rightarrow> fault_bind (kv_entry_new result dat len) (\<lambda>entry. Inr [entry])
      | e # es \<Rightarrow> kv_put_walk result dat len e es)"

fun kv_get_walk :: "byte list \<Rightarrow> kv_entry_t \<Rightarrow> kv_entry_t list \<Rightarrow> (byte list \<times> nat) option faulty" where
  "kv_get_walk result e es =
     (if memcmp20 (entry_key e) result
      then fault_bind (mem_read (entry_data e) 0 (data_length e)) (\<lambda>d. Inr (Some (d, data_length e)))
      else (case es of [] \<Rightarrow> Inr None | e' # es' \<Rightarrow> kv_get_walk result e' es'))"

declare kv_put_walk.simps [simp del] kv_get_walk.simps [simp del]

definition bucket_lock :: "kv_store_t \<Rightarrow> nat \<Rightarrow> kv_store_t run" where
  "bucket_lock s i =
     (if i < length (bucket_locks s)
      then if bucket_locks s ! i then None
           else Some (Inr (s\<lparr>bucket_locks := (bucket_locks s)[i := True]\<rparr>))
      else Some (Inl Out_Of_Bounds))"

definition bucket_unlock :: "kv_store_t \<Rightarrow> nat \<Rightarrow> kv_store_t" where
  "bucket_unlock s i = s\<lparr>bucket_locks := (bucket_locks s)[i := False]\<rparr>"

definition bucket_read :: "kv_store_t \<Rightarrow> nat \<Rightarrow> kv_entry_t list run" where
  "bucket_read s i = (if i < length (buckets s) then Some (Inr (buckets s ! i)) else Some (Inl Out_Of_Bounds))"

text \<open>\<open>SHA1\<close> takes a 32-bit length: \<open>key_size\<close> is cut to its low 32 bits.\<close>

definition kv_store_put ::
    "kv_store_t \<Rightarrow> byte list \<Rightarrow> size_t \<Rightarrow> byte list \<Rightarrow> nat \<Rightarrow> kv_store_t run" where
  "kv_store_put store key key_size dat len =
     run_bind (SHA1 key (ucast key_size)) (\<lambda>result.
     run_bind (Some (sha1_mod_bucket result (bucket_count store))) (\<lambda>bi.
     run_bind (bucket_lock store (unat bi)) (\<lambda>s1.
     run_bind (bucket_read s1 (unat bi)) (\<lambda>chain.
     run_bind (Some (kv_bucket_put result dat len chain)) (\<lambda>chain'.
     Some (Inr (bucket_unlock (s1\<lparr>buckets := (buckets s1)[unat bi := chain']\<rparr>) (unat bi))))))))"

text \<open>The result of \<open>kv_store_get\<close> is the value stored through \<open>output\<close> (\<open>None\<close> the
  null pointer), the returned size, and the store.\<close>

definition kv_store_get ::
    "kv_store_t \<Rightarrow> byte list \<Rightarrow> size_t \<Rightarrow> (byte list option \<times> nat \<times> kv_store_t) run" where
  "kv_store_get store key key_size =
     run_bind (SHA1 key (ucast key_size)) (\<lambda>result.
     run_bind (Some (sha1_mod_bucket result (bucket_count store))) (\<lambda>bi.
     run_bind (bucket_lock store (unat bi)) (\<lambda>s1.
     run_bind (bucket_read s1 (unat bi)) (\<lambda>chain.
     case chain of
       [] \<Rightarrow> Some (Inr (None, 0, bucket_unlock s1 (unat bi)))
     | e # es \<Rightarrow>
         run_bind (Some (kv_get_walk result e es)) (\<lambda>r.
         case r of None \<Rightarrow> Some (Inr (None, 0, bucket_unlock s1 (unat bi)))
         | Some (d, n) \<Rightarrow> Some (Inr (Some d, n, bucket_unlock s1 (unat bi))))))))"

text \<open>\<open>kv_store_destroy\<close>: the entries it frees, in order. The mutexes are
  destroyed and the arrays freed without reading them.\<close>

fun kv_destroy_loop :: "kv_store_t \<Rightarrow> nat \<Rightarrow> nat \<Rightarrow> kv_entry_t list faulty" where
  "kv_destroy_loop s i 0 = Inr []"
| "kv_destroy_loop s i (Suc k) =
     (if i < length (buckets s) \<and> i < length (bucket_locks s)
      then fault_bind (kv_destroy_loop s (Suc i) k) (\<lambda>freed. Inr (buckets s ! i @ freed))
      else Inl Out_Of_Bounds)"

definition kv_store_destroy :: "kv_store_t \<Rightarrow> kv_entry_t list faulty" where
  "kv_store_destroy s = kv_destroy_loop s 0 (unat (bucket_count s))"

subsection \<open>The bucket index\<close>

lemma sha1_mod_loop_ok:
  "n \<noteq> 0 \<Longrightarrow> i + k \<le> length hash \<Longrightarrow>
   \<exists>b. sha1_mod_loop hash n r i k = Inr b \<and> (0 < k \<longrightarrow> b < n)"
proof (induction k arbitrary: r i)
  case 0
  then show ?case by simp
next
  case (Suc k)
  have "\<exists>b. sha1_mod_loop hash n ((r * 256 + scast (hash ! i)) mod n) (Suc i) k = Inr b
      \<and> (0 < k \<longrightarrow> b < n)"
    using Suc by simp
  moreover have "(r * 256 + scast (hash ! i)) mod n < n"
    using Suc.prems(1) by (simp add: word_mod_less_divisor word_gt_0)
  ultimately show ?case
    using Suc.prems by (cases k) (auto simp: mem_read_def Cons_nth_drop_Suc [symmetric])
qed

lemma sha1_mod_bucket_ok:
  "n \<noteq> 0 \<Longrightarrow> 20 \<le> length hash \<Longrightarrow> \<exists>b. sha1_mod_bucket hash n = Inr b \<and> b < n"
  using sha1_mod_loop_ok [of n 0 20 hash 0] by (simp add: sha1_mod_bucket_def)

subsection \<open>Chains\<close>

definition entry_ok :: "kv_entry_t \<Rightarrow> bool" where
  "entry_ok e \<longleftrightarrow> length (entry_key e) = 20 \<and> length (entry_data e) = data_length e"

definition chain_find :: "byte list \<Rightarrow> kv_entry_t list \<Rightarrow> kv_entry_t option" where
  "chain_find k chain = find (\<lambda>e. entry_key e = k) chain"

lemma memcmp20_eq: "length a = 20 \<Longrightarrow> length b = 20 \<Longrightarrow> memcmp20 a b \<longleftrightarrow> a = b"
  by (simp add: memcmp20_def)

lemma kv_put_walk_eq:
  assumes "length k = 20" "len \<le> length dat" "entry_ok e" "list_all entry_ok es"
  shows "kv_put_walk k dat len e es =
           Inr (if \<exists>x\<in>set (e # es). entry_key x = k then e # es
                else (e # es) @ [\<lparr>entry_key = k, data_length = len, entry_data = take len dat\<rparr>])"
  using assms
proof (induction k dat len e es rule: kv_put_walk.induct)
  case (1 k dat len e es)
  have m: "memcmp20 k (entry_key e) \<longleftrightarrow> entry_key e = k"
    using "1.prems" memcmp20_eq [of k "entry_key e"] by (auto simp: entry_ok_def)
  show ?case
    using "1.prems" "1.IH" m
    by (cases es) (auto simp: kv_entry_new_def mem_read_def
        kv_put_walk.simps [of k dat len e])
qed

lemma kv_bucket_put_eq:
  assumes "length k = 20" "len \<le> length dat" "list_all entry_ok chain"
  shows "kv_bucket_put k dat len chain =
           Inr (case chain_find k chain of Some _ \<Rightarrow> chain
                | None \<Rightarrow> chain @ [\<lparr>entry_key = k, data_length = len, entry_data = take len dat\<rparr>])"
proof (cases chain)
  case Nil
  then show ?thesis
    using assms by (simp add: kv_bucket_put_def kv_entry_new_def mem_read_def chain_find_def)
next
  case (Cons e es)
  have "(\<exists>x\<in>set chain. entry_key x = k) \<longleftrightarrow> chain_find k chain \<noteq> None"
    by (auto simp: chain_find_def find_None_iff)
  then show ?thesis
    using assms Cons kv_put_walk_eq [of k len dat e es]
    by (auto simp: kv_bucket_put_def split: option.split)
qed

lemma kv_get_walk_eq:
  assumes "length k = 20" "entry_ok e" "list_all entry_ok es"
  shows "kv_get_walk k e es =
           Inr (map_option (\<lambda>x. (entry_data x, data_length x)) (chain_find k (e # es)))"
  using assms
proof (induction k e es rule: kv_get_walk.induct)
  case (1 k e es)
  have m: "memcmp20 (entry_key e) k \<longleftrightarrow> entry_key e = k"
    using "1.prems" memcmp20_eq [of "entry_key e" k] by (auto simp: entry_ok_def)
  show ?case
    using "1.prems" "1.IH" m
    by (cases es) (auto simp: chain_find_def mem_read_def entry_ok_def
        kv_get_walk.simps [of k e])
qed

lemma chain_find_append:
  "chain_find k (c @ [x]) =
     (case chain_find k c of Some e \<Rightarrow> Some e | None \<Rightarrow> if entry_key x = k then Some x else None)"
  by (induction c) (auto simp: chain_find_def)

lemma chain_find_SomeD: "chain_find k c = Some e \<Longrightarrow> e \<in> set c \<and> entry_key e = k"
  by (auto simp: chain_find_def find_Some_iff in_set_conv_nth)

subsection \<open>Well-formed stores and the map they represent\<close>

definition kv_index :: "kv_store_t \<Rightarrow> byte list \<Rightarrow> nat" where
  "kv_index s d = (case sha1_mod_bucket d (bucket_count s) of Inl _ \<Rightarrow> 0 | Inr b \<Rightarrow> unat b)"

definition kv_wf :: "kv_store_t \<Rightarrow> bool" where
  "kv_wf s \<longleftrightarrow> bucket_count s \<noteq> 0 \<and> length (buckets s) = unat (bucket_count s) \<and>
     bucket_locks s = replicate (unat (bucket_count s)) False \<and>
     (\<forall>i < length (buckets s). list_all entry_ok (buckets s ! i)
        \<and> distinct (map entry_key (buckets s ! i))
        \<and> (\<forall>e \<in> set (buckets s ! i). kv_index s (entry_key e) = i))"

definition kv_abs :: "kv_store_t \<Rightarrow> byte list \<Rightarrow> byte list option" where
  "kv_abs s d =
     (if length d = 20 then map_option entry_data (chain_find d (buckets s ! kv_index s d)) else None)"

abbreviation digest :: "byte list \<Rightarrow> size_t \<Rightarrow> byte list" where
  "digest key key_size \<equiv> fips_sha1 (take (unat (ucast key_size :: u32)) key)"

lemma kv_index_less:
  assumes "kv_wf s" "length d = 20"
  shows "kv_index s d < length (buckets s)" "sha1_mod_bucket d (bucket_count s) = Inr (word_of_nat (kv_index s d))"
proof -
  from assms obtain b where b: "sha1_mod_bucket d (bucket_count s) = Inr b" "b < bucket_count s"
    using sha1_mod_bucket_ok [of "bucket_count s" d] by (auto simp: kv_wf_def)
  then show "kv_index s d < length (buckets s)" "sha1_mod_bucket d (bucket_count s) = Inr (word_of_nat (kv_index s d))"
    using assms by (simp_all add: kv_index_def kv_wf_def word_less_nat_alt)
qed

lemma kv_index_unat:
  assumes "kv_wf s" "length d = 20"
  shows "unat (word_of_nat (kv_index s d) :: size_t) = kv_index s d"
proof -
  have "kv_index s d < unat (bucket_count s)"
    using kv_index_less [OF assms] assms by (simp add: kv_wf_def)
  then show ?thesis
    by (meson le_unat_uoi less_imp_le)
qed

lemma kv_bucket_index_cong:
  "bucket_count s' = bucket_count s \<Longrightarrow> kv_index s' d = kv_index s d"
  by (simp add: kv_index_def)

text \<open>The store with the entry for digest \<open>d\<close> put in.\<close>

definition kv_insert :: "kv_store_t \<Rightarrow> byte list \<Rightarrow> byte list \<Rightarrow> nat \<Rightarrow> kv_store_t" where
  "kv_insert s d dat len =
     (let i = kv_index s d; c = buckets s ! i in
      s\<lparr>buckets := (buckets s)[i := (case chain_find d c of Some _ \<Rightarrow> c
          | None \<Rightarrow> c @ [\<lparr>entry_key = d, data_length = len, entry_data = take len dat\<rparr>])]\<rparr>)"

lemma kv_store_put_eq:
  assumes wf: "kv_wf s" and key: "unat (ucast key_size :: u32) \<le> length key" and dat: "len \<le> length dat"
  shows "kv_store_put s key key_size dat len = Some (Inr (kv_insert s (digest key key_size) dat len))"
proof -
  define d where "d = digest key key_size"
  have d: "length d = 20" by (simp add: d_def)
  note i = kv_index_less [OF wf d] kv_index_unat [OF wf d]
  have locks: "length (bucket_locks s) = length (buckets s)" "\<not> bucket_locks s ! kv_index s d"
    using wf i(1) by (simp_all add: kv_wf_def)
  have chain: "list_all entry_ok (buckets s ! kv_index s d)"
    using wf i(1) by (simp add: kv_wf_def)
  have unlocked: "(bucket_locks s)[kv_index s d := True, kv_index s d := False] = bucket_locks s"
    using locks i(1) by (simp add: list_update_same_conv)
  show ?thesis
    unfolding kv_store_put_def SHA1_fips_sha1 [OF key] d_def [symmetric] kv_insert_def
    using i locks unlocked kv_bucket_put_eq [OF d dat chain]
    by (simp add: bucket_lock_def bucket_read_def bucket_unlock_def Let_def)
qed

lemma kv_store_get_eq:
  assumes wf: "kv_wf s" and key: "unat (ucast key_size :: u32) \<le> length key"
  shows "kv_store_get s key key_size =
           Some (Inr (kv_abs s (digest key key_size),
                      (case kv_abs s (digest key key_size) of None \<Rightarrow> 0 | Some v \<Rightarrow> length v), s))"
proof -
  define d where "d = digest key key_size"
  have d: "length d = 20" by (simp add: d_def)
  note i = kv_index_less [OF wf d] kv_index_unat [OF wf d]
  let ?c = "buckets s ! kv_index s d"
  have locks: "length (bucket_locks s) = length (buckets s)" "\<not> bucket_locks s ! kv_index s d"
    using wf i(1) by (simp_all add: kv_wf_def)
  have chain: "list_all entry_ok ?c"
    using wf i(1) by (simp add: kv_wf_def)
  have unlocked: "s\<lparr>bucket_locks := (bucket_locks s)[kv_index s d := True, kv_index s d := False]\<rparr> = s"
    using locks i(1) by (simp add: list_update_same_conv)
  have data: "length (entry_data e) = data_length e" if "chain_find d ?c = Some e" for e
    using chain chain_find_SomeD [OF that] by (auto simp: list_all_iff entry_ok_def)
  have start: "kv_store_get s key key_size =
      (case ?c of [] \<Rightarrow> Some (Inr (None, 0, s))
       | e # es \<Rightarrow> run_bind (Some (kv_get_walk d e es)) (\<lambda>r.
           case r of None \<Rightarrow> Some (Inr (None, 0, s)) | Some (v, n) \<Rightarrow> Some (Inr (Some v, n, s))))"
    unfolding kv_store_get_def SHA1_fips_sha1 [OF key] d_def [symmetric]
    using i locks unlocked
    by (simp add: bucket_lock_def bucket_read_def bucket_unlock_def)
  show ?thesis
  proof (cases ?c)
    case Nil
    then show ?thesis
      unfolding start d_def [symmetric] by (simp add: kv_abs_def d chain_find_def)
  next
    case (Cons e es)
    with chain have "kv_get_walk d e es = Inr (map_option (\<lambda>x. (entry_data x, data_length x)) (chain_find d ?c))"
      using kv_get_walk_eq [OF d, of e es] by simp
    then show ?thesis
      unfolding start d_def [symmetric]
      using data Cons by (cases "chain_find d (e # es)") (simp_all add: kv_abs_def d)
  qed
qed

lemma kv_insert_index [simp]: "kv_index (kv_insert s d dat len) = kv_index s"
  by (simp add: kv_index_def kv_insert_def Let_def fun_eq_iff)

lemma kv_insert_wf:
  assumes wf: "kv_wf s" and d: "length d = 20" and len: "len \<le> length dat"
  shows "kv_wf (kv_insert s d dat len)"
proof -
  let ?i = "kv_index s d" and ?e = "\<lparr>entry_key = d, data_length = len, entry_data = take len dat\<rparr>"
  have i: "?i < length (buckets s)" using kv_index_less [OF wf d] by simp
  let ?c = "buckets s ! ?i"
  have c: "list_all entry_ok ?c" "distinct (map entry_key ?c)" "\<forall>e\<in>set ?c. kv_index s (entry_key e) = ?i"
    using wf i by (simp_all add: kv_wf_def)
  have new: "d \<notin> entry_key ` set ?c" if "chain_find d ?c = None"
    using that by (auto simp: chain_find_def find_None_iff)
  have idx: "kv_index (s\<lparr>buckets := bs\<rparr>) = kv_index s" for bs
    by (simp add: kv_index_def fun_eq_iff)
  show ?thesis
  proof (cases "chain_find d ?c")
    case None
    then have "kv_insert s d dat len = s\<lparr>buckets := (buckets s)[?i := ?c @ [?e]]\<rparr>"
      by (simp add: kv_insert_def Let_def)
    moreover have "list_all entry_ok (?c @ [?e])" "distinct (map entry_key (?c @ [?e]))"
      "\<forall>e\<in>set (?c @ [?e]). kv_index s (entry_key e) = ?i"
      using c new [OF None] d len by (auto simp: entry_ok_def)
    ultimately show ?thesis
      using wf i by (auto simp: kv_wf_def nth_list_update idx)
  next
    case (Some e)
    then have "kv_insert s d dat len = s"
      by (simp add: kv_insert_def Let_def)
    with wf show ?thesis by simp
  qed
qed

lemma kv_insert_abs:
  assumes wf: "kv_wf s" and d: "length d = 20" and len: "len \<le> length dat"
  shows "kv_abs (kv_insert s d dat len) =
           (case kv_abs s d of None \<Rightarrow> (kv_abs s)(d \<mapsto> take len dat) | Some _ \<Rightarrow> kv_abs s)"
proof
  fix x
  let ?i = "kv_index s d"
  have i: "?i < length (buckets s)" using kv_index_less [OF wf d] by simp
  show "kv_abs (kv_insert s d dat len) x =
     (case kv_abs s d of None \<Rightarrow> (kv_abs s)(d \<mapsto> take len dat) | Some _ \<Rightarrow> kv_abs s) x"
  proof (cases "length x = 20 \<and> kv_index s x = ?i")
    case True
    then have "kv_abs (kv_insert s d dat len) x = map_option entry_data (chain_find x
        (case chain_find d (buckets s ! ?i) of Some _ \<Rightarrow> buckets s ! ?i
         | None \<Rightarrow> buckets s ! ?i @ [\<lparr>entry_key = d, data_length = len, entry_data = take len dat\<rparr>]))"
      unfolding kv_abs_def kv_insert_index by (simp add: kv_insert_def Let_def i)
    with True d show ?thesis
      by (cases "chain_find d (buckets s ! ?i)"; cases "x = d"; cases "chain_find x (buckets s ! ?i)")
        (simp_all add: kv_abs_def chain_find_append)
  next
    case False
    then have "kv_abs (kv_insert s d dat len) x = kv_abs s x"
      unfolding kv_abs_def kv_insert_index by (auto simp: kv_insert_def Let_def)
    moreover have "x \<noteq> d" using False d by auto
    ultimately show ?thesis by (simp split: option.split)
  qed
qed

lemma kv_store_new_wf: "n \<noteq> 0 \<Longrightarrow> kv_wf (kv_store_new n)"
  by (simp add: kv_wf_def kv_store_new_def)

lemma kv_store_new_abs: "n \<noteq> 0 \<Longrightarrow> kv_abs (kv_store_new n) = Map.empty"
proof
  fix d :: "byte list"
  assume "n \<noteq> 0"
  then show "kv_abs (kv_store_new n) d = None"
    using kv_index_less [OF kv_store_new_wf, of n d]
    by (auto simp: kv_abs_def kv_store_new_def chain_find_def)
qed

subsection \<open>The contract: a map where the first write wins\<close>

text \<open>
  The interface of the store: \<open>abs\<close> is the map from digests it represents, \<open>h\<close>
  the digest of a key. A put of a known digest changes nothing. \<open>put_all\<close> is a
  sequence of puts.
\<close>

fun put_all :: "('s \<Rightarrow> 'k \<Rightarrow> 'v \<Rightarrow> 's run) \<Rightarrow> 's \<Rightarrow> ('k \<times> 'v) list \<Rightarrow> 's run" where
  "put_all put s [] = Some (Inr s)"
| "put_all put s ((k, v) # kvs) = run_bind (put s k v) (\<lambda>s'. put_all put s' kvs)"

lemma map_of_find:
  "map_of (map (\<lambda>(k, v). (h k, v)) kvs) d = map_option snd (find (\<lambda>(k, v). h k = d) kvs)"
  by (induction kvs) (simp_all add: split_def)

locale first_write_map =
  fixes wf :: "'s \<Rightarrow> bool"
    and abs :: "'s \<Rightarrow> 'd \<rightharpoonup> 'v"
    and h :: "'k \<Rightarrow> 'd"
    and valid :: "'k \<Rightarrow> bool"
    and put :: "'s \<Rightarrow> 'k \<Rightarrow> 'v \<Rightarrow> 's run"
    and get :: "'s \<Rightarrow> 'k \<Rightarrow> 'v option run"
  assumes put_ok: "wf s \<Longrightarrow> valid k \<Longrightarrow>
      \<exists>s'. put s k v = Some (Inr s') \<and> wf s'
         \<and> abs s' = (case abs s (h k) of None \<Rightarrow> (abs s)(h k \<mapsto> v) | Some _ \<Rightarrow> abs s)"
    and get_ok: "wf s \<Longrightarrow> valid k \<Longrightarrow> get s k = Some (Inr (abs s (h k)))"
begin

lemma get_after_put:
  assumes "wf s" "valid k" "valid k'"
  shows "\<exists>s'. put s k v = Some (Inr s') \<and> wf s' \<and>
           get s' k' = Some (Inr (if h k' = h k then Some (case abs s (h k) of None \<Rightarrow> v | Some w \<Rightarrow> w)
                                  else abs s (h k')))"
  using put_ok [OF assms(1,2)] get_ok [OF _ assms(3)] by (fastforce split: option.split)

lemma put_all_abs:
  assumes "wf s" "\<forall>(k, v) \<in> set kvs. valid k"
  shows "\<exists>s'. put_all put s kvs = Some (Inr s') \<and> wf s'
           \<and> abs s' = map_of (map (\<lambda>(k, v). (h k, v)) kvs) ++ abs s"
  using assms
proof (induction kvs arbitrary: s)
  case Nil
  then show ?case by simp
next
  case (Cons kv kvs)
  obtain k v where kv: "kv = (k, v)" by fastforce
  obtain s1 where s1: "put s k v = Some (Inr s1)" "wf s1"
    "abs s1 = (case abs s (h k) of None \<Rightarrow> (abs s)(h k \<mapsto> v) | Some _ \<Rightarrow> abs s)"
    using put_ok [of s k v] Cons.prems kv by auto
  obtain s' where s': "put_all put s1 kvs = Some (Inr s')" "wf s'"
    "abs s' = map_of (map (\<lambda>(k, v). (h k, v)) kvs) ++ abs s1"
    using Cons.IH [OF s1(2)] Cons.prems by auto
  have "abs s' = map_of (map (\<lambda>(k, v). (h k, v)) (kv # kvs)) ++ abs s"
    unfolding s'(3) s1(3) kv by (auto simp: map_add_def fun_eq_iff split: option.split)
  moreover have "put_all put s (kv # kvs) = Some (Inr s')"
    by (simp add: kv s1(1) s'(1))
  ultimately show ?case using s'(2) by blast
qed

lemma get_after_put_all:
  assumes "wf s" "\<forall>(k, v) \<in> set kvs. valid k" "valid k'"
  shows "\<exists>s'. put_all put s kvs = Some (Inr s') \<and> wf s' \<and>
           get s' k' = Some (Inr ((map_of (map (\<lambda>(k, v). (h k, v)) kvs) ++ abs s) (h k')))"
proof -
  obtain s' where "put_all put s kvs = Some (Inr s')" "wf s'"
    "abs s' = map_of (map (\<lambda>(k, v). (h k, v)) kvs) ++ abs s"
    using put_all_abs [OF assms(1,2)] by blast
  then show ?thesis using get_ok [of s' k'] assms(3) by auto
qed

end

text \<open>The store with whole keys and whole values as its inputs.\<close>

abbreviation put_bytes :: "kv_store_t \<Rightarrow> byte list \<Rightarrow> byte list \<Rightarrow> kv_store_t run" where
  "put_bytes s k v \<equiv> kv_store_put s k (word_of_nat (length k)) v (length v)"

abbreviation get_bytes :: "kv_store_t \<Rightarrow> byte list \<Rightarrow> byte list option run" where
  "get_bytes s k \<equiv>
     run_bind (kv_store_get s k (word_of_nat (length k))) (\<lambda>(output, size, s'). Some (Inr output))"

lemma ucast_length: "length k < 2 ^ 32 \<Longrightarrow> unat (ucast (word_of_nat (length k) :: size_t) :: u32) = length k"
  by (simp add: unsigned_ucast_eq unat_of_nat take_bit_eq_mod)

interpretation kv: first_write_map kv_wf kv_abs fips_sha1 "\<lambda>k. length k < 2 ^ 32" put_bytes get_bytes
proof
  fix s and k v :: "byte list"
  assume wf: "kv_wf s" and k: "length k < 2 ^ 32"
  note len = ucast_length [OF k]
  have d: "digest k (word_of_nat (length k)) = fips_sha1 k"
    unfolding len by simp
  show "\<exists>s'. put_bytes s k v = Some (Inr s') \<and> kv_wf s' \<and>
      kv_abs s' = (case kv_abs s (fips_sha1 k) of None \<Rightarrow> (kv_abs s)(fips_sha1 k \<mapsto> v) | Some _ \<Rightarrow> kv_abs s)"
    using kv_store_put_eq [OF wf, of "word_of_nat (length k)" k "length v" v]
      kv_insert_wf [OF wf, of "fips_sha1 k" "length v" v] kv_insert_abs [OF wf, of "fips_sha1 k" "length v" v]
    unfolding d len take_all [OF order_refl] by simp
  show "get_bytes s k = Some (Inr (kv_abs s (fips_sha1 k)))"
    using kv_store_get_eq [OF wf, of "word_of_nat (length k)" k] unfolding d len by simp
qed

subsection \<open>The index of a power-of-two table\<close>

text \<open>The digest as one big-endian number, every byte of it read as a signed
  \<open>char\<close>.\<close>

definition be_sint :: "byte list \<Rightarrow> int" where
  "be_sint = foldl (\<lambda>a b. a * 256 + sint b) 0"

lemma take_bit_of_int: "j \<le> 64 \<Longrightarrow> take_bit j (word_of_int x :: size_t) = word_of_int (take_bit j x)"
  by (rule bit_word_eqI) (auto simp: bit_simps)

lemma sha1_mod_step_pow2:
  assumes "j < 64"
  shows "((word_of_int (x mod 2 ^ j) :: size_t) * 256 + scast (b :: byte)) mod 2 ^ j =
           word_of_int ((x * 256 + sint b) mod 2 ^ j)"
proof -
  have a: "(word_of_int (x mod 2 ^ j) :: size_t) * 256 + scast b = word_of_int ((x mod 2 ^ j) * 256 + sint b)"
    by simp
  have b: "((x mod 2 ^ j) * 256 + sint b) mod 2 ^ j = (x * 256 + sint b) mod 2 ^ j"
    by (metis mod_add_left_eq mod_mult_left_eq)
  show ?thesis
    unfolding a using assms b
    by (simp only: take_bit_eq_mod [symmetric] take_bit_of_int less_imp_le)
qed

lemma sha1_mod_loop_pow2:
  assumes j: "j < 64"
  shows "i + k = length hash \<Longrightarrow>
    sha1_mod_loop hash (2 ^ j) (word_of_int (x mod 2 ^ j)) i k =
      Inr (word_of_int (foldl (\<lambda>a b. a * 256 + sint b) x (drop i hash) mod 2 ^ j))"
proof (induction k arbitrary: i x)
  case 0
  then show ?case by simp
next
  case (Suc k)
  have nz: "(2 :: size_t) ^ j \<noteq> 0" using j by simp
  have "sha1_mod_loop hash (2 ^ j) (word_of_int (x mod 2 ^ j)) i (Suc k) =
      sha1_mod_loop hash (2 ^ j) (word_of_int ((x * 256 + sint (hash ! i)) mod 2 ^ j)) (Suc i) k"
    using Suc.prems nz sha1_mod_step_pow2 [OF j, of x "hash ! i"]
    by (simp add: mem_read_def Cons_nth_drop_Suc [symmetric])
  also have "\<dots> = Inr (word_of_int (foldl (\<lambda>a b. a * 256 + sint b) (x * 256 + sint (hash ! i)) (drop (Suc i) hash) mod 2 ^ j))"
    using Suc by simp
  also have "\<dots> = Inr (word_of_int (foldl (\<lambda>a b. a * 256 + sint b) x (drop i hash) mod 2 ^ j))"
    using Suc.prems by (simp add: Cons_nth_drop_Suc [symmetric])
  finally show ?case .
qed

lemma sha1_mod_bucket_pow2:
  "j < 64 \<Longrightarrow> length hash = 20 \<Longrightarrow>
   sha1_mod_bucket hash (2 ^ j) = Inr (word_of_int (be_sint hash mod 2 ^ j))"
  using sha1_mod_loop_pow2 [of j 0 20 hash 0] by (simp add: sha1_mod_bucket_def be_sint_def)

lemma kv_destroy_loop_eq:
  "i + k = length (buckets s) \<Longrightarrow> length (bucket_locks s) = length (buckets s) \<Longrightarrow>
   kv_destroy_loop s i k = Inr (concat (drop i (buckets s)))"
  by (induction k arbitrary: i) (simp_all add: Cons_nth_drop_Suc [symmetric])

lemma kv_wf_distinct: 
  assumes "kv_wf s"
  shows "distinct (map entry_key (concat (buckets s)))"
proof -
  let ?B = "buckets s"
  have "distinct (map entry_key (concat (take m ?B)))
      \<and> (\<forall>e \<in> set (concat (take m ?B)). kv_index s (entry_key e) < m)" if "m \<le> length ?B" for m
    using that
  proof (induction m)
    case 0
    then show ?case by simp
  next
    case (Suc m)
    then have IH: "distinct (map entry_key (concat (take m ?B)))"
      "\<forall>e \<in> set (concat (take m ?B)). kv_index s (entry_key e) < m" by simp_all
    have m: "distinct (map entry_key (?B ! m))" "\<forall>e \<in> set (?B ! m). kv_index s (entry_key e) = m"
      using assms Suc.prems by (auto simp: kv_wf_def)
    have "entry_key ` set (concat (take m ?B)) \<inter> entry_key ` set (?B ! m) = {}"
      using IH(2) m(2) by fastforce
    moreover have "concat (take (Suc m) ?B) = concat (take m ?B) @ ?B ! m"
      using Suc.prems by (simp add: take_Suc_conv_app_nth)
    ultimately show ?case using IH m by (auto simp: less_Suc_eq)
  qed
  from this [of "length ?B"] show ?thesis by simp
qed

subsection \<open>Properties\<close>

text \<open>\<open>kv_store_put\<close> on a well-formed store returns, without a fault and without
  blocking, a well-formed store with every bucket lock released; it adds the
  key's digest to the stored map with the value given, unless the digest was
  present, in which case the store keeps the value of the first write.\<close>

lemma kv_put_contract:
  assumes "kv_wf s" and "length key < 2 ^ 32"
  shows "\<exists>s'. kv_store_put s key (word_of_nat (length key)) dat (length dat) = Some (Inr s')
           \<and> kv_wf s' \<and> (\<forall>l \<in> set (bucket_locks s'). l = False)
           \<and> kv_abs s' = (case kv_abs s (fips_sha1 key) of
                None \<Rightarrow> (kv_abs s)(fips_sha1 key \<mapsto> dat) | Some _ \<Rightarrow> kv_abs s)"
proof -
  obtain s' where "put_bytes s key dat = Some (Inr s')" "kv_wf s'"
    "kv_abs s' = (case kv_abs s (fips_sha1 key) of
       None \<Rightarrow> (kv_abs s)(fips_sha1 key \<mapsto> dat) | Some _ \<Rightarrow> kv_abs s)"
    using kv.put_ok [OF assms] by blast
  moreover from this(2) have "\<forall>l \<in> set (bucket_locks s'). l = False"
    by (simp add: kv_wf_def)
  ultimately show ?thesis by blast
qed

lemma kv_put_contract_witness:
  "\<exists>s'. kv_store_put (kv_store_new 1024) [107, 49] 2 [1, 2, 3] 3 = Some (Inr s') \<and> kv_wf s'
     \<and> (\<forall>l \<in> set (bucket_locks s'). l = False) \<and> kv_abs s' = [fips_sha1 [107, 49] \<mapsto> [1, 2, 3]]"
  using kv_put_contract [OF kv_store_new_wf, of 1024 "[107, 49]" "[1, 2, 3]"]
  by (simp add: kv_store_new_abs numeral_3_eq_3)

text \<open>After any sequence of puts into a new store, \<open>kv_store_get\<close> returns the
  value of the first put whose key has the digest asked for, with its length, or
  the null pointer and 0 when there was none; it leaves the store as it is.\<close>

lemma kv_store_history:
  assumes "n \<noteq> 0" and "\<forall>(k, v) \<in> set kvs. length k < 2 ^ 32" and "length key < 2 ^ 32"
  shows "\<exists>s'. put_all put_bytes (kv_store_new n) kvs = Some (Inr s') \<and>
           kv_store_get s' key (word_of_nat (length key)) =
             (case find (\<lambda>(k, v). fips_sha1 k = fips_sha1 key) kvs of
                None \<Rightarrow> Some (Inr (None, 0, s'))
              | Some (k, v) \<Rightarrow> Some (Inr (Some v, length v, s')))"
proof -
  let ?m = "map_of (map (\<lambda>(k, v). (fips_sha1 k, v)) kvs)"
  obtain s' where s': "put_all put_bytes (kv_store_new n) kvs = Some (Inr s')" "kv_wf s'"
    "kv_abs s' = ?m ++ kv_abs (kv_store_new n)"
    using kv.put_all_abs [OF kv_store_new_wf [OF assms(1)] assms(2)] by blast
  have d: "digest key (word_of_nat (length key)) = fips_sha1 key"
    unfolding ucast_length [OF assms(3)] by simp
  have "kv_store_get s' key (word_of_nat (length key)) =
      Some (Inr (kv_abs s' (fips_sha1 key), (case kv_abs s' (fips_sha1 key) of None \<Rightarrow> 0 | Some v \<Rightarrow> length v), s'))"
    using kv_store_get_eq [OF s'(2), of "word_of_nat (length key)" key]
    unfolding d ucast_length [OF assms(3)] by simp
  moreover have "kv_abs s' (fips_sha1 key) = map_option snd (find (\<lambda>(k, v). fips_sha1 k = fips_sha1 key) kvs)"
    unfolding s'(3) kv_store_new_abs [OF assms(1)] map_add_empty by (rule map_of_find)
  ultimately show ?thesis
    using s'(1) by (cases "find (\<lambda>(k, v). fips_sha1 k = fips_sha1 key) kvs") (simp_all add: split_def)
qed

lemma kv_store_history_witness:
  "\<exists>s'. put_all put_bytes (kv_store_new 1024) [([107], [1]), ([107], [2])] = Some (Inr s') \<and>
     kv_store_get s' [107] 1 = Some (Inr (Some [1], 1, s'))"
  using kv_store_history [of 1024 "[([107], [1]), ([107], [2])]" "[107]"] by simp

text \<open>The bucket index is always below the number of buckets, so the accesses
  to the two arrays stay inside them; a table of no bucket is a division by zero.\<close>

lemma kv_index_bound:
  assumes "length hash = 20"
  shows "case sha1_mod_bucket hash n of Inl f \<Rightarrow> f = Div_By_Zero \<and> n = 0 | Inr b \<Rightarrow> b < n"
proof (cases "n = 0")
  case True
  then show ?thesis
    using assms by (simp add: sha1_mod_bucket_def eval_nat_numeral mem_read_def)
next
  case False
  then show ?thesis
    using sha1_mod_bucket_ok [of n hash] assms by auto
qed

lemma kv_index_bound_witness:
  "case sha1_mod_bucket (replicate 20 0xFE) 1000 of Inl f \<Rightarrow> False | Inr b \<Rightarrow> b < 1000"
  using kv_index_bound [of "replicate 20 0xFE" 1000] by (simp split: sum.splits)

text \<open>In a table of \<open>2 ^ j\<close> buckets, such as the 1024 of a node, the index is the
  digest read as a big-endian number of signed bytes, modulo the table size.\<close>

lemma kv_index_pow2:
  assumes "j < 64" and "length hash = 20"
  shows "sha1_mod_bucket hash (2 ^ j) = Inr (word_of_int (be_sint hash mod 2 ^ j))"
  by (rule sha1_mod_bucket_pow2 [OF assms])

lemma kv_index_pow2_witness:
  "sha1_mod_bucket (replicate 18 0 @ [1, 0xFF]) 1024 = Inr 255"
  using kv_index_pow2 [of 10 "replicate 18 0 @ [1, 0xFF]"] by (simp add: be_sint_def eval_nat_numeral)

text \<open>\<open>kv_store_destroy\<close> visits every bucket inside the arrays and frees every
  entry of the store exactly once.\<close>

lemma kv_destroy_frees:
  assumes "kv_wf s"
  shows "kv_store_destroy s = Inr (concat (buckets s)) \<and> distinct (concat (buckets s))"
  using assms kv_destroy_loop_eq [of 0 "unat (bucket_count s)" s] kv_wf_distinct [OF assms]
  by (simp add: kv_store_destroy_def kv_wf_def distinct_map)

lemma kv_destroy_frees_witness: "kv_store_destroy (kv_store_new 7) = Inr []"
  using kv_destroy_frees [OF kv_store_new_wf, of 7] by (simp add: kv_store_new_def)

end
