(* ===== verification/Xqueue.thy ===== *)
theory Xqueue
  imports CDHT_Prelude
begin

text \<open>
  \<open>src/src/helpers/xqueue.c\<close> with \<open>xqueue.h\<close>: the linked queue between the
  receiving thread and the workers. The list has a dummy node at its head; the
  tail pointer goes back to the dummy when the last element leaves. The model
  keeps the heap, so that a read or write of a freed node would be a fault.

  The address a \<open>malloc\<close> returns is a parameter; what the code relies on is that
  it is not in use. Each function is one critical section of the queue's mutex;
  the interleaving of the threads is in \<open>Udp_Server\<close>.
\<close>

subsection \<open>The structures\<close>

record 'd xqueue_node_t =
  node_data :: "'d option"
  next_node :: "nat option"

type_synonym 'd xheap = "nat \<rightharpoonup> 'd xqueue_node_t"

record 'd xqueue_t =
  q_heap :: "'d xheap"
  q_head :: nat
  q_tail :: nat

subsection \<open>Operations\<close>

definition xqueue_new :: "'d xheap \<Rightarrow> nat \<Rightarrow> 'd xqueue_t" where
  "xqueue_new h a =
     \<lparr>q_heap = h(a \<mapsto> \<lparr>node_data = None, next_node = None\<rparr>), q_head = a, q_tail = a\<rparr>"

text \<open>\<open>queue->tail->next = node; queue->tail = node;\<close>\<close>

definition xqueue_enqueue :: "'d xqueue_t \<Rightarrow> nat \<Rightarrow> 'd option \<Rightarrow> 'd xqueue_t faulty" where
  "xqueue_enqueue q a d =
     (let h = (q_heap q)(a \<mapsto> \<lparr>node_data = d, next_node = None\<rparr>) in
      case h (q_tail q) of None \<Rightarrow> Inl Dangling
      | Some t \<Rightarrow> Inr (q\<lparr>q_heap := h(q_tail q \<mapsto> t\<lparr>next_node := Some a\<rparr>), q_tail := a\<rparr>))"

text \<open>\<open>Inr None\<close> is the branch that waits on the condition variable; otherwise the
  result is the value stored through \<open>output\<close> and the new queue.\<close>

definition xqueue_dequeue :: "'d xqueue_t \<Rightarrow> ('d option \<times> 'd xqueue_t) option faulty" where
  "xqueue_dequeue q =
     (case q_heap q (q_head q) of None \<Rightarrow> Inl Dangling
      | Some hd_node \<Rightarrow>
        (case next_node hd_node of None \<Rightarrow> Inr None
         | Some n \<Rightarrow>
           (case q_heap q n of None \<Rightarrow> Inl Dangling
            | Some nd \<Rightarrow>
                let h1 = (q_heap q)(q_head q \<mapsto> hd_node\<lparr>next_node := next_node nd\<rparr>);
                    t = (if q_tail q = n then q_head q else q_tail q)
                in Inr (Some (node_data nd, q\<lparr>q_heap := h1(n := None), q_tail := t\<rparr>)))))"

text \<open>The loop of \<open>xqueue_destroy\<close> reads \<open>next\<close>, frees the node and goes on; on a
  list that is not well formed it need not end.\<close>

partial_function (option) xqueue_free_from :: "'d xheap \<Rightarrow> nat option \<Rightarrow> 'd xheap run" where
  "xqueue_free_from h p =
     (case p of None \<Rightarrow> Some (Inr h)
      | Some a \<Rightarrow>
        (case h a of None \<Rightarrow> Some (Inl Dangling)
         | Some nd \<Rightarrow> xqueue_free_from (h(a := None)) (next_node nd)))"

definition xqueue_free_nodes :: "'d xqueue_t \<Rightarrow> 'd xheap run" where
  "xqueue_free_nodes q = xqueue_free_from (q_heap q) (Some (q_head q))"

subsection \<open>The list a queue represents\<close>

text \<open>\<open>chain h p as\<close>: the nodes reached from \<open>p\<close> are those at the addresses \<open>as\<close>.\<close>

primrec chain :: "'d xheap \<Rightarrow> nat option \<Rightarrow> nat list \<Rightarrow> bool" where
  "chain h p [] \<longleftrightarrow> p = None"
| "chain h p (a # as) \<longleftrightarrow> p = Some a \<and> (\<exists>nd. h a = Some nd \<and> chain h (next_node nd) as)"

definition xq_repr :: "'d xqueue_t \<Rightarrow> nat list \<Rightarrow> 'd option list \<Rightarrow> bool" where
  "xq_repr q as ds \<longleftrightarrow>
     distinct (q_head q # as) \<and>
     chain (q_heap q) (Some (q_head q)) (q_head q # as) \<and>
     q_tail q = last (q_head q # as) \<and>
     map (\<lambda>a. node_data (the (q_heap q a))) as = ds"

lemma chain_upd [simp]: "a \<notin> set as \<Longrightarrow> chain (h(a := v)) p as = chain h p as"
  by (induction as arbitrary: p) auto

lemma chain_alive: "chain h p as \<Longrightarrow> a \<in> set as \<Longrightarrow> h a \<noteq> None"
  by (induction as arbitrary: p) auto

lemma chain_unique: "chain h p as \<Longrightarrow> chain h p bs \<Longrightarrow> as = bs"
  by (induction as arbitrary: p bs) (case_tac bs; force)+

text \<open>Linking a fresh node behind the last one.\<close>

lemma chain_snoc:
  assumes "chain h p as" "as \<noteq> []" "distinct as" "a \<notin> set as"
    and "h (last as) = Some t"
  shows "chain (h(a \<mapsto> \<lparr>node_data = d, next_node = None\<rparr>, last as \<mapsto> t\<lparr>next_node := Some a\<rparr>)) p (as @ [a])"
  using assms
proof (induction as arbitrary: p)
  case Nil
  then show ?case by simp
next
  case (Cons b as)
  then show ?case
    by (cases "as = []") (auto simp: fun_upd_twist split: if_splits)
qed

lemma xqueue_new_repr: "xq_repr (xqueue_new h a) [] []"
  by (simp add: xq_repr_def xqueue_new_def)

lemma xqueue_enqueue_repr:
  assumes q: "xq_repr q as ds" and fresh: "q_heap q a = None"
  shows "\<exists>q'. xqueue_enqueue q a d = Inr q' \<and> xq_repr q' (as @ [a]) (ds @ [d]) \<and> q_head q' = q_head q"
proof -
  let ?L = "q_head q # as"
  have ch: "chain (q_heap q) (Some (q_head q)) ?L" and dist: "distinct ?L" and tl: "q_tail q = last ?L"
    using q by (simp_all add: xq_repr_def)
  have new: "a \<notin> set ?L" using chain_alive [OF ch] fresh by blast
  then have ne: "last ?L \<noteq> a" using last_in_set [of ?L] by (metis list.distinct(1))
  obtain t where t: "q_heap q (last ?L) = Some t"
    using chain_alive [OF ch] last_in_set [of ?L] by (metis list.distinct(1) option.exhaust)
  let ?h = "(q_heap q)(a \<mapsto> \<lparr>node_data = d, next_node = None\<rparr>, last ?L \<mapsto> t\<lparr>next_node := Some a\<rparr>)"
  have enq: "xqueue_enqueue q a d = Inr (q\<lparr>q_heap := ?h, q_tail := a\<rparr>)"
    using t ne by (simp add: xqueue_enqueue_def Let_def tl)
  have "chain ?h (Some (q_head q)) (?L @ [a])"
    using chain_snoc [OF ch _ dist new t] by simp
  moreover have "map (\<lambda>b. node_data (the (?h b))) as = ds"
    using q t new by (auto simp: xq_repr_def)
  moreover have "node_data (the (?h a)) = d" using ne by simp
  ultimately show ?thesis
    using enq dist new by (auto simp: xq_repr_def simp del: fun_upd_apply)
qed

lemma xqueue_dequeue_empty: "xq_repr q [] ds \<Longrightarrow> xqueue_dequeue q = Inr None"
  by (auto simp: xq_repr_def xqueue_dequeue_def)

lemma xqueue_dequeue_repr:
  assumes q: "xq_repr q (a # as) (d # ds)"
  shows "\<exists>q'. xqueue_dequeue q = Inr (Some (d, q')) \<and> xq_repr q' as ds
            \<and> q_head q' = q_head q \<and> q_heap q' a = None"
proof -
  obtain hn nd where hn: "q_heap q (q_head q) = Some hn" "next_node hn = Some a"
    and nd: "q_heap q a = Some nd" "chain (q_heap q) (next_node nd) as"
    using q by (auto simp: xq_repr_def)
  let ?h = "(q_heap q)(q_head q \<mapsto> hn\<lparr>next_node := next_node nd\<rparr>, a := None)"
  let ?t = "if q_tail q = a then q_head q else q_tail q"
  have deq: "xqueue_dequeue q = Inr (Some (d, q\<lparr>q_heap := ?h, q_tail := ?t\<rparr>))"
    using q hn nd by (auto simp: xqueue_dequeue_def xq_repr_def Let_def)
  have dist: "distinct (q_head q # a # as)" and tl: "q_tail q = last (q_head q # a # as)"
    using q by (simp_all add: xq_repr_def)
  have "?t = last (q_head q # as)"
    using dist tl last_in_set [of as] by (cases "as = []") auto
  moreover have "map (\<lambda>b. node_data (the (?h b))) as = ds"
    using q dist by (auto simp: xq_repr_def)
  ultimately show ?thesis
    using deq dist nd hn by (auto simp: xq_repr_def)
qed

lemma xq_repr_lengths: "xq_repr q as ds \<Longrightarrow> length as = length ds"
  by (auto simp: xq_repr_def)

lemma free_chain:
  "chain h p as \<Longrightarrow> distinct as \<Longrightarrow> xqueue_free_from h p = Some (Inr (h |` (- set as)))"
proof (induction as arbitrary: h p)
  case Nil
  then show ?case by (simp add: xqueue_free_from.simps [of h])
next
  case (Cons a as)
  then obtain nd where nd: "p = Some a" "h a = Some nd" "chain h (next_node nd) as" by auto
  with Cons.prems have "xqueue_free_from (h(a := None)) (next_node nd) = Some (Inr ((h(a := None)) |` (- set as)))"
    by (intro Cons.IH) (simp_all del: fun_upd_apply)
  moreover have "(h(a := None)) |` (- set as) = h |` (- set (a # as))"
    by (auto simp: restrict_map_def)
  ultimately show ?case
    using nd by (simp add: xqueue_free_from.simps [of h])
qed

subsection \<open>The interface the server relies on\<close>

text \<open>
  A first-in first-out queue over a memory: \<open>holds\<close> relates a queue to the list
  of values in it, \<open>fresh\<close> is what an allocation gives. The laws say that no
  operation faults, that a dequeue waits exactly on the empty queue, and what the
  contents are afterwards. \<open>queue_moves\<close> is a sequence of operations with the
  values put in and taken out.
\<close>

inductive queue_moves ::
    "('q \<Rightarrow> 'a \<Rightarrow> bool) \<Rightarrow> ('q \<Rightarrow> 'a \<Rightarrow> 'd \<Rightarrow> 'q faulty) \<Rightarrow> ('q \<Rightarrow> ('d \<times> 'q) option faulty)
       \<Rightarrow> 'q \<Rightarrow> 'd list \<Rightarrow> 'd list \<Rightarrow> 'q \<Rightarrow> bool"
  for fresh enq deq where
  stop: "queue_moves fresh enq deq q [] [] q"
| put: "queue_moves fresh enq deq q ins outs q1 \<Longrightarrow> fresh q1 a \<Longrightarrow> enq q1 a d = Inr q2 \<Longrightarrow>
        queue_moves fresh enq deq q (ins @ [d]) outs q2"
| take_out: "queue_moves fresh enq deq q ins outs q1 \<Longrightarrow> deq q1 = Inr (Some (d, q2)) \<Longrightarrow>
        queue_moves fresh enq deq q ins (outs @ [d]) q2"

locale fifo_queue =
  fixes holds :: "'q \<Rightarrow> 'd list \<Rightarrow> bool"
    and fresh :: "'q \<Rightarrow> 'a \<Rightarrow> bool"
    and enq :: "'q \<Rightarrow> 'a \<Rightarrow> 'd \<Rightarrow> 'q faulty"
    and deq :: "'q \<Rightarrow> ('d \<times> 'q) option faulty"
  assumes enq_holds: "holds q ds \<Longrightarrow> fresh q a \<Longrightarrow> \<exists>q'. enq q a d = Inr q' \<and> holds q' (ds @ [d])"
    and deq_waits: "holds q [] \<Longrightarrow> deq q = Inr None"
    and deq_holds: "holds q (d # ds) \<Longrightarrow> \<exists>q'. deq q = Inr (Some (d, q')) \<and> holds q' ds"
begin

lemma deq_never_faults: "holds q ds \<Longrightarrow> no_fault (deq q)"
  using deq_waits deq_holds by (cases ds) fastforce+

lemma deq_Some_iff: "holds q ds \<Longrightarrow> (\<exists>r. deq q = Inr (Some r)) \<longleftrightarrow> ds \<noteq> []"
  using deq_waits deq_holds by (cases ds) fastforce+

lemma moves_fifo:
  "queue_moves fresh enq deq q ins outs q' \<Longrightarrow> holds q ds \<Longrightarrow> \<exists>left. holds q' left \<and> outs @ left = ds @ ins"
proof (induction rule: queue_moves.induct)
  case (stop q)
  then show ?case by auto
next
  case (put q ins outs q1 a d q2)
  then obtain left where "holds q1 left" "outs @ left = ds @ ins" by auto
  with put.hyps enq_holds [of q1 left a d] show ?case by force
next
  case (take_out q ins outs q1 d q2)
  then obtain left where left: "holds q1 left" "outs @ left = ds @ ins" by auto
  with take_out.hyps deq_waits obtain d' rest where "left = d' # rest" by (cases left) auto
  with left take_out.hyps deq_holds [of q1 d' rest] show ?case by force
qed

end

definition xq_holds :: "'d xqueue_t \<Rightarrow> 'd option list \<Rightarrow> bool" where
  "xq_holds q ds \<longleftrightarrow> (\<exists>as. xq_repr q as ds)"

definition xq_fresh :: "'d xqueue_t \<Rightarrow> nat \<Rightarrow> bool" where
  "xq_fresh q a \<longleftrightarrow> q_heap q a = None"

interpretation xq: fifo_queue xq_holds xq_fresh xqueue_enqueue xqueue_dequeue
proof unfold_locales
  fix q :: "'d xqueue_t" and ds a d
  assume "xq_holds q ds" "xq_fresh q a"
  then show "\<exists>q'. xqueue_enqueue q a d = Inr q' \<and> xq_holds q' (ds @ [d])"
    using xqueue_enqueue_repr unfolding xq_holds_def xq_fresh_def by blast
next
  fix q :: "'d xqueue_t"
  assume "xq_holds q []"
  then show "xqueue_dequeue q = Inr None"
    unfolding xq_holds_def using xq_repr_lengths xqueue_dequeue_empty
    by (metis length_0_conv)
next
  fix q :: "'d xqueue_t" and d ds
  assume "xq_holds q (d # ds)"
  then obtain as where "xq_repr q as (d # ds)" unfolding xq_holds_def by blast
  moreover from this obtain a as' where "as = a # as'"
    using xq_repr_lengths [of q as] by (cases as) auto
  ultimately show "\<exists>q'. xqueue_dequeue q = Inr (Some (d, q')) \<and> xq_holds q' ds"
    using xqueue_dequeue_repr unfolding xq_holds_def by blast
qed

lemma xqueue_new_holds: "xq_holds (xqueue_new h a) []"
  using xqueue_new_repr unfolding xq_holds_def by blast

subsection \<open>Properties\<close>

text \<open>C16. Over any sequence of enqueues (at addresses \<open>malloc\<close> found unused) and
  successful dequeues on a queue that holds \<open>ds\<close>, what came out followed by what
  is left is what was there followed by what went in: first in, first out,
  nothing lost, nothing duplicated.\<close>

theorem xqueue_fifo:
  assumes "xq_holds q ds" and "queue_moves xq_fresh xqueue_enqueue xqueue_dequeue q ins outs q'"
  shows "\<exists>left. xq_holds q' left \<and> outs @ left = ds @ ins"
  using assms(2,1) by (rule xq.moves_fifo)

theorem xqueue_fifo_witness:
  "\<exists>q'. queue_moves xq_fresh xqueue_enqueue xqueue_dequeue (xqueue_new Map.empty 0) [Some (7 :: nat), None] [Some 7] q'
      \<and> (\<exists>left. xq_holds q' left \<and> [Some 7] @ left = [Some 7, None])"
proof -
  let ?q = "xqueue_new Map.empty 0 :: nat xqueue_t"
  obtain q1 where q1: "xqueue_enqueue ?q 1 (Some 7) = Inr q1" "xq_holds q1 [Some 7]"
    using xq.enq_holds [OF xqueue_new_holds, of Map.empty 0 1 "Some 7"]
    by (auto simp: xq_fresh_def xqueue_new_def)
  have "xq_fresh q1 2"
    using q1(1) by (auto simp: xq_fresh_def xqueue_enqueue_def xqueue_new_def)
  then obtain q2 where q2: "xqueue_enqueue q1 2 None = Inr q2" "xq_holds q2 [Some 7, None]"
    using xq.enq_holds [OF q1(2), of 2 None] by auto
  obtain q3 where q3: "xqueue_dequeue q2 = Inr (Some (Some 7, q3))"
    using xq.deq_holds [OF q2(2)] by auto
  have f: "xq_fresh ?q 1" by (simp add: xq_fresh_def xqueue_new_def)
  have m: "queue_moves xq_fresh xqueue_enqueue xqueue_dequeue ?q [Some 7, None] [Some 7] q3"
  proof -
    have "queue_moves xq_fresh xqueue_enqueue xqueue_dequeue ?q ([] @ [Some 7]) [] q1"
      by (rule queue_moves.put [where fresh = xq_fresh and enq = xqueue_enqueue]) (fact queue_moves.stop f q1(1))+
    then have "queue_moves xq_fresh xqueue_enqueue xqueue_dequeue ?q (([] @ [Some 7]) @ [None]) [] q2"
      by (rule queue_moves.put [where fresh = xq_fresh and enq = xqueue_enqueue]) (fact \<open>xq_fresh q1 2\<close> q2(1))+
    then have "queue_moves xq_fresh xqueue_enqueue xqueue_dequeue ?q (([] @ [Some 7]) @ [None]) ([] @ [Some 7]) q3"
      by (rule queue_moves.take_out) (fact q3)
    then show ?thesis by simp
  qed
  then show ?thesis
    using xqueue_fifo [OF xqueue_new_holds m] by auto
qed

text \<open>One step of the queue at the level of its nodes: an enqueue links the fresh
  node behind the last one, a dequeue waits exactly when there is no element, and
  otherwise returns the oldest one, frees its node, and moves the tail back to the
  dummy when it was the last. No operation touches a freed node.\<close>

lemma xqueue_step_contract:
  assumes "xq_repr q as ds"
  shows "(\<forall>a d. q_heap q a = None \<longrightarrow>
            (\<exists>q'. xqueue_enqueue q a d = Inr q' \<and> xq_repr q' (as @ [a]) (ds @ [d])))
       \<and> (xqueue_dequeue q = Inr None \<longleftrightarrow> ds = [])
       \<and> (\<forall>d ds'. ds = d # ds' \<longrightarrow>
            (\<exists>q'. xqueue_dequeue q = Inr (Some (d, q')) \<and> xq_repr q' (tl as) ds'
                \<and> q_heap q' (hd as) = None \<and> (ds' = [] \<longrightarrow> q_tail q' = q_head q')))"
proof (intro conjI allI impI)
  fix a d
  assume "q_heap q a = None"
  with assms show "\<exists>q'. xqueue_enqueue q a d = Inr q' \<and> xq_repr q' (as @ [a]) (ds @ [d])"
    using xqueue_enqueue_repr by blast
next
  show "xqueue_dequeue q = Inr None \<longleftrightarrow> ds = []"
    using assms xq.deq_Some_iff [of q ds] xq.deq_waits [of q] unfolding xq_holds_def by fastforce
next
  fix d ds'
  assume ds: "ds = d # ds'"
  then obtain a as' where as: "as = a # as'"
    using xq_repr_lengths [OF assms] by (cases as) auto
  obtain q' where q': "xqueue_dequeue q = Inr (Some (d, q'))" "xq_repr q' as' ds'"
    "q_heap q' a = None"
    using xqueue_dequeue_repr assms unfolding as ds by blast
  have "ds' = [] \<longrightarrow> q_tail q' = q_head q'"
    using q'(2) xq_repr_lengths [OF q'(2)] by (auto simp: xq_repr_def)
  with q' show "\<exists>q'. xqueue_dequeue q = Inr (Some (d, q')) \<and> xq_repr q' (tl as) ds'
      \<and> q_heap q' (hd as) = None \<and> (ds' = [] \<longrightarrow> q_tail q' = q_head q')"
    by (auto simp: as)
qed

lemma xqueue_step_contract_witness:
  "xq_repr (xqueue_new Map.empty 0 :: nat xqueue_t) [] [] \<and>
   xqueue_dequeue (xqueue_new Map.empty 0 :: nat xqueue_t) = Inr None"
  using xqueue_step_contract [OF xqueue_new_repr, of Map.empty 0] xqueue_new_repr by blast

text \<open>Destroying a well-formed queue ends, frees the dummy and every queued node
  exactly once, and frees nothing else.\<close>

lemma xqueue_free_nodes_frees:
  assumes "xq_repr q as ds"
  shows "xqueue_free_nodes q = Some (Inr (q_heap q |` (- set (q_head q # as))))"
  using assms free_chain [of "q_heap q" "Some (q_head q)" "q_head q # as"]
  by (simp add: xqueue_free_nodes_def xq_repr_def)

lemma xqueue_free_nodes_frees_witness:
  "xqueue_free_nodes (xqueue_new Map.empty 0 :: nat xqueue_t) = Some (Inr Map.empty)"
proof -
  have "q_heap (xqueue_new Map.empty 0 :: nat xqueue_t) |` (- {0}) = Map.empty"
    by (rule ext) (simp add: xqueue_new_def restrict_map_def)
  then show ?thesis
    using xqueue_free_nodes_frees [OF xqueue_new_repr, of Map.empty 0] by (simp add: xqueue_new_def)
qed

end
