(* ===== verification/Convert.thy ===== *)
theory Convert
  imports CDHT_Prelude
begin

text \<open>
  \<open>src/src/helpers/convert.c\<close>: the two hexadecimal printers. Both write into a
  block they allocate; the model keeps the block, with its arbitrary initial
  contents \<open>g\<close> and its bounds, so that a write past the end would be a fault.
  The decimal conversion \<open>%u\<close> of \<open>sprintf\<close>, used by the packet printer, is here
  as well.
\<close>

subsection \<open>Conversions of sprintf\<close>

definition hex_lower :: "nat \<Rightarrow> char" where
  "hex_lower n = ''0123456789abcdef'' ! (n mod 16)"

definition hex_upper :: "nat \<Rightarrow> char" where
  "hex_upper n = ''0123456789ABCDEF'' ! (n mod 16)"

text \<open>\<open>%02x\<close> and \<open>%02X\<close> of a value below 256.\<close>

definition fmt_02x :: "byte \<Rightarrow> string" where
  "fmt_02x b = [hex_lower (unat b div 16), hex_lower (unat b)]"

definition fmt_02X :: "byte \<Rightarrow> string" where
  "fmt_02X b = [hex_upper (unat b div 16), hex_upper (unat b)]"

text \<open>\<open>%u\<close>.\<close>

fun fmt_u :: "nat \<Rightarrow> string" where
  "fmt_u n = (if n < 10 then [char_of (48 + n)] else fmt_u (n div 10) @ [char_of (48 + n mod 10)])"

declare fmt_u.simps [simp del]

abbreviation NUL :: char where
  "NUL \<equiv> CHR 0x00"

subsection \<open>The hash printer\<close>

text \<open>
  Each \<open>sprintf\<close> writes two digits and the terminating zero at \<open>output + 2 *
  offset\<close>; the next call overwrites that zero.
\<close>

fun cvt_sha1_loop :: "byte list \<Rightarrow> string \<Rightarrow> nat \<Rightarrow> nat \<Rightarrow> string faulty" where
  "cvt_sha1_loop hash output offset 0 = Inr output"
| "cvt_sha1_loop hash output offset (Suc k) =
     fault_bind (mem_read hash offset 1) (\<lambda>bs.
     fault_bind (mem_write output (2 * offset) (fmt_02x (hd bs AND 0xff) @ [NUL])) (\<lambda>output'.
     cvt_sha1_loop hash output' (Suc offset) k))"

definition cvt_sha1_to_string :: "(nat \<Rightarrow> char) \<Rightarrow> byte list \<Rightarrow> string faulty" where
  "cvt_sha1_to_string g hash = cvt_sha1_loop hash (uninit g 41) 0 20"

subsection \<open>The payload printer\<close>

text \<open>\<open>p\<close> is the write position; the result is the block and \<open>p - *output\<close>.
  \<open>malloc\<close> may fail, which the code answers with length 0.\<close>

fun cvt_bytes_loop :: "byte list option \<Rightarrow> nat \<Rightarrow> string \<Rightarrow> nat \<Rightarrow> nat \<Rightarrow> nat \<Rightarrow> (string \<times> nat) faulty" where
  "cvt_bytes_loop data len output p i 0 = Inr (output, p)"
| "cvt_bytes_loop data len output p i (Suc k) =
     (case data of None \<Rightarrow> Inl Null_Deref | Some d \<Rightarrow>
      fault_bind (mem_read d i 1) (\<lambda>bs.
      fault_bind (mem_write output p (''0x'' @ fmt_02X (hd bs) @ [NUL])) (\<lambda>output1.
      let p1 = p + 4 in
      if i + 1 < len
      then fault_bind (mem_write output1 p1 '' '') (\<lambda>output2.
             cvt_bytes_loop data len output2 (p1 + 1) (Suc i) k)
      else cvt_bytes_loop data len output1 p1 (Suc i) k)))"

definition cvt_bytes_to_hex ::
    "(nat \<Rightarrow> char) \<Rightarrow> bool \<Rightarrow> byte list option \<Rightarrow> nat \<Rightarrow> (string option \<times> nat) faulty" where
  "cvt_bytes_to_hex g alloc_ok data len =
     (if \<not> alloc_ok then Inr (None, 0)
      else fault_bind (cvt_bytes_loop data len (uninit g (len * 5 + 1)) 0 0 len) (\<lambda>(output, p).
           fault_bind (mem_write output p [NUL]) (\<lambda>output'. Inr (Some output', p))))"

subsection \<open>What the printers produce\<close>

definition hash_hex :: "byte list \<Rightarrow> string" where
  "hash_hex hash = concat (map fmt_02x hash)"

fun bytes_hex :: "byte list \<Rightarrow> string" where
  "bytes_hex [] = []"
| "bytes_hex [b] = ''0x'' @ fmt_02X b"
| "bytes_hex (b # bs) = ''0x'' @ fmt_02X b @ '' '' @ bytes_hex bs"

lemma length_fmt_02x [simp]: "length (fmt_02x b) = 2" "length (fmt_02X b) = 2"
  by (simp_all add: fmt_02x_def fmt_02X_def)

lemma length_hash_hex [simp]: "length (hash_hex hash) = 2 * length hash"
  by (induction hash) (simp_all add: hash_hex_def)

lemma length_bytes_hex: "length (bytes_hex bs) = 5 * length bs - 1"
  by (induction bs rule: bytes_hex.induct) simp_all

lemma and_255_byte [simp]: "(b :: byte) AND 0xff = b"
  using take_bit_eq_mask [of 8 b] by (simp add: mask_eq_exp_minus_1 take_bit_word_eq_self)

text \<open>Printed digits are never the zero character, so the text ends where the
  printer stops.\<close>

lemma hex_digit_not_NUL: "hex_lower n \<noteq> NUL" "hex_upper n \<noteq> NUL"
proof -
  have "hex_lower n \<in> set ''0123456789abcdef''" "hex_upper n \<in> set ''0123456789ABCDEF''"
    unfolding hex_lower_def hex_upper_def by (rule nth_mem, simp)+
  moreover have "NUL \<notin> set ''0123456789abcdef''" "NUL \<notin> set ''0123456789ABCDEF''"
    by simp_all
  ultimately show "hex_lower n \<noteq> NUL" "hex_upper n \<noteq> NUL" by metis+
qed

lemma NUL_not_in_fmt [simp]: "NUL \<notin> set (fmt_02x b)" "NUL \<notin> set (fmt_02X b)"
  using hex_digit_not_NUL by (auto simp: fmt_02x_def fmt_02X_def) metis+

lemma NUL_not_in_hash_hex [simp]: "NUL \<notin> set (hash_hex hash)"
  by (simp add: hash_hex_def)

lemma NUL_not_in_bytes_hex [simp]: "NUL \<notin> set (bytes_hex bs)"
  by (induction bs rule: bytes_hex.induct) simp_all

lemma take_Suc_drop: "i < length xs \<Longrightarrow> take (Suc k) (drop i xs) = xs ! i # take k (drop (Suc i) xs)"
  by (simp add: Cons_nth_drop_Suc [symmetric])

lemma mem_read_1: "i < length xs \<Longrightarrow> mem_read xs i (Suc 0) = Inr [xs ! i]"
  by (simp add: mem_read_def take_Suc_drop)

lemma cvt_sha1_loop_fills:
  assumes "length fin = 2 * offset" "length rest = 2 * k + 1" "k = 0 \<Longrightarrow> rest = [NUL]"
    and "offset + k \<le> length hash"
  shows "cvt_sha1_loop hash (fin @ rest) offset k
       = Inr (fin @ hash_hex (take k (drop offset hash)) @ [NUL])"
  using assms
proof (induction k arbitrary: offset fin rest)
  case 0
  then show ?case by (simp add: hash_hex_def)
next
  case (Suc k)
  let ?d = "fmt_02x (hash ! offset)"
  have "cvt_sha1_loop hash ((fin @ ?d) @ NUL # drop 3 rest) (Suc offset) k
      = Inr ((fin @ ?d) @ hash_hex (take k (drop (Suc offset) hash)) @ [NUL])"
    using Suc.prems by (intro Suc.IH) auto
  moreover have "mem_write (fin @ rest) (2 * offset) (?d @ [NUL])
      = Inr (fin @ (?d @ [NUL]) @ drop (length (?d @ [NUL])) rest)"
    using Suc.prems by (intro mem_write_extend) simp_all
  ultimately show ?case
    using Suc.prems by (simp add: mem_read_1 take_Suc_drop hash_hex_def)
qed

lemma cvt_sha1_to_string_hex:
  "20 \<le> length hash \<Longrightarrow> cvt_sha1_to_string g hash = Inr (hash_hex (take 20 hash) @ [NUL])"
  using cvt_sha1_loop_fills [of "[]" 0 "uninit g 41" 20 hash] by (simp add: cvt_sha1_to_string_def)

lemma bytes_hex_Cons: "bytes_hex (b # bs) = ''0x'' @ fmt_02X b @ (if bs = [] then [] else '' '' @ bytes_hex bs)"
  by (cases bs) simp_all

lemma cvt_bytes_loop_fills:
  assumes "i + k = len" "len \<le> length d" "length fin = p" "5 * k + 1 \<le> length rest"
  shows "\<exists>rest'. cvt_bytes_loop (Some d) len (fin @ rest) p i k
           = Inr (fin @ bytes_hex (take k (drop i d)) @ rest', p + (5 * k - 1))
         \<and> length rest' = length rest - (5 * k - 1)"
  using assms
proof (induction k arbitrary: i p fin rest)
  case 0
  then show ?case by simp
next
  case (Suc k)
  have i: "i < length d" using Suc.prems by simp
  let ?t = "''0x'' @ fmt_02X (d ! i)"
  have w1: "mem_write (fin @ rest) p (?t @ [NUL]) = Inr ((fin @ ?t) @ NUL # drop 5 rest)"
    using Suc.prems mem_write_extend [of fin p "?t @ [NUL]" rest] by simp
  show ?case
  proof (cases "k = 0")
    case True
    then show ?thesis
      using Suc.prems i w1 by (simp add: mem_read_1 take_Suc_drop)
  next
    case False
    have w2: "mem_write ((fin @ ?t) @ NUL # drop 5 rest) (p + 4) '' ''
        = Inr ((fin @ ?t @ '' '') @ drop 5 rest)"
      using Suc.prems mem_write_extend [of "fin @ ?t" "p + 4" "'' ''" "NUL # drop 5 rest"] by simp
    have room: "5 * k + 1 \<le> length (drop 5 rest)" using Suc.prems by simp
    obtain rest' where
      "cvt_bytes_loop (Some d) len ((fin @ ?t @ '' '') @ drop 5 rest) (p + 5) (Suc i) k
        = Inr ((fin @ ?t @ '' '') @ bytes_hex (take k (drop (Suc i) d)) @ rest', p + 5 + (5 * k - 1))"
      and "length rest' = length (drop 5 rest) - (5 * k - 1)"
      using Suc.IH [of "Suc i" "fin @ ?t @ '' ''" "p + 5", OF _ _ _ room] Suc.prems by auto
    moreover have "take k (drop (Suc i) d) \<noteq> []"
      using False Suc.prems by simp
    ultimately show ?thesis
      using Suc.prems False i w1 w2
      by (simp add: mem_read_1 take_Suc_drop bytes_hex_Cons Let_def ac_simps)
  qed
qed

lemma cvt_bytes_to_hex_text:
  assumes "\<And>d. data = Some d \<Longrightarrow> len \<le> length d" and "data = None \<Longrightarrow> len = 0"
  shows "\<exists>pad. cvt_bytes_to_hex g True data len
           = Inr (Some (bytes_hex (take len (case data of None \<Rightarrow> [] | Some d \<Rightarrow> d)) @ NUL # pad), 5 * len - 1)"
proof (cases "len = 0")
  case True
  then show ?thesis by (simp add: cvt_bytes_to_hex_def mem_write_start)
next
  case False
  then obtain d where d: "data = Some d" "len \<le> length d"
    using assms by (cases data) auto
  obtain rest where loop: "cvt_bytes_loop (Some d) len (uninit g (len * 5 + 1)) 0 0 len
      = Inr (bytes_hex (take len d) @ rest, 5 * len - 1)" and rest: "length rest = 2"
    using cvt_bytes_loop_fills [of 0 len len d "[]" 0 "uninit g (len * 5 + 1)"] d False by auto
  have "mem_write (bytes_hex (take len d) @ rest) (5 * len - 1) [NUL]
      = Inr (bytes_hex (take len d) @ [NUL] @ drop 1 rest)"
    using mem_write_extend [of "bytes_hex (take len d)" "5 * len - 1" "[NUL]" rest] rest d
    by (simp add: length_bytes_hex)
  then show ?thesis
    unfolding cvt_bytes_to_hex_def d(1) loop by simp
qed

subsection \<open>Properties\<close>

text \<open>The hash printer stays inside its 41-byte block whatever the block held, and
  leaves exactly the 40 hexadecimal digits of the 20 hash bytes and the
  terminating zero in it.\<close>

lemma cvt_sha1_exact:
  assumes "20 \<le> length hash"
  shows "cvt_sha1_to_string g hash = Inr (hash_hex (take 20 hash) @ [NUL])
         \<and> length (hash_hex (take 20 hash)) = 40 \<and> NUL \<notin> set (hash_hex (take 20 hash))"
  using assms by (simp add: cvt_sha1_to_string_hex)

lemma cvt_sha1_exact_witness:
  "20 \<le> length (replicate 20 (0xA9 :: byte)) \<and>
   cvt_sha1_to_string (\<lambda>_. CHR ''z'') (replicate 20 0xA9)
     = Inr (''a9a9a9a9a9a9a9a9a9a9a9a9a9a9a9a9a9a9a9a9'' @ [NUL])"
proof -
  have "hash_hex (take 20 (replicate 20 0xA9)) = ''a9a9a9a9a9a9a9a9a9a9a9a9a9a9a9a9a9a9a9a9''"
    by code_simp
  then show ?thesis
    using cvt_sha1_exact [of "replicate 20 0xA9" "\<lambda>_. CHR ''z''"] by simp
qed

text \<open>The payload printer stays inside its block of \<open>5 * len + 1\<close> bytes, writes the
  bytes as \<open>0xNN\<close> separated by single spaces, and returns the length of that
  text: \<open>5 * len - 1\<close>, and 0 for an empty payload, whose pointer may be null.\<close>

lemma cvt_bytes_exact:
  assumes "\<And>d. data = Some d \<Longrightarrow> len \<le> length d" and "data = None \<Longrightarrow> len = 0"
  shows "\<exists>pad. cvt_bytes_to_hex g True data len
           = Inr (Some (bytes_hex (take len (case data of None \<Rightarrow> [] | Some d \<Rightarrow> d)) @ NUL # pad), 5 * len - 1)"
  using assms by (rule cvt_bytes_to_hex_text)

lemma cvt_bytes_exact_witness:
  "\<exists>pad. cvt_bytes_to_hex (\<lambda>_. CHR ''z'') True (Some [0x0F, 0xA0]) 2
           = Inr (Some (''0x0F 0xA0'' @ NUL # pad), 9)"
  using cvt_bytes_exact [of "Some [0x0F, 0xA0]" 2 "\<lambda>_. CHR ''z''"]
  by (simp add: fmt_02X_def hex_upper_def)

end
