(* ===== verification/Packet.thy ===== *)
theory Packet
  imports Convert
begin

text \<open>
  \<open>src/src/packet/packet.c\<close> with \<open>packet.h\<close> and \<open>types.h\<close>: the packet structure,
  its parser, its serialiser, the constructor and the debug printer. The wire
  format is a 26-byte header (version, type, request id, 20-byte sender hash,
  payload length, the two 16-bit fields in network order) and the payload.

  Reads and writes go through the bounded blocks of the prelude, so that "no
  access outside a buffer" is part of what the theorems say. Allocations the
  code does not check are taken to succeed; \<open>g\<close> is the initial contents of the
  allocated block.
\<close>

subsection \<open>Types\<close>

datatype packet_type_t = CMD_HELLO | CMD_WELCOME | CMD_UPDATE | CMD_ERROR | CMD_PING

text \<open>The enumeration starts at 1.\<close>

primrec type_code :: "packet_type_t \<Rightarrow> byte" where
  "type_code CMD_HELLO = 1"
| "type_code CMD_WELCOME = 2"
| "type_code CMD_UPDATE = 3"
| "type_code CMD_ERROR = 4"
| "type_code CMD_PING = 5"

record packet_t =
  version :: byte
  ptype :: byte
  req_id :: u16
  sender_node_hash :: "byte list"
  payload_len :: u16
  payload :: "byte list option"

abbreviation HEADER_SIZE :: nat where
  "HEADER_SIZE \<equiv> 26"

subsection \<open>Operations\<close>

text \<open>\<open>packet_from_bytes\<close>: \<open>None\<close> is the null packet of a failed parse.\<close>

definition packet_from_bytes :: "byte list \<Rightarrow> nat \<Rightarrow> packet_t option faulty" where
  "packet_from_bytes bytes len =
     (if len < HEADER_SIZE then Inr None
      else
        fault_bind (mem_read bytes 0 1) (\<lambda>v.
        fault_bind (mem_read bytes 1 1) (\<lambda>t.
        fault_bind (mem_read bytes 2 2) (\<lambda>req_raw.
        fault_bind (mem_read bytes 4 20) (\<lambda>h.
        fault_bind (mem_read bytes 24 2) (\<lambda>payload_raw.
        let plen = ntohs (le_word payload_raw) :: u16;
            pack = \<lparr>version = hd v, ptype = hd t, req_id = ntohs (le_word req_raw),
                    sender_node_hash = h, payload_len = plen, payload = None\<rparr>
        in if len < HEADER_SIZE + unat plen then Inr None
           else if 0 < plen
           then fault_bind (mem_read bytes HEADER_SIZE (unat plen)) (\<lambda>pl.
                Inr (Some (pack\<lparr>payload := Some pl\<rparr>)))
           else Inr (Some pack)))))))"

text \<open>\<open>packet_to_bytes\<close>: the result is the output block, whose length is the
  returned \<open>total_len\<close>.\<close>

definition packet_to_bytes :: "(nat \<Rightarrow> byte) \<Rightarrow> packet_t \<Rightarrow> byte list faulty" where
  "packet_to_bytes g p =
     (let total_len = HEADER_SIZE + unat (payload_len p) in
      fault_bind (mem_write (uninit g total_len) 0 [version p]) (\<lambda>b1.
      fault_bind (mem_write b1 1 [ptype p]) (\<lambda>b2.
      fault_bind (mem_write b2 2 (le_bytes 2 (htons (req_id p)))) (\<lambda>b3.
      fault_bind (mem_read (sender_node_hash p) 0 20) (\<lambda>h.
      fault_bind (mem_write b3 4 h) (\<lambda>b4.
      fault_bind (mem_write b4 24 (le_bytes 2 (htons (payload_len p)))) (\<lambda>b5.
      if 0 < payload_len p
      then fault_bind (ptr_read (payload p) (unat (payload_len p))) (\<lambda>pl.
           mem_write b5 HEADER_SIZE pl)
      else Inr b5)))))))"

text \<open>\<open>packet_new\<close> stamps the packet with the hash of the global node, whose
  pointer is null until \<open>main\<close> sets it.\<close>

definition packet_new ::
    "byte list option \<Rightarrow> byte \<Rightarrow> packet_type_t \<Rightarrow> u16 \<Rightarrow> byte list option \<Rightarrow> u16 \<Rightarrow> packet_t faulty" where
  "packet_new global_node ver ty rid pl pl_length =
     fault_bind (ptr_read pl (unat pl_length)) (\<lambda>d.
     case global_node of None \<Rightarrow> Inl Null_Deref
     | Some hash \<Rightarrow> fault_bind (mem_read hash 0 20) (\<lambda>h.
         Inr \<lparr>version = ver, ptype = type_code ty, req_id = rid, sender_node_hash = h,
              payload_len = pl_length, payload = Some d\<rparr>))"

text \<open>\<open>packet_destroy\<close>: the blocks it frees, in order.\<close>

datatype packet_block = Payload_Block "byte list" | Packet_Block

definition packet_destroy :: "packet_t option \<Rightarrow> packet_block list" where
  "packet_destroy packet =
     (case packet of None \<Rightarrow> []
      | Some p \<Rightarrow> (case payload p of None \<Rightarrow> [] | Some d \<Rightarrow> [Payload_Block d]) @ [Packet_Block])"

text \<open>\<open>packet_to_string\<close> prints into a fixed block of 512 bytes. The two helper
  strings are read up to their terminating zero.\<close>

definition c_text :: "string \<Rightarrow> string" where
  "c_text s = takeWhile (\<lambda>c. c \<noteq> NUL) s"

definition packet_text :: "packet_t \<Rightarrow> string \<Rightarrow> string \<Rightarrow> string" where
  "packet_text p sender pl =
     ''V=['' @ fmt_u (unat (version p)) @ ''] T=['' @ fmt_u (unat (ptype p)) @
     ''] REQ=['' @ fmt_u (unat (req_id p)) @ ''] SENDER=['' @ sender @
     ''] PAYLEN=['' @ fmt_u (unat (payload_len p)) @ ''] PAYLOAD=['' @ pl @ '']''"

definition packet_to_string :: "(nat \<Rightarrow> char) \<Rightarrow> packet_t \<Rightarrow> string faulty" where
  "packet_to_string g p =
     fault_bind (cvt_sha1_to_string g (sender_node_hash p)) (\<lambda>sender.
     fault_bind (cvt_bytes_to_hex g True (payload p) (unat (payload_len p))) (\<lambda>(pl, _).
     case pl of None \<Rightarrow> Inl Null_Deref
     | Some pl_str \<Rightarrow>
         mem_write (uninit g 512) 0 (packet_text p (c_text sender) (c_text pl_str) @ [NUL])))"

subsection \<open>Well-formed packets and the wire format\<close>

definition packet_wf :: "packet_t \<Rightarrow> bool" where
  "packet_wf p \<longleftrightarrow> length (sender_node_hash p) = 20 \<and>
     (case payload p of None \<Rightarrow> payload_len p = 0 | Some d \<Rightarrow> length d = unat (payload_len p))"

abbreviation payload_bytes :: "packet_t \<Rightarrow> byte list" where
  "payload_bytes p \<equiv> (case payload p of None \<Rightarrow> [] | Some d \<Rightarrow> d)"

definition wire :: "packet_t \<Rightarrow> byte list" where
  "wire p = [version p, ptype p] @ le_bytes 2 (htons (req_id p)) @ sender_node_hash p
              @ le_bytes 2 (htons (payload_len p)) @ payload_bytes p"

text \<open>The parser never leaves an allocated empty payload: an empty one is null.\<close>

definition packet_norm :: "packet_t \<Rightarrow> packet_t" where
  "packet_norm p = (if payload_len p = 0 then p\<lparr>payload := None\<rparr> else p)"

lemma payload_bytes_length: "packet_wf p \<Longrightarrow> length (payload_bytes p) = unat (payload_len p)"
  by (auto simp: packet_wf_def split: option.splits)

lemma length_wire: "packet_wf p \<Longrightarrow> length (wire p) = HEADER_SIZE + unat (payload_len p)"
  using payload_bytes_length [of p] by (simp add: wire_def packet_wf_def)

lemma ptr_read_payload:
  "packet_wf p \<Longrightarrow> ptr_read (payload p) (unat (payload_len p)) = Inr (payload_bytes p)"
  by (auto simp: packet_wf_def ptr_read_def mem_read_def split: option.splits)

lemma packet_to_bytes_wire:
  assumes wf: "packet_wf p"
  shows "packet_to_bytes g p = Inr (wire p)"
proof -
  define n where "n = unat (payload_len p)"
  define buf where "buf = uninit g (HEADER_SIZE + n)"
  define r where "r = le_bytes 2 (htons (req_id p))"
  define l where "l = le_bytes 2 (htons (payload_len p))"
  define h where "h = sender_node_hash p"
  have len: "length buf = HEADER_SIZE + n" "length r = 2" "length l = 2" "length h = 20"
    using wf by (simp_all add: buf_def r_def l_def h_def packet_wf_def)
  have w1: "mem_write buf 0 [version p] = Inr ([version p] @ drop 1 buf)"
    using mem_write_start [of "[version p]" buf] len by simp
  have w2: "mem_write ([version p] @ drop 1 buf) 1 [ptype p]
      = Inr ([version p, ptype p] @ drop 2 buf)"
    using mem_write_extend [of "[version p]" 1 "[ptype p]" "drop 1 buf"] len
    by (simp add: numeral_2_eq_2)
  have w3: "mem_write ([version p, ptype p] @ drop 2 buf) 2 r
      = Inr (([version p, ptype p] @ r) @ drop 4 buf)"
    using mem_write_extend [of "[version p, ptype p]" 2 r "drop 2 buf"] len by simp
  have w4: "mem_write (([version p, ptype p] @ r) @ drop 4 buf) 4 h
      = Inr (([version p, ptype p] @ r @ h) @ drop 24 buf)"
    using mem_write_extend [of "[version p, ptype p] @ r" 4 h "drop 4 buf"] len by simp
  have w5: "mem_write (([version p, ptype p] @ r @ h) @ drop 24 buf) 24 l
      = Inr (([version p, ptype p] @ r @ h @ l) @ drop 26 buf)"
    using mem_write_extend [of "[version p, ptype p] @ r @ h" 24 l "drop 24 buf"] len by simp
  have w6: "mem_write (([version p, ptype p] @ r @ h @ l) @ drop 26 buf) 26 (payload_bytes p)
      = Inr (wire p)"
    using mem_write_extend [of "[version p, ptype p] @ r @ h @ l" 26 "payload_bytes p" "drop 26 buf"]
      len payload_bytes_length [OF wf] by (simp add: wire_def r_def l_def h_def n_def)
  have rh: "mem_read (sender_node_hash p) 0 20 = Inr h"
    using len by (simp add: mem_read_def h_def)
  have "([version p, ptype p] @ r @ h @ l) @ drop 26 buf = wire p" if "payload_len p = 0"
    using that payload_bytes_length [OF wf] len by (simp add: wire_def r_def l_def h_def n_def)
  moreover have "0 < payload_len p" if "payload_len p \<noteq> 0"
    using that by (simp add: word_neq_0_conv)
  ultimately show ?thesis
    unfolding packet_to_bytes_def Let_def n_def [symmetric] buf_def [symmetric]
      r_def [symmetric] l_def [symmetric] w1 w2 w3 w4 w5 rh fault_bind_simps
    using w6 ptr_read_payload [OF wf] by (auto simp: n_def)
qed

text \<open>Parsing what the wire format puts at the front of a buffer.\<close>

lemma wire_fields:
  fixes rest :: "byte list"
  assumes wf: "packet_wf p"
  defines bs_def: "bs \<equiv> wire p @ rest"
  shows "mem_read bs 0 1 = Inr [version p]" "mem_read bs 1 1 = Inr [ptype p]"
    "mem_read bs 2 2 = Inr (le_bytes 2 (htons (req_id p)))"
    "mem_read bs 4 20 = Inr (sender_node_hash p)"
    "mem_read bs 24 2 = Inr (le_bytes 2 (htons (payload_len p)))"
    "mem_read bs 26 (unat (payload_len p)) = Inr (payload_bytes p)"
proof -
  have h: "length (sender_node_hash p) = 20" using wf by (simp add: packet_wf_def)
  note pl = payload_bytes_length [OF wf]
  show "mem_read bs 0 1 = Inr [version p]" "mem_read bs 1 1 = Inr [ptype p]"
    by (simp_all add: bs_def wire_def mem_read_def)
  show "mem_read bs 2 2 = Inr (le_bytes 2 (htons (req_id p)))"
    using u16_net.read_field [of "[version p, ptype p]" 2 "req_id p"]
    by (simp add: bs_def wire_def)
  show "mem_read bs 4 20 = Inr (sender_node_hash p)"
    using hash_field.read_field [of "sender_node_hash p"
        "[version p, ptype p] @ le_bytes 2 (htons (req_id p))" 4] h
    by (simp add: bs_def wire_def)
  show "mem_read bs 24 2 = Inr (le_bytes 2 (htons (payload_len p)))"
    using u16_net.read_field [of "[version p, ptype p] @ le_bytes 2 (htons (req_id p)) @ sender_node_hash p"
        24 "payload_len p"] h
    by (simp add: bs_def wire_def)
  show "mem_read bs 26 (unat (payload_len p)) = Inr (payload_bytes p)"
    using mem_read_append [of "[version p, ptype p] @ le_bytes 2 (htons (req_id p)) @ sender_node_hash p
        @ le_bytes 2 (htons (payload_len p))" 26 "payload_bytes p" "unat (payload_len p)" rest] h pl
    by (simp add: bs_def wire_def)
qed

lemma packet_from_wire:
  assumes wf: "packet_wf p" and len: "HEADER_SIZE + unat (payload_len p) \<le> len"
  shows "packet_from_bytes (wire p @ rest) len = Inr (Some (packet_norm p))"
proof -
  have pl: "payload p = Some (payload_bytes p)" if "payload_len p \<noteq> 0"
    using wf that by (auto simp: packet_wf_def split: option.splits)
  show ?thesis
    unfolding packet_from_bytes_def wire_fields [OF wf] fault_bind_simps u16_net.dec_enc [OF TrueI]
    using len pl wire_fields(6) [OF wf, of rest]
    by (auto simp: packet_norm_def Let_def word_gt_0 simp del: option.case_eq_if)
qed
text \<open>Every accepted buffer starts with the wire form of the packet it parses to.\<close>

lemma le_bytes_2_read: "mem_read bs off 2 = Inr raw \<Longrightarrow> le_bytes 2 (le_word raw :: u16) = raw"
  using le_bytes_le_word [of raw, where 'a = 16] mem_read_length [of bs off 2 raw] by simp

lemma take_five:
  "26 + n \<le> length bs \<Longrightarrow>
   take (26 + n) bs = take 1 bs @ take 1 (drop 1 bs) @ take 2 (drop 2 bs) @ take 20 (drop 4 bs)
     @ take 2 (drop 24 bs) @ take n (drop 26 bs)"
proof -
  have n: "26 + n = 1 + (1 + (2 + (20 + (2 + n))))" by simp
  show ?thesis
    unfolding n take_add drop_drop by (simp only: add_num_simps numeral_plus_numeral one_add_one
      numeral_plus_one semiring_norm)
qed

lemma packet_from_bytes_inv:
  assumes parse: "packet_from_bytes bytes len = Inr (Some p)" and len: "len \<le> length bytes"
  shows "packet_wf p \<and> HEADER_SIZE + unat (payload_len p) \<le> len
         \<and> take (HEADER_SIZE + unat (payload_len p)) bytes = wire p \<and> packet_norm p = p"
proof -
  have hd: "HEADER_SIZE \<le> len"
    using parse by (auto simp: packet_from_bytes_def split: if_splits)
  define req_raw where "req_raw = take 2 (drop 2 bytes)"
  define pl_raw where "pl_raw = take 2 (drop 24 bytes)"
  define plen where "plen = (ntohs (le_word pl_raw) :: u16)"
  define n where "n = unat plen"
  have reads: "mem_read bytes 0 1 = Inr (take 1 bytes)"
    "mem_read bytes 1 1 = Inr (take 1 (drop 1 bytes))" "mem_read bytes 2 2 = Inr req_raw"
    "mem_read bytes 4 20 = Inr (take 20 (drop 4 bytes))" "mem_read bytes 24 2 = Inr pl_raw"
    using hd len by (simp_all add: mem_read_def req_raw_def pl_raw_def)
  have fits: "HEADER_SIZE + n \<le> len"
    using parse hd unfolding packet_from_bytes_def reads fault_bind_simps Let_def
    by (auto simp: n_def plen_def split: if_splits)
  have p: "p = \<lparr>version = hd (take 1 bytes), ptype = hd (take 1 (drop 1 bytes)),
       req_id = ntohs (le_word req_raw), sender_node_hash = take 20 (drop 4 bytes), payload_len = plen,
       payload = (if 0 < plen then Some (take n (drop 26 bytes)) else None)\<rparr>"
    using parse hd fits len unfolding packet_from_bytes_def reads fault_bind_simps Let_def
    by (auto simp: n_def plen_def mem_read_def split: if_splits)
  have "hd (take 1 bytes) # [] = take 1 bytes" "hd (take 1 (drop 1 bytes)) # [] = take 1 (drop 1 bytes)"
    using hd len by (cases bytes; cases "tl bytes"; simp)+
  moreover have "le_bytes 2 (le_word req_raw :: u16) = req_raw" "le_bytes 2 (le_word pl_raw :: u16) = pl_raw"
    using reads by (auto intro: le_bytes_2_read)
  moreover have "n = 0 \<longleftrightarrow> plen = 0" by (simp add: n_def unat_eq_0)
  ultimately have "take (HEADER_SIZE + n) bytes = wire p"
    using fits len
    by (subst take_five) (auto simp: p wire_def plen_def [symmetric] req_raw_def pl_raw_def
        word_gt_0 plen_def)
  moreover have "packet_wf p" "payload_len p = plen" "packet_norm p = p"
    using fits len by (auto simp: p packet_wf_def packet_norm_def n_def word_gt_0)
  ultimately show ?thesis
    using fits by (simp add: n_def)
qed
subsection \<open>Rejection, construction, printing\<close>

text \<open>The payload length field as the parser reads it.\<close>

definition declared_len :: "byte list \<Rightarrow> nat" where
  "declared_len bytes = unat (ntohs (le_word (take 2 (drop 24 bytes))) :: u16)"

lemma packet_from_bytes_cases:
  assumes "len \<le> length bytes"
  shows "packet_from_bytes bytes len =
           (if len < HEADER_SIZE \<or> len < HEADER_SIZE + declared_len bytes then Inr None
            else Inr (Some \<lparr>version = bytes ! 0, ptype = bytes ! 1,
                   req_id = ntohs (le_word (take 2 (drop 2 bytes))),
                   sender_node_hash = take 20 (drop 4 bytes),
                   payload_len = word_of_nat (declared_len bytes),
                   payload = (if declared_len bytes = 0 then None
                              else Some (take (declared_len bytes) (drop 26 bytes)))\<rparr>))"
proof (cases "len < HEADER_SIZE")
  case True
  then show ?thesis by (simp add: packet_from_bytes_def)
next
  case False
  then have len: "26 \<le> length bytes" using assms by simp
  then have "bytes \<noteq> []" by auto
  then have h: "hd (take 1 bytes) = bytes ! 0" "hd (take 1 (drop 1 bytes)) = bytes ! 1"
    using len hd_conv_nth [of "take 1 bytes"] hd_conv_nth [of "take 1 (drop 1 bytes)"] by auto
  have reads: "mem_read bytes 0 1 = Inr (take 1 bytes)"
    "mem_read bytes 1 1 = Inr (take 1 (drop 1 bytes))" "mem_read bytes 2 2 = Inr (take 2 (drop 2 bytes))"
    "mem_read bytes 4 20 = Inr (take 20 (drop 4 bytes))" "mem_read bytes 24 2 = Inr (take 2 (drop 24 bytes))"
    using len by (simp_all add: mem_read_def)
  show ?thesis
    unfolding packet_from_bytes_def reads fault_bind_simps Let_def h
    using False assms by (auto simp: declared_len_def mem_read_def word_gt_0 unat_eq_0)
qed

lemma packet_new_ok:
  assumes "length hash = 20" and "ptr_read pl (unat n) = Inr d"
  shows "packet_new (Some hash) ver ty rid pl n
         = Inr \<lparr>version = ver, ptype = type_code ty, req_id = rid, sender_node_hash = hash,
               payload_len = n, payload = Some d\<rparr>"
  using assms by (simp add: packet_new_def mem_read_def)

lemma ptr_read_length: "ptr_read pl n = Inr d \<Longrightarrow> length d = n"
  by (auto simp: ptr_read_def mem_read_def split: if_splits option.splits)

lemma packet_new_wf:
  assumes "packet_new gn ver ty rid pl n = Inr p"
  shows "packet_wf p"
proof -
  from assms obtain d hash h where "ptr_read pl (unat n) = Inr d" "gn = Some hash"
    "mem_read hash 0 20 = Inr h"
    "p = \<lparr>version = ver, ptype = type_code ty, req_id = rid, sender_node_hash = h,
          payload_len = n, payload = Some d\<rparr>"
    by (auto simp: packet_new_def fault_bind_eq_Inr split: option.splits)
  then show ?thesis
    by (simp add: packet_wf_def ptr_read_length mem_read_length)
qed

lemma fmt_u_nonempty [simp]: "fmt_u n \<noteq> []"
  by (subst fmt_u.simps) simp

lemma length_fmt_u_le: "n < 10 ^ k \<Longrightarrow> 0 < k \<Longrightarrow> length (fmt_u n) \<le> k"
proof (induction k arbitrary: n)
  case 0
  then show ?case by simp
next
  case (Suc k)
  show ?case
  proof (cases "n < 10")
    case True
    then show ?thesis by (simp add: fmt_u.simps [of n])
  next
    case False
    then have "0 < k" using Suc.prems by (cases k) auto
    moreover have "n div 10 < 10 ^ k"
      using Suc.prems by (simp add: less_mult_imp_div_less mult.commute)
    ultimately have "length (fmt_u (n div 10)) \<le> k" using Suc.IH by simp
    with False show ?thesis by (simp add: fmt_u.simps [of n])
  qed
qed

lemma length_fmt_u_ge2: "10 \<le> n \<Longrightarrow> 2 \<le> length (fmt_u n)"
  by (subst fmt_u.simps) (simp add: Suc_le_eq)

lemma length_fmt_u_ge1: "1 \<le> length (fmt_u n)"
  by (simp add: Suc_le_eq)

lemma c_text_append_NUL [simp]: "NUL \<notin> set s \<Longrightarrow> c_text (s @ NUL # rest) = s"
  unfolding c_text_def by (subst takeWhile_append2) auto

abbreviation full_text :: "packet_t \<Rightarrow> string" where
  "full_text p \<equiv> packet_text p (hash_hex (sender_node_hash p)) (bytes_hex (payload_bytes p))"

lemma packet_to_string_write:
  assumes wf: "packet_wf p"
  shows "packet_to_string g p = mem_write (uninit g 512) 0 (full_text p @ [NUL])"
proof -
  have h: "length (sender_node_hash p) = 20" using wf by (simp add: packet_wf_def)
  then have s: "cvt_sha1_to_string g (sender_node_hash p) = Inr (hash_hex (sender_node_hash p) @ [NUL])"
    by (simp add: cvt_sha1_to_string_hex)
  obtain pad where b: "cvt_bytes_to_hex g True (payload p) (unat (payload_len p))
      = Inr (Some (bytes_hex (payload_bytes p) @ NUL # pad), 5 * unat (payload_len p) - 1)"
    using cvt_bytes_to_hex_text [of "payload p" "unat (payload_len p)" g] wf
    by (auto simp: packet_wf_def split: option.splits)
  show ?thesis
    unfolding packet_to_string_def s b by simp
qed

lemma length_full_text:
  assumes "packet_wf p"
  shows "length (full_text p) = 87 + length (fmt_u (unat (version p))) + length (fmt_u (unat (ptype p)))
           + length (fmt_u (unat (req_id p))) + length (fmt_u (unat (payload_len p)))
           + (5 * unat (payload_len p) - 1)"
  using assms payload_bytes_length [OF assms]
  by (simp add: packet_text_def packet_wf_def length_bytes_hex)

lemma byte_u16_bounds: "unat (b :: byte) < 10 ^ 3" "unat (w :: u16) < 10 ^ 5"
proof -
  have "unat b < 2 ^ 8" "unat w < 2 ^ 16"
    by (rule order_less_le_trans [OF unsigned_less], simp)+
  then show "unat b < 10 ^ 3" "unat w < 10 ^ 5" by simp_all
qed

lemma full_text_short:
  assumes wf: "packet_wf p" and n: "unat (payload_len p) \<le> 82"
  shows "length (full_text p) < 512"
proof -
  have "length (fmt_u (unat (version p))) \<le> 3" "length (fmt_u (unat (ptype p))) \<le> 3"
    "length (fmt_u (unat (req_id p))) \<le> 5" "length (fmt_u (unat (payload_len p))) \<le> 2"
    using n byte_u16_bounds by (intro length_fmt_u_le; simp)+
  then show ?thesis
    unfolding length_full_text [OF wf] using n by linarith
qed

lemma full_text_long:
  assumes wf: "packet_wf p" and n: "85 \<le> unat (payload_len p)"
  shows "512 \<le> length (full_text p)"
proof -
  have "2 \<le> length (fmt_u (unat (payload_len p)))"
    using n by (intro length_fmt_u_ge2) simp
  then show ?thesis
    unfolding length_full_text [OF wf]
    using n length_fmt_u_ge1 [of "unat (version p)"] length_fmt_u_ge1 [of "unat (ptype p)"]
      length_fmt_u_ge1 [of "unat (req_id p)"]
    by linarith
qed

lemma packet_print_ok:
  "packet_wf p \<Longrightarrow> unat (payload_len p) \<le> 82 \<Longrightarrow>
   \<exists>pad. packet_to_string g p = Inr (full_text p @ NUL # pad)"
  using full_text_short [of p] by (simp add: packet_to_string_write mem_write_start)

lemma packet_print_faults:
  "packet_wf p \<Longrightarrow> 85 \<le> unat (payload_len p) \<Longrightarrow> packet_to_string g p = Inl Out_Of_Bounds"
  using full_text_long [of p] by (simp add: packet_to_string_write mem_write_def)

subsection \<open>Properties\<close>

definition sample_packet :: packet_t where
  "sample_packet = \<lparr>version = 1, ptype = 5, req_id = 0x1234, sender_node_hash = replicate 20 0xAB,
     payload_len = 4, payload = Some [0x50, 0x4F, 0x4E, 0x47]\<rparr>"

lemma sample_packet_wf [simp]: "packet_wf sample_packet"
  by (simp add: sample_packet_def packet_wf_def)

text \<open>C2. Round trip of the wire format: serialising a well-formed packet touches
  nothing outside its buffers, and parsing the result, also when other bytes
  follow it in the buffer, gives the packet back (an empty payload comes back as
  the null payload).\<close>

theorem packet_roundtrip:
  assumes "packet_wf p"
  shows "\<exists>bytes. packet_to_bytes g p = Inr bytes \<and> length bytes = HEADER_SIZE + unat (payload_len p)
           \<and> packet_from_bytes (bytes @ rest) (length (bytes @ rest)) = Inr (Some (packet_norm p))"
  using packet_to_bytes_wire [OF assms] length_wire [OF assms] packet_from_wire [OF assms]
  by simp

theorem packet_roundtrip_witness:
  "packet_wf sample_packet \<and> (\<exists>bytes. packet_to_bytes (\<lambda>_. 7) sample_packet = Inr bytes \<and> length bytes = 30
     \<and> packet_from_bytes (bytes @ [9]) (length (bytes @ [9])) = Inr (Some sample_packet))"
  using packet_roundtrip [of sample_packet "\<lambda>_. 7" "[9]"]
  by (simp add: packet_norm_def) (simp add: sample_packet_def)

text \<open>C25. Parsing inverts: a buffer the parser accepts begins with exactly the bytes the
  serialiser produces for the parsed packet, and that packet is well formed.\<close>

theorem packet_parse_sound:
  assumes "packet_from_bytes bytes len = Inr (Some p)" and "len \<le> length bytes"
  shows "packet_wf p \<and> HEADER_SIZE + unat (payload_len p) \<le> len
         \<and> packet_to_bytes g p = Inr (take (HEADER_SIZE + unat (payload_len p)) bytes)"
  using packet_from_bytes_inv [OF assms] packet_to_bytes_wire by simp

theorem packet_parse_sound_witness:
  "packet_to_bytes (\<lambda>_. 0) \<lparr>version = 1, ptype = 5, req_id = 0, sender_node_hash = replicate 20 0,
      payload_len = 0, payload = None\<rparr> = Inr ([1, 5] @ replicate 24 0)"
proof -
  let ?bs = "[1, 5] @ replicate 24 0 :: byte list"
  have "packet_from_bytes ?bs 26 = Inr (Some \<lparr>version = 1, ptype = 5, req_id = 0,
      sender_node_hash = replicate 20 0, payload_len = 0, payload = None\<rparr>)"
    by code_simp
  from packet_parse_sound [OF this, of "\<lambda>_. 0"] show ?thesis by simp
qed

text \<open>C26. The parser is total and memory-safe on every buffer: it reads only the first
  \<open>len\<close> bytes, and it rejects exactly the buffers shorter than the header or than
  the header and the payload length the header declares.\<close>

theorem packet_parse_total:
  assumes "len \<le> length bytes"
  shows "no_fault (packet_from_bytes bytes len) \<and>
         (packet_from_bytes bytes len = Inr None \<longleftrightarrow>
            len < HEADER_SIZE \<or> len < HEADER_SIZE + declared_len bytes)"
  by (simp add: packet_from_bytes_cases [OF assms])

theorem packet_parse_total_witness:
  "packet_from_bytes (replicate 24 0 @ [0, 3, 1, 1]) 28 = Inr None"
proof -
  have "declared_len (replicate 24 0 @ [0, 3, 1, 1]) = 3" by code_simp
  then show ?thesis
    using packet_parse_total [of 28 "replicate 24 0 @ [0, 3, 1, 1]"] by simp
qed

text \<open>A packet made by \<open>packet_new\<close> is well formed, so it can be serialised and
  parsed back; the call dereferences the global node, so it faults exactly when
  the node is not set yet (with a readable payload).\<close>

lemma packet_new_contract:
  assumes "ptr_read pl (unat n) = Inr d" and "\<And>h. gn = Some h \<Longrightarrow> length h = 20"
  shows "(gn = None \<and> packet_new gn ver ty rid pl n = Inl Null_Deref) \<or>
         (\<exists>h p. gn = Some h \<and> packet_new gn ver ty rid pl n = Inr p \<and> packet_wf p
            \<and> wire p = [ver, type_code ty] @ le_bytes 2 (htons rid) @ h @ le_bytes 2 (htons n) @ d)"
proof (cases gn)
  case None
  then show ?thesis using assms(1) by (simp add: packet_new_def)
next
  case (Some h)
  then have "packet_new gn ver ty rid pl n = Inr \<lparr>version = ver, ptype = type_code ty, req_id = rid,
      sender_node_hash = h, payload_len = n, payload = Some d\<rparr>"
    using assms by (simp add: packet_new_ok)
  with Some packet_new_wf show ?thesis by (fastforce simp: wire_def)
qed

lemma packet_new_contract_witness:
  "ptr_read None (unat (0 :: u16)) = Inr ([] :: byte list) \<and>
   packet_new None 1 CMD_ERROR 0 None 0 = Inl Null_Deref"
  using packet_new_contract [of None 0 "[]" None 1 CMD_ERROR 0] by (simp add: ptr_read_def)

text \<open>The debug printer fits its fixed 512-byte block for every packet with at
  most 82 payload bytes.\<close>

lemma packet_print_fits:
  assumes "packet_wf p" and "unat (payload_len p) \<le> 82"
  shows "\<exists>pad. packet_to_string g p = Inr (full_text p @ NUL # pad)"
  using assms by (rule packet_print_ok)

lemma packet_print_fits_witness:
  "\<exists>pad. packet_to_string (\<lambda>_. NUL) sample_packet = Inr (full_text sample_packet @ NUL # pad)"
proof -
  have "unat (payload_len sample_packet) \<le> 82" by (simp add: sample_packet_def)
  from packet_print_fits [OF sample_packet_wf this] show ?thesis .
qed

text \<open>The debug printer overruns its 512-byte block for every well-formed packet
  with 85 or more payload bytes.\<close>

lemma packet_print_overflows:
  assumes "packet_wf p" and "85 \<le> unat (payload_len p)"
  shows "packet_to_string g p = Inl Out_Of_Bounds"
  using assms by (rule packet_print_faults)

definition large_packet :: packet_t where
  "large_packet = \<lparr>version = 1, ptype = 5, req_id = 0, sender_node_hash = replicate 20 0,
     payload_len = 85, payload = Some (replicate 85 0)\<rparr>"

lemma packet_print_overflows_witness:
  "packet_wf large_packet \<and> packet_to_string (\<lambda>_. NUL) large_packet = Inl Out_Of_Bounds"
  using packet_print_overflows [of large_packet "\<lambda>_. NUL"]
  by (simp add: large_packet_def packet_wf_def)

end
