(* ===== verification/Request_Handler.thy ===== *)
theory Request_Handler
  imports Packet
begin

text \<open>
  What the node answers to a datagram: the command table of
  \<open>src/src/node/load_commands.c\<close>, the ping command of
  \<open>src/src/node/commands/ping.command.c\<close> and the request handler of
  \<open>src/src/node/request_handler.c\<close>.

  A function pointer of the table is a value of \<open>command\<close>, the null pointer \<open>None\<close>.
  \<open>gn\<close> is the hash of the global node (\<open>None\<close> while the pointer is null), \<open>g\<close> and \<open>gs\<close>
  the initial contents of allocated byte and text blocks. A handler's result is
  the block stored through \<open>output\<close> and the length it returns.
\<close>

subsection \<open>The command table\<close>

datatype command = Empty_Command | Command_Ping

definition empty_command :: "byte list option \<Rightarrow> (nat \<Rightarrow> byte) \<Rightarrow> packet_t \<Rightarrow> (byte list option \<times> nat) faulty" where
  "empty_command gn g packet =
     fault_bind (packet_new gn 1 CMD_ERROR 0 None 0) (\<lambda>p.
     fault_bind (packet_to_bytes g p) (\<lambda>out. Inr (Some out, length out)))"

text \<open>\<open>"PONG"\<close>.\<close>

definition pong :: "byte list" where
  "pong = [0x50, 0x4F, 0x4E, 0x47]"

definition command_ping :: "byte list option \<Rightarrow> (nat \<Rightarrow> byte) \<Rightarrow> packet_t \<Rightarrow> (byte list option \<times> nat) faulty" where
  "command_ping gn g packet =
     fault_bind (packet_new gn 1 CMD_PING (req_id packet) (Some (pong @ [0])) (word_of_nat (length (cstr (pong @ [0]))))) (\<lambda>p.
     fault_bind (packet_to_bytes g p) (\<lambda>out. Inr (Some out, length out)))"

primrec run_command :: "command \<Rightarrow> byte list option \<Rightarrow> (nat \<Rightarrow> byte) \<Rightarrow> packet_t \<Rightarrow> (byte list option \<times> nat) faulty" where
  "run_command Empty_Command = empty_command"
| "run_command Command_Ping = command_ping"

text \<open>\<open>load_commands\<close> fills the 256 slots from index \<open>i\<close> on, then sets the slot of ping.\<close>

fun fill_commands :: "command option list \<Rightarrow> nat \<Rightarrow> nat \<Rightarrow> command option list" where
  "fill_commands d i 0 = d"
| "fill_commands d i (Suc k) = fill_commands (d[i := Some Empty_Command]) (Suc i) k"

definition load_commands :: "command option list \<Rightarrow> command option list" where
  "load_commands d = (fill_commands d 0 256)[unat (type_code CMD_PING) := Some Command_Ping]"

text \<open>The table is a global array of 256 null pointers before that.\<close>

definition initial_dispatcher :: "command option list" where
  "initial_dispatcher = replicate 256 None"

subsection \<open>The request handler\<close>

text \<open>\<open>COMMAND_DISPATCHER[packet->type](packet, output)\<close>\<close>

definition dispatch ::
    "command option list \<Rightarrow> byte list option \<Rightarrow> (nat \<Rightarrow> byte) \<Rightarrow> packet_t \<Rightarrow> (byte list option \<times> nat) faulty" where
  "dispatch d gn g packet =
     fault_bind (mem_read d (unat (ptype packet)) 1) (\<lambda>slot.
     case hd slot of None \<Rightarrow> Inl Null_Deref | Some c \<Rightarrow> run_command c gn g packet)"

definition node_request_handler ::
    "command option list \<Rightarrow> byte list option \<Rightarrow> (nat \<Rightarrow> byte) \<Rightarrow> (nat \<Rightarrow> char)
     \<Rightarrow> byte list \<Rightarrow> nat \<Rightarrow> (byte list option \<times> nat) faulty" where
  "node_request_handler d gn g gs dat data_length =
     fault_bind (packet_from_bytes dat data_length) (\<lambda>packet.
     case packet of
       None \<Rightarrow>
         fault_bind (packet_new gn 1 CMD_ERROR 0 None 0) (\<lambda>p.
         fault_bind (packet_to_bytes g p) (\<lambda>out. Inr (Some out, 0)))
     | Some pk \<Rightarrow>
         fault_bind (packet_to_string gs pk) (\<lambda>packet_str. dispatch d gn g pk))"

subsection \<open>The table\<close>

lemma length_fill_commands [simp]: "length (fill_commands d i k) = length d"
  by (induction k arbitrary: d i) simp_all

lemma nth_fill_commands:
  "j < length d \<Longrightarrow> fill_commands d i k ! j = (if i \<le> j \<and> j < i + k then Some Empty_Command else d ! j)"
  by (induction k arbitrary: d i) (auto simp: nth_list_update)

lemma length_load_commands [simp]: "length (load_commands d) = length d"
  by (simp add: load_commands_def)

lemma nth_load_commands:
  assumes "length d = 256" "j < 256"
  shows "load_commands d ! j = Some (if j = 5 then Command_Ping else Empty_Command)"
  using assms by (simp add: load_commands_def nth_list_update nth_fill_commands)

lemma dispatch_loaded:
  assumes "length d = 256"
  shows "dispatch (load_commands d) gn g pk =
           run_command (if ptype pk = type_code CMD_PING then Command_Ping else Empty_Command) gn g pk"
proof -
  have lt: "unat (ptype pk) < 256"
    by (rule order_less_le_trans [OF unsigned_less]) simp
  have "ptype pk = 5 \<longleftrightarrow> unat (ptype pk) = 5"
    by (simp add: word_unat_eq_iff)
  with lt show ?thesis
    using assms nth_load_commands [OF assms lt]
    by (simp add: dispatch_def mem_read_def Cons_nth_drop_Suc [symmetric])
qed

subsection \<open>The answers\<close>

definition error_packet :: "byte list \<Rightarrow> packet_t" where
  "error_packet hash = \<lparr>version = 1, ptype = 4, req_id = 0, sender_node_hash = hash,
                        payload_len = 0, payload = Some []\<rparr>"

definition pong_packet :: "byte list \<Rightarrow> u16 \<Rightarrow> packet_t" where
  "pong_packet hash rid = \<lparr>version = 1, ptype = 5, req_id = rid, sender_node_hash = hash,
                           payload_len = 4, payload = Some pong\<rparr>"

text \<open>What the node answers to a packet that parses.\<close>

definition answer :: "byte list \<Rightarrow> packet_t \<Rightarrow> packet_t" where
  "answer hash pk = (if ptype pk = type_code CMD_PING then pong_packet hash (req_id pk) else error_packet hash)"

lemma answer_wf: "length hash = 20 \<Longrightarrow> packet_wf (answer hash pk)"
  by (simp add: answer_def packet_wf_def error_packet_def pong_packet_def pong_def)

lemma error_packet_new:
  "length hash = 20 \<Longrightarrow> packet_new (Some hash) 1 CMD_ERROR 0 None 0 = Inr (error_packet hash)"
  using packet_new_ok [of hash None 0 "[]" 1 CMD_ERROR 0] by (simp add: ptr_read_def error_packet_def)

lemma cstr_pong: "cstr (pong @ [0]) = pong"
  by (rule cstr_append_zero) (simp add: pong_def)

lemma pong_packet_new:
  "length hash = 20 \<Longrightarrow> packet_new (Some hash) 1 CMD_PING rid (Some (pong @ [0])) 4 = Inr (pong_packet hash rid)"
  using packet_new_ok [of hash "Some (pong @ [0])" 4 pong 1 CMD_PING rid]
  by (simp add: ptr_read_def mem_read_def pong_def pong_packet_def)

lemma error_packet_wf: "length hash = 20 \<Longrightarrow> packet_wf (error_packet hash)"
  by (simp add: packet_wf_def error_packet_def)

lemma pong_packet_wf: "length hash = 20 \<Longrightarrow> packet_wf (pong_packet hash rid)"
  by (simp add: packet_wf_def pong_packet_def pong_def)

lemma run_command_answer:
  assumes "length hash = 20"
  shows "run_command (if ptype pk = type_code CMD_PING then Command_Ping else Empty_Command) (Some hash) g pk =
           Inr (Some (wire (answer hash pk)), length (wire (answer hash pk)))"
  using pong_packet_new [OF assms] error_packet_new [OF assms]
    packet_to_bytes_wire [OF pong_packet_wf [OF assms]] packet_to_bytes_wire [OF error_packet_wf [OF assms]]
  by (simp add: command_ping_def empty_command_def answer_def cstr_pong) (simp add: pong_def)

lemma handler_answers:
  assumes "length hash = 20" "packet_from_bytes dat n = Inr (Some pk)" "packet_to_string gs pk = Inr s"
  shows "node_request_handler (load_commands initial_dispatcher) (Some hash) g gs dat n =
           Inr (Some (wire (answer hash pk)), length (wire (answer hash pk)))"
  using assms run_command_answer [OF assms(1), of pk g]
  by (simp add: node_request_handler_def dispatch_loaded initial_dispatcher_def)

lemma handler_unparsed:
  assumes "length hash = 20" "packet_from_bytes dat n = Inr None"
  shows "node_request_handler d (Some hash) g gs dat n = Inr (Some (wire (error_packet hash)), 0)"
  using assms packet_to_bytes_wire [OF error_packet_wf [OF assms(1)]]
  by (simp add: node_request_handler_def error_packet_new)

text \<open>The bytes of a packet as a datagram.\<close>

lemma parse_wire: "packet_wf p \<Longrightarrow> packet_from_bytes (wire p) (length (wire p)) = Inr (Some (packet_norm p))"
  using packet_from_wire [of p "length (wire p)" "[]"] length_wire [of p] by simp

subsection \<open>Properties\<close>

definition sample_node_hash :: "byte list" where
  "sample_node_hash = replicate 20 0x11"

text \<open>Every datagram that parses as a packet of at most 82 payload bytes is
  answered, without a fault, by one packet that itself parses: a ping by a ping
  with the payload \<open>PONG\<close> and the request id of the request, anything else by an
  error packet; both carry the node's own hash.\<close>

lemma handler_answers_packets:
  assumes "length hash = 20" and "len \<le> length dat" and "packet_from_bytes dat len = Inr (Some pk)"
    and "unat (payload_len pk) \<le> 82"
  shows "\<exists>out. node_request_handler (load_commands initial_dispatcher) (Some hash) g gs dat len =
               Inr (Some out, length out)
           \<and> packet_from_bytes out (length out) = Inr (Some
               (if ptype pk = type_code CMD_PING
                then \<lparr>version = 1, ptype = type_code CMD_PING, req_id = req_id pk, sender_node_hash = hash,
                      payload_len = 4, payload = Some pong\<rparr>
                else \<lparr>version = 1, ptype = type_code CMD_ERROR, req_id = 0, sender_node_hash = hash,
                      payload_len = 0, payload = None\<rparr>))"
proof -
  have wf: "packet_wf pk" using packet_from_bytes_inv [OF assms(3,2)] by simp
  then obtain s where "packet_to_string gs pk = Inr s" using packet_print_ok [OF wf assms(4)] by blast
  note h = handler_answers [OF assms(1,3) this]
  have "packet_norm (answer hash pk) =
      (if ptype pk = type_code CMD_PING
       then \<lparr>version = 1, ptype = type_code CMD_PING, req_id = req_id pk, sender_node_hash = hash,
             payload_len = 4, payload = Some pong\<rparr>
       else \<lparr>version = 1, ptype = type_code CMD_ERROR, req_id = 0, sender_node_hash = hash,
             payload_len = 0, payload = None\<rparr>)"
    by (simp add: answer_def packet_norm_def pong_packet_def error_packet_def)
  then show ?thesis
    using h parse_wire [OF answer_wf [OF assms(1)], of pk] by (intro exI conjI) simp_all
qed

lemma handler_answers_packets_witness:
  "\<exists>out. node_request_handler (load_commands initial_dispatcher) (Some sample_node_hash) (\<lambda>_. 0) (\<lambda>_. NUL)
       (wire sample_packet) 30 = Inr (Some out, length out)
     \<and> packet_from_bytes out (length out) = Inr (Some
        \<lparr>version = 1, ptype = 5, req_id = 0x1234, sender_node_hash = sample_node_hash,
         payload_len = 4, payload = Some pong\<rparr>)"
proof -
  have "length (wire sample_packet) = 30" using length_wire [OF sample_packet_wf] by (simp add: sample_packet_def)
  moreover have "packet_norm sample_packet = sample_packet" by (simp add: packet_norm_def sample_packet_def)
  moreover have "ptype sample_packet = 5" "req_id sample_packet = 0x1234" "unat (payload_len sample_packet) \<le> 82"
    "length sample_node_hash = 20"
    by (simp_all add: sample_packet_def sample_node_hash_def)
  ultimately show ?thesis
    using handler_answers_packets [of sample_node_hash 30 "wire sample_packet" sample_packet "\<lambda>_. 0" "\<lambda>_. NUL"]
      parse_wire [OF sample_packet_wf] by simp
qed

text \<open>A datagram that does not parse is answered by nothing: the handler builds the
  26 bytes of an error packet but returns the length 0, because the length of the
  serialised packet is not stored.\<close>

lemma handler_drops_error:
  assumes "length hash = 20" and "len \<le> length dat"
    and "len < HEADER_SIZE \<or> len < HEADER_SIZE + declared_len dat"
  shows "\<exists>out. node_request_handler d (Some hash) g gs dat len = Inr (Some out, 0) \<and> length out = 26"
  using handler_unparsed [OF assms(1), of dat len] packet_from_bytes_cases [OF assms(2)] assms(3)
    length_wire [OF error_packet_wf [OF assms(1)]]
  by (simp add: error_packet_def)

lemma handler_drops_error_witness:
  "\<exists>out. node_request_handler (load_commands initial_dispatcher) (Some sample_node_hash) (\<lambda>_. 0) (\<lambda>_. NUL)
       [1, 5] 2 = Inr (Some out, 0) \<and> length out = 26"
  by (rule handler_drops_error) (simp_all add: sample_node_hash_def)

text \<open>C24. Whatever datagram it is given, and whatever the command table and the global node are,
  a call of the handler that does not fault leaves in \<open>*output\<close> the encoding of a well-formed packet:
  a 20-byte hash and a payload of the announced length. For a datagram that parses the handler returns
  the size of the output, as the comment on it says. For one that does not, the output is
  an error packet of 26 bytes and the handler returns 0, not the size of the output.\<close>

theorem handler_output_typed:
  assumes "node_request_handler d gn g gs dat len_in = Inr (out, len)"
  shows "\<exists>p. packet_wf p \<and> out = Some (wire p)
           \<and> ((\<exists>pk. packet_from_bytes dat len_in = Inr (Some pk)) \<longrightarrow> len = length (wire p))
           \<and> (packet_from_bytes dat len_in = Inr None \<longrightarrow>
                ptype p = type_code CMD_ERROR \<and> length (wire p) = 26 \<and> len = 0)"
proof -
  have enc: "packet_wf p \<and> b = wire p"
    if "packet_new gn v ty rid pl n = Inr p" "packet_to_bytes g p = Inr b" for v ty rid pl n p b
    using packet_new_wf [OF that(1)] packet_to_bytes_wire [of p g] that(2) by simp
  have run: "\<exists>p. packet_wf p \<and> o1 = Some (wire p) \<and> l = length (wire p)"
    if "run_command c gn g pk = Inr (o1, l)" for c pk o1 l
    using that enc by (cases c) (fastforce simp: empty_command_def command_ping_def fault_bind_eq_Inr)+
  have disp: "\<exists>p. packet_wf p \<and> o1 = Some (wire p) \<and> l = length (wire p)"
    if "dispatch d gn g pk = Inr (o1, l)" for pk o1 l
    using that run by (auto simp: dispatch_def fault_bind_eq_Inr split: option.splits)
  obtain r where r: "packet_from_bytes dat len_in = Inr r"
    using assms by (auto simp: node_request_handler_def fault_bind_eq_Inr)
  show ?thesis
  proof (cases r)
    case None
    then obtain p b where p: "packet_new gn 1 CMD_ERROR 0 None 0 = Inr p" "packet_to_bytes g p = Inr b" "out = Some b" "len = 0"
      using assms r by (auto simp: node_request_handler_def fault_bind_eq_Inr)
    have "ptype p = type_code CMD_ERROR" "payload_len p = 0"
      using p(1) by (auto simp: packet_new_def fault_bind_eq_Inr split: option.splits)
    then show ?thesis using None r p enc [OF p(1,2)] length_wire [of p] by (intro exI [of _ p]) simp
  next
    case (Some pk)
    then show ?thesis using assms r disp by (auto simp: node_request_handler_def fault_bind_eq_Inr)
  qed
qed

theorem handler_output_typed_witness:
  "(\<exists>p. node_request_handler (load_commands initial_dispatcher) (Some sample_node_hash) (\<lambda>_. 0) (\<lambda>_. NUL)
          (wire sample_packet) (length (wire sample_packet)) = Inr (Some (wire p), length (wire p)) \<and> packet_wf p)
 \<and> (\<exists>p. node_request_handler (load_commands initial_dispatcher) (Some sample_node_hash) (\<lambda>_. 0) (\<lambda>_. NUL) [1, 5] 2 =
          Inr (Some (wire p), 0) \<and> packet_wf p \<and> length (wire p) = 26)"
proof
  let ?h = "node_request_handler (load_commands initial_dispatcher) (Some sample_node_hash) (\<lambda>_. 0) (\<lambda>_. NUL)"
  have hash: "length sample_node_hash = 20" by (simp add: sample_node_hash_def)
  obtain s where s: "packet_to_string (\<lambda>_. NUL) (packet_norm sample_packet) = Inr s"
    using packet_print_ok [of sample_packet "\<lambda>_. NUL"] sample_packet_wf by (auto simp: sample_packet_def packet_norm_def)
  note parsed = parse_wire [OF sample_packet_wf]
  show "\<exists>p. ?h (wire sample_packet) (length (wire sample_packet)) = Inr (Some (wire p), length (wire p)) \<and> packet_wf p"
    using handler_output_typed [OF handler_answers [OF hash parsed s]] handler_answers [OF hash parsed s] parsed by auto
  have none: "packet_from_bytes [1, 5] 2 = Inr None" by (simp add: packet_from_bytes_def)
  show "\<exists>p. ?h [1, 5] 2 = Inr (Some (wire p), 0) \<and> packet_wf p \<and> length (wire p) = 26"
    using handler_output_typed [OF handler_unparsed [OF hash none]] handler_unparsed [OF hash none] none by auto
qed

text \<open>A packet with 85 payload bytes or more makes the handler write outside the
  block of its debug string, whatever the packet's type: one datagram is enough.\<close>

lemma handler_overflows:
  assumes "packet_wf pk" and "85 \<le> unat (payload_len pk)"
  shows "node_request_handler d gn g gs (wire pk) (length (wire pk)) = Inl Out_Of_Bounds"
proof -
  have "payload_len pk \<noteq> 0" using assms(2) by auto
  then have "packet_norm pk = pk" by (simp add: packet_norm_def)
  then show ?thesis
    using parse_wire [OF assms(1)] packet_print_faults [OF assms]
    by (simp add: node_request_handler_def)
qed

lemma handler_overflows_witness:
  "node_request_handler (load_commands initial_dispatcher) (Some sample_node_hash) (\<lambda>_. 0) (\<lambda>_. NUL)
     (wire large_packet) (length (wire large_packet)) = Inl Out_Of_Bounds"
  by (rule handler_overflows) (simp_all add: large_packet_def packet_wf_def)

text \<open>After \<open>load_commands\<close> no slot of the table is null: every packet type, also one
  that the protocol does not define, has a command; only the slot of ping is not
  the command that answers an error.\<close>

lemma load_commands_total:
  "length (load_commands initial_dispatcher) = 256 \<and>
   (\<forall>ty :: byte. load_commands initial_dispatcher ! unat ty =
      Some (if ty = type_code CMD_PING then Command_Ping else Empty_Command))"
proof (intro conjI allI)
  fix ty :: byte
  have "unat ty < 256" by (rule order_less_le_trans [OF unsigned_less]) simp
  moreover have "ty = 5 \<longleftrightarrow> unat ty = 5" by (simp add: word_unat_eq_iff)
  ultimately show "load_commands initial_dispatcher ! unat ty =
      Some (if ty = type_code CMD_PING then Command_Ping else Empty_Command)"
    by (simp add: nth_load_commands initial_dispatcher_def)
qed (simp add: initial_dispatcher_def)

end
