(* ===== verification/Threads.thy ===== *)
theory Threads
  imports CDHT_Prelude
begin

text \<open>
  What the step relations of this development share. The threads of a component are a list of program
  counters; a step changes one of them. \<open>bounded_steps\<close> is the contract behind every statement that the threads
  come to rest: an invariant the steps keep and a number they make smaller. \<open>own_results\<close> says that
  each thread has got the results of its own calls, in order.
\<close>

subsection \<open>Steps that come to an end\<close>

locale bounded_steps =
  fixes step :: "'s \<Rightarrow> 's \<Rightarrow> bool"
    and inv :: "'s \<Rightarrow> bool"
    and work :: "'s \<Rightarrow> nat"
  assumes keeps: "inv s \<Longrightarrow> step s s' \<Longrightarrow> inv s'"
    and decreases: "inv s \<Longrightarrow> step s s' \<Longrightarrow> work s' < work s"
begin

lemma run_keeps: "step\<^sup>*\<^sup>* s s' \<Longrightarrow> inv s \<Longrightarrow> inv s'"
  by (induction rule: rtranclp_induct) (auto intro: keeps)

lemma run_work: "(step ^^ n) s s' \<Longrightarrow> inv s \<Longrightarrow> inv s' \<and> n + work s' \<le> work s"
proof (induction n arbitrary: s')
  case (Suc n)
  then obtain s1 where "(step ^^ n) s s1" "step s1 s'" by auto
  then show ?case using Suc.IH [of s1] Suc.prems(2) keeps [of s1 s'] decreases [of s1 s'] by auto
qed simp

lemma run_bounded: "(step ^^ n) s s' \<Longrightarrow> inv s \<Longrightarrow> n \<le> work s"
  using run_work [of n s s'] by simp

lemma comes_to_rest: "inv s \<Longrightarrow> \<exists>s'. step\<^sup>*\<^sup>* s s' \<and> inv s' \<and> (\<nexists>s''. step s' s'')"
proof (induction "work s" arbitrary: s rule: less_induct)
  case less
  show ?case
  proof (cases "\<exists>s1. step s s1")
    case True
    then obtain s1 where s1: "step s s1" by blast
    then obtain s' where "step\<^sup>*\<^sup>* s1 s'" "inv s'" "\<nexists>s''. step s' s''"
      using less.hyps [OF decreases keeps] less.prems by blast
    with s1 show ?thesis by (meson converse_rtranclp_into_rtranclp)
  qed (use less.prems in blast)
qed

end

subsection \<open>Sums over the threads\<close>

lemma sum_update_less:
  fixes f :: "'a \<Rightarrow> nat"
  shows "i < length xs \<Longrightarrow> f x < f (xs ! i) \<Longrightarrow> sum_list (map f (xs[i := x])) < sum_list (map f xs)"
  using elem_le_sum_list [of i "map f xs"] by (simp add: map_update sum_list_update)

subsection \<open>Results of calls\<close>

text \<open>\<open>log\<close> are the operations, with thread and result, in the order in which they took effect, \<open>returned\<close> in the order
  in which they returned; \<open>d i p\<close> is the operation that thread \<open>i\<close> at \<open>p\<close> has still to return.\<close>

definition own_results :: "(nat \<Rightarrow> 'p \<Rightarrow> (nat \<times> 'e) list) \<Rightarrow> 'p list \<Rightarrow> (nat \<times> 'e) list \<Rightarrow> (nat \<times> 'e) list \<Rightarrow> bool" where
  "own_results d ts log returned \<longleftrightarrow>
     (\<forall>i < length ts. filter (\<lambda>e. fst e = i) log = filter (\<lambda>e. fst e = i) returned @ d i (ts ! i))"

lemma own_results_step:
  assumes "own_results d ts log returned" "i < length ts" "d i (ts ! i) = [] \<or> d i p = []"
    and "\<And>p e. e \<in> set (d i p) \<Longrightarrow> fst e = i"
  shows "own_results d (ts[i := p]) (log @ d i p) (returned @ d i (ts ! i))"
proof -
  have "filter (\<lambda>e. fst e = j) (d i q) = (if j = i then d i q else [])" for j q
    using assms(4) by (auto simp: filter_empty_conv filter_id_conv)
  then show ?thesis using assms(1-3) by (auto simp: own_results_def nth_list_update)
qed

end
