(* ===== verification/Udp_Server.thy ===== *)
theory Udp_Server
  imports Xqueue Request_Handler Threads "HOL-Library.Multiset"
begin

text \<open>
  \<open>src/src/transfer/udp.c\<close> with the locking of \<open>src/src/helpers/xqueue.c\<close>: the
  receiving thread (\<open>udp_server_run\<close>) puts datagrams into the queue, eight worker
  threads (\<open>__worker_function\<close>) take them out, call the request handler and send
  the answer.

  The threads are a step relation. A step is one access to the shared state: taking
  the mutex, the body of a critical section, releasing the mutex; waiting on the
  condition variable releases the mutex in the same step, and a woken thread has
  to take it again. The critical sections run the operations of \<open>Xqueue\<close> on its
  heap. A signal wakes one waiting thread if there is one; a waiting thread may also
  wake for no reason. \<open>s_accepted\<close>, \<open>s_taken\<close> and \<open>s_served\<close> record the history.

  The peer's address is of an arbitrary type. The request handler is an argument,
  \<open>None\<close> while the pointer is null; the one the node installs is
  \<open>Request_Handler.node_request_handler\<close>.
\<close>

subsection \<open>Requests\<close>

record 'a udp_request_t =
  req_addr :: 'a
  req_data :: "byte list"
  req_length :: int

type_synonym handler = "byte list \<Rightarrow> nat \<Rightarrow> (byte list option \<times> nat) faulty"

text \<open>The body of the receiving loop: \<open>n\<close> is the result of \<open>recvfrom\<close>, \<open>buffer\<close> what it
  left in the 64 KB buffer.\<close>

definition udp_receive :: "'a \<Rightarrow> byte list \<Rightarrow> int \<Rightarrow> 'a udp_request_t option faulty" where
  "udp_receive addr buffer n =
     (if 0 < n
      then fault_bind (mem_read buffer 0 (nat n)) (\<lambda>d.
           Inr (Some \<lparr>req_addr = addr, req_data = d, req_length = n\<rparr>))
      else Inr None)"

text \<open>The body of the worker's loop behind the dequeue: the datagrams it sends.\<close>

definition worker_serve :: "handler option \<Rightarrow> 'a udp_request_t option \<Rightarrow> ('a \<times> byte list) list faulty" where
  "worker_serve H req =
     (case req of None \<Rightarrow> Inr []
      | Some r \<Rightarrow>
        (case H of None \<Rightarrow> Inr []
         | Some request_handler \<Rightarrow>
             fault_bind (request_handler (req_data r) (nat (req_length r))) (\<lambda>(output, len).
             fault_bind (ptr_read output len) (\<lambda>d. Inr [(req_addr r, d)]))))"

subsection \<open>The state\<close>

datatype 'a receiver_pc =
    P_Recv                                \<comment> \<open>in \<open>recvfrom\<close>\<close>
  | P_Lock "'a udp_request_t"             \<comment> \<open>in \<open>xqueue_enqueue\<close>, before the mutex\<close>
  | P_Link "'a udp_request_t"             \<comment> \<open>has the mutex, before the links\<close>
  | P_Unlock                              \<comment> \<open>has the mutex, has linked and signalled\<close>

datatype 'a worker_pc =
    W_Lock                                \<comment> \<open>in \<open>xqueue_dequeue\<close>, before the mutex\<close>
  | W_Test                                \<comment> \<open>has the mutex, before the test of the loop\<close>
  | W_Wait                                \<comment> \<open>in \<open>pthread_cond_wait\<close>\<close>
  | W_Woken                               \<comment> \<open>woken, before the mutex\<close>
  | W_Unlock "'a udp_request_t option"    \<comment> \<open>has the mutex, has taken a request\<close>
  | W_Serve "'a udp_request_t option"     \<comment> \<open>before the handler\<close>

datatype thread = Receiver | Worker nat

record 'a server_state =
  s_queue :: "'a udp_request_t xqueue_t"
  s_lock :: "thread option"
  s_recv :: "'a receiver_pc"
  s_workers :: "'a worker_pc list"
  s_crash :: "c_fault option"
  s_accepted :: "'a udp_request_t list"
  s_taken :: "'a udp_request_t option list"
  s_served :: "'a udp_request_t option list"
  s_sent :: "('a \<times> byte list) list"

text \<open>\<open>#define WORKERS 8\<close>\<close>

abbreviation WORKERS :: nat where "WORKERS \<equiv> 8"

text \<open>What \<open>udp_server_new\<close> leaves behind the pointers \<open>queue\<close> and \<open>workers\<close>: an empty queue
  and the threads started. The dummy node is at address \<open>a\<close> of the heap \<open>h\<close>.\<close>

definition server_start :: "'a udp_request_t xheap \<Rightarrow> nat \<Rightarrow> 'a server_state" where
  "server_start h a =
     \<lparr>s_queue = xqueue_new h a, s_lock = None, s_recv = P_Recv, s_workers = replicate WORKERS W_Lock,
      s_crash = None, s_accepted = [], s_taken = [], s_served = [], s_sent = []\<rparr>"

text \<open>The server structure; \<open>'h\<close> are the pointers to request handlers. The results of
  \<open>setsockopt\<close>, \<open>fcntl\<close> and \<open>bind\<close> are not looked at, that of \<open>socket\<close> is stored as it is.\<close>

record ('a, 'h) udp_server_t =
  srv_port :: c_int
  srv_fd :: int
  srv_state :: "'a server_state"
  srv_handler :: "'h option"

definition udp_server_new :: "'a udp_request_t xheap \<Rightarrow> nat \<Rightarrow> int \<Rightarrow> c_int \<Rightarrow> ('a, 'h) udp_server_t" where
  "udp_server_new h a fd port =
     \<lparr>srv_port = port, srv_fd = fd, srv_state = server_start h a, srv_handler = None\<rparr>"

definition udp_server_set_request_handler :: "('a, 'h) udp_server_t \<Rightarrow> 'h option \<Rightarrow> ('a, 'h) udp_server_t" where
  "udp_server_set_request_handler server request_handler = server\<lparr>srv_handler := request_handler\<rparr>"

subsection \<open>The steps\<close>

text \<open>\<open>pthread_cond_signal\<close>\<close>

definition signal :: "'a worker_pc list \<Rightarrow> 'a worker_pc list \<Rightarrow> bool" where
  "signal ws ws' \<longleftrightarrow>
     (if W_Wait \<in> set ws then \<exists>i < length ws. ws ! i = W_Wait \<and> ws' = ws[i := W_Woken] else ws' = ws)"

text \<open>The steps of the threads on their own.\<close>

inductive inner_step :: "handler option \<Rightarrow> 'a server_state \<Rightarrow> 'a server_state \<Rightarrow> bool"
  for H where
  recv_lock: "s_crash s = None \<Longrightarrow> s_recv s = P_Lock r \<Longrightarrow> s_lock s = None \<Longrightarrow>
    inner_step H s (s\<lparr>s_recv := P_Link r, s_lock := Some Receiver\<rparr>)"
| recv_link: "s_crash s = None \<Longrightarrow> s_recv s = P_Link r \<Longrightarrow> xq_fresh (s_queue s) a \<Longrightarrow>
    xqueue_enqueue (s_queue s) a (Some r) = Inr q \<Longrightarrow> signal (s_workers s) ws \<Longrightarrow>
    inner_step H s (s\<lparr>s_queue := q, s_recv := P_Unlock, s_workers := ws, s_accepted := s_accepted s @ [r]\<rparr>)"
| recv_fault: "s_crash s = None \<Longrightarrow> s_recv s = P_Link r \<Longrightarrow> xq_fresh (s_queue s) a \<Longrightarrow>
    xqueue_enqueue (s_queue s) a (Some r) = Inl f \<Longrightarrow> inner_step H s (s\<lparr>s_crash := Some f\<rparr>)"
| recv_unlock: "s_crash s = None \<Longrightarrow> s_recv s = P_Unlock \<Longrightarrow>
    inner_step H s (s\<lparr>s_recv := P_Recv, s_lock := None\<rparr>)"
| work_lock: "s_crash s = None \<Longrightarrow> i < length (s_workers s) \<Longrightarrow> s_workers s ! i \<in> {W_Lock, W_Woken} \<Longrightarrow>
    s_lock s = None \<Longrightarrow>
    inner_step H s (s\<lparr>s_workers := (s_workers s)[i := W_Test], s_lock := Some (Worker i)\<rparr>)"
| work_wait: "s_crash s = None \<Longrightarrow> i < length (s_workers s) \<Longrightarrow> s_workers s ! i = W_Test \<Longrightarrow>
    xqueue_dequeue (s_queue s) = Inr None \<Longrightarrow>
    inner_step H s (s\<lparr>s_workers := (s_workers s)[i := W_Wait], s_lock := None\<rparr>)"
| work_take: "s_crash s = None \<Longrightarrow> i < length (s_workers s) \<Longrightarrow> s_workers s ! i = W_Test \<Longrightarrow>
    xqueue_dequeue (s_queue s) = Inr (Some (d, q)) \<Longrightarrow>
    inner_step H s (s\<lparr>s_queue := q, s_workers := (s_workers s)[i := W_Unlock d], s_taken := s_taken s @ [d]\<rparr>)"
| work_fault: "s_crash s = None \<Longrightarrow> i < length (s_workers s) \<Longrightarrow> s_workers s ! i = W_Test \<Longrightarrow>
    xqueue_dequeue (s_queue s) = Inl f \<Longrightarrow> inner_step H s (s\<lparr>s_crash := Some f\<rparr>)"
| work_unlock: "s_crash s = None \<Longrightarrow> i < length (s_workers s) \<Longrightarrow> s_workers s ! i = W_Unlock d \<Longrightarrow>
    inner_step H s (s\<lparr>s_workers := (s_workers s)[i := W_Serve d], s_lock := None\<rparr>)"
| work_serve: "s_crash s = None \<Longrightarrow> i < length (s_workers s) \<Longrightarrow> s_workers s ! i = W_Serve d \<Longrightarrow>
    worker_serve H d = Inr out \<Longrightarrow>
    inner_step H s (s\<lparr>s_workers := (s_workers s)[i := W_Lock], s_served := s_served s @ [d], s_sent := s_sent s @ out\<rparr>)"
| serve_fault: "s_crash s = None \<Longrightarrow> i < length (s_workers s) \<Longrightarrow> s_workers s ! i = W_Serve d \<Longrightarrow>
    worker_serve H d = Inl f \<Longrightarrow> inner_step H s (s\<lparr>s_crash := Some f\<rparr>)"

text \<open>The steps of the outside: a datagram arrives, a waiting worker wakes for no
  reason.\<close>

inductive outer_step :: "'a server_state \<Rightarrow> 'a server_state \<Rightarrow> bool" where
  receive: "s_crash s = None \<Longrightarrow> s_recv s = P_Recv \<Longrightarrow> length buffer = 65536 \<Longrightarrow>
    udp_receive addr buffer n = Inr (Some r) \<Longrightarrow> outer_step s (s\<lparr>s_recv := P_Lock r\<rparr>)"
| spurious: "s_crash s = None \<Longrightarrow> i < length (s_workers s) \<Longrightarrow> s_workers s ! i = W_Wait \<Longrightarrow>
    outer_step s (s\<lparr>s_workers := (s_workers s)[i := W_Woken]\<rparr>)"

inductive server_reach :: "handler option \<Rightarrow> 'a server_state \<Rightarrow> bool" for H where
  start: "finite (dom h) \<Longrightarrow> server_reach H (server_start h a)"
| inner: "server_reach H s \<Longrightarrow> inner_step H s s' \<Longrightarrow> server_reach H s'"
| outer: "server_reach H s \<Longrightarrow> outer_step s s' \<Longrightarrow> server_reach H s'"

inductive_cases inner_stepE: "inner_step H s s'"

text \<open>The thread that makes a step of the server: its program counter moves, or it faults. A
  waiting worker that another thread wakes has not moved.\<close>

definition moved :: "handler option \<Rightarrow> thread \<Rightarrow> 'a server_state \<Rightarrow> 'a server_state \<Rightarrow> bool" where
  "moved H t s s' \<longleftrightarrow>
     (case t of
        Receiver \<Rightarrow> s_recv s' \<noteq> s_recv s
      | Worker i \<Rightarrow> i < length (s_workers s) \<and>
          (if s_crash s' = None then s_workers s ! i \<noteq> W_Wait \<and> s_workers s' ! i \<noteq> s_workers s ! i
           else \<exists>d f. s_workers s ! i = W_Serve d \<and> worker_serve H d = Inl f \<and> s_crash s' = Some f))"

text \<open>\<open>udp_server_run\<close> does not return: the states that it and the workers come to from a state.\<close>

definition udp_server_run :: "handler option \<Rightarrow> 'a server_state \<Rightarrow> 'a server_state \<Rightarrow> bool" where
  "udp_server_run H = (\<lambda>s s'. inner_step H s s' \<or> outer_step s s')\<^sup>*\<^sup>*"

lemma udp_server_run_reach: "udp_server_run H s s' \<Longrightarrow> server_reach H s \<Longrightarrow> server_reach H s'"
  unfolding udp_server_run_def
  by (induction rule: rtranclp_induct) (auto intro: server_reach.inner server_reach.outer)

lemma udp_server_run_inner: "(inner_step H)\<^sup>*\<^sup>* s' s'' \<Longrightarrow> udp_server_run H s s' \<Longrightarrow> udp_server_run H s s''"
  unfolding udp_server_run_def
  by (induction rule: rtranclp_induct) (auto intro: rtranclp.rtrancl_into_rtrancl)

subsection \<open>Sums over the workers\<close>

lemma sum_list_map_update:
  fixes f :: "'b \<Rightarrow> 'c::comm_monoid_add"
  shows "i < length ws \<Longrightarrow> sum_list (map f (ws[i := p])) + f (ws ! i) = sum_list (map f ws) + f p"
  by (induction ws arbitrary: i) (auto simp: nth_Cons add_ac split: nat.splits)

fun holds_lock :: "'a worker_pc \<Rightarrow> bool" where
  "holds_lock W_Test = True"
| "holds_lock (W_Unlock d) = True"
| "holds_lock _ = False"

fun recv_holds :: "'a receiver_pc \<Rightarrow> bool" where
  "recv_holds (P_Link r) = True"
| "recv_holds P_Unlock = True"
| "recv_holds _ = False"

text \<open>Workers on their way to the test of the queue.\<close>

fun active :: "'a worker_pc \<Rightarrow> nat" where
  "active W_Lock = 1"
| "active W_Test = 1"
| "active W_Woken = 1"
| "active _ = 0"

fun in_hand :: "'a worker_pc \<Rightarrow> 'a udp_request_t option multiset" where
  "in_hand (W_Unlock d) = {#d#}"
| "in_hand (W_Serve d) = {#d#}"
| "in_hand _ = {#}"

text \<open>The work left, as a number that every step of the threads makes smaller.\<close>

fun worker_rank :: "'a worker_pc \<Rightarrow> nat" where
  "worker_rank W_Wait = 0"
| "worker_rank W_Test = 1"
| "worker_rank W_Lock = 2"
| "worker_rank W_Woken = 2"
| "worker_rank (W_Serve d) = 3"
| "worker_rank (W_Unlock d) = 4"

fun recv_rank :: "'a receiver_pc \<Rightarrow> nat" where
  "recv_rank P_Recv = 0"
| "recv_rank P_Unlock = 1"
| "recv_rank (P_Link r) = 8"
| "recv_rank (P_Lock r) = 9"

abbreviation queued :: "'a server_state \<Rightarrow> 'a udp_request_t list" where
  "queued s \<equiv> drop (length (s_taken s)) (s_accepted s)"

definition work_left :: "'a server_state \<Rightarrow> nat" where
  "work_left s = (if s_crash s = None then 1 else 0) + recv_rank (s_recv s) + 4 * length (queued s)
     + sum_list (map worker_rank (s_workers s))"

subsection \<open>The lock\<close>

definition lock_ok :: "thread option \<Rightarrow> 'a receiver_pc \<Rightarrow> 'a worker_pc list \<Rightarrow> bool" where
  "lock_ok l r ws \<longleftrightarrow> length ws = WORKERS \<and> (l = Some Receiver \<longleftrightarrow> recv_holds r) \<and>
     (\<forall>i. l = Some (Worker i) \<longleftrightarrow> i < length ws \<and> holds_lock (ws ! i))"

abbreviation lock_inv :: "'a server_state \<Rightarrow> bool" where
  "lock_inv s \<equiv> lock_ok (s_lock s) (s_recv s) (s_workers s)"

lemma lock_ok_acquire:
  "lock_ok None r ws \<Longrightarrow> i < length ws \<Longrightarrow> holds_lock p \<Longrightarrow> lock_ok (Some (Worker i)) r (ws[i := p])"
  by (auto simp: lock_ok_def nth_list_update)

lemma lock_ok_release:
  assumes "lock_ok l r ws" "i < length ws" "holds_lock (ws ! i)" "\<not> holds_lock p"
  shows "lock_ok None r (ws[i := p])"
proof -
  have "l = Some (Worker i)" using assms by (simp add: lock_ok_def)
  with assms show ?thesis by (simp add: lock_ok_def nth_list_update)
qed

lemma lock_ok_keep:
  "lock_ok l r ws \<Longrightarrow> i < length ws \<Longrightarrow> holds_lock p \<longleftrightarrow> holds_lock (ws ! i) \<Longrightarrow> lock_ok l r (ws[i := p])"
  by (simp add: lock_ok_def nth_list_update)

lemma lock_ok_receiver:
  "lock_ok None r ws \<Longrightarrow> recv_holds r' \<Longrightarrow> lock_ok (Some Receiver) r' ws"
  "lock_ok l r ws \<Longrightarrow> recv_holds r \<Longrightarrow> \<not> recv_holds r' \<Longrightarrow> lock_ok None r' ws"
  "lock_ok l r ws \<Longrightarrow> recv_holds r \<longleftrightarrow> recv_holds r' \<Longrightarrow> lock_ok l r' ws"
  by (auto simp: lock_ok_def)

lemma lock_ok_owner:
  "lock_ok (Some Receiver) r ws \<Longrightarrow> recv_holds r"
  "lock_ok (Some (Worker i)) r ws \<Longrightarrow> i < length ws \<and> holds_lock (ws ! i)"
  unfolding lock_ok_def by blast+

lemma signalE:
  assumes "signal ws ws'"
  obtains i where "i < length ws" "ws ! i = W_Wait" "ws' = ws[i := W_Woken]" | "W_Wait \<notin> set ws" "ws' = ws"
  using assms by (auto simp: signal_def split: if_splits)

lemma lock_ok_signal: "signal ws ws' \<Longrightarrow> lock_ok l r ws \<Longrightarrow> lock_ok l r ws'"
  by (auto simp: signal_def split: if_splits intro: lock_ok_keep)

lemma lock_inv_inner: "inner_step H s s' \<Longrightarrow> lock_inv s \<Longrightarrow> lock_inv s'"
proof (induction rule: inner_step.induct)
  case (recv_lock s r)
  then show ?case by (auto intro: lock_ok_receiver(1))
next
  case (recv_link s r a q ws)
  then have "lock_ok (s_lock s) (P_Link r) ws" using lock_ok_signal by metis
  then show ?case using lock_ok_receiver(3) [of "s_lock s" "P_Link r" ws P_Unlock] by simp
next
  case (recv_unlock s)
  then show ?case using lock_ok_receiver(2) [of "s_lock s" P_Unlock "s_workers s" P_Recv] by simp
next
  case (work_lock s i)
  then show ?case by (auto intro: lock_ok_acquire)
next
  case (work_wait s i)
  then show ?case using lock_ok_release [of "s_lock s" _ "s_workers s" i] by simp
next
  case (work_take s i d q)
  then show ?case by (auto intro: lock_ok_keep)
next
  case (work_unlock s i d)
  then show ?case using lock_ok_release [of "s_lock s" _ "s_workers s" i] by simp
next
  case (work_serve s i d out)
  then show ?case by (auto intro: lock_ok_keep)
qed simp_all

lemma lock_inv_outer: "outer_step s s' \<Longrightarrow> lock_inv s \<Longrightarrow> lock_inv s'"
proof (induction rule: outer_step.induct)
  case (receive s buffer addr n r)
  then show ?case using lock_ok_receiver(3) [of "s_lock s" P_Recv _ "P_Lock r"] by simp
next
  case (spurious s i)
  then show ?case by (auto intro: lock_ok_keep)
qed

subsection \<open>The queue\<close>

definition queue_inv :: "'a server_state \<Rightarrow> bool" where
  "queue_inv s \<longleftrightarrow> xq_holds (s_queue s) (map Some (queued s)) \<and> finite (dom (q_heap (s_queue s)))
     \<and> s_taken s = map Some (take (length (s_taken s)) (s_accepted s))"

lemma queue_inv_length: "queue_inv s \<Longrightarrow> length (s_taken s) \<le> length (s_accepted s)"
  unfolding queue_inv_def by (metis length_map length_take min.cobounded1)

lemma queue_finite:
  "xqueue_enqueue q a d = Inr q' \<Longrightarrow> finite (dom (q_heap q)) \<Longrightarrow> finite (dom (q_heap q'))"
  "xqueue_dequeue q = Inr (Some (d, q')) \<Longrightarrow> finite (dom (q_heap q)) \<Longrightarrow> finite (dom (q_heap q'))"
  by (auto simp: xqueue_enqueue_def xqueue_dequeue_def Let_def split: option.splits if_splits)

lemma queue_link:
  assumes "queue_inv s" "xq_fresh (s_queue s) a" "xqueue_enqueue (s_queue s) a (Some r) = Inr q"
  shows "xq_holds q (map Some (queued s @ [r]))"
  using xq.enq_holds [of "s_queue s" "map Some (queued s)" a "Some r"] assms by (simp add: queue_inv_def)

lemma queue_take:
  assumes "queue_inv s" "xqueue_dequeue (s_queue s) = Inr (Some (d, q))"
  obtains r rest where "queued s = r # rest" "d = Some r" "xq_holds q (map Some rest)"
proof (cases "queued s")
  case Nil
  then show ?thesis using assms xq.deq_waits [of "s_queue s"] by (simp add: queue_inv_def)
next
  case (Cons r rest)
  moreover have "xq_holds (s_queue s) (Some r # map Some rest)"
    using assms(1) Cons by (simp add: queue_inv_def)
  ultimately show ?thesis
    using xq.deq_holds [of "s_queue s" "Some r" "map Some rest"] assms(2) that by auto
qed

lemma queue_inv_take:
  assumes inv: "queue_inv s" and deq: "xqueue_dequeue (s_queue s) = Inr (Some (d, q))"
  shows "queue_inv (s\<lparr>s_queue := q, s_workers := ws, s_taken := s_taken s @ [d]\<rparr>)"
    and "Suc (length (drop (Suc (length (s_taken s))) (s_accepted s))) = length (queued s)"
proof -
  let ?n = "length (s_taken s)"
  obtain r rest where r: "queued s = r # rest" "d = Some r" "xq_holds q (map Some rest)"
    using queue_take [OF inv deq] .
  have nth: "?n < length (s_accepted s)" "s_accepted s ! ?n = r" "drop (Suc ?n) (s_accepted s) = rest"
    using r(1) nth_via_drop [OF r(1)] by (auto simp: drop_Suc not_le [symmetric] simp flip: tl_drop)
  have taken: "s_taken s = map Some (take ?n (s_accepted s))" using inv by (simp add: queue_inv_def)
  have "map Some (take (Suc ?n) (s_accepted s)) = s_taken s @ [d]"
    using nth r(2) taken by (simp add: take_Suc_conv_app_nth)
  then show "queue_inv (s\<lparr>s_queue := q, s_workers := ws, s_taken := s_taken s @ [d]\<rparr>)"
    using r nth inv queue_finite(2) [OF deq] by (simp add: queue_inv_def)
  show "Suc (length (drop (Suc ?n) (s_accepted s))) = length (queued s)"
    using nth(3) r(1) by simp
qed

lemma queue_inv_inner: "inner_step H s s' \<Longrightarrow> queue_inv s \<Longrightarrow> queue_inv s'"
proof (induction rule: inner_step.induct)
  case (recv_link s r a q ws)
  then show ?case
    using queue_link [of s a r q] queue_finite(1) [of "s_queue s" a "Some r" q] queue_inv_length [of s]
    by (simp add: queue_inv_def)
next
  case (work_take s i d q)
  then show ?case using queue_inv_take(1) by blast
qed (simp_all add: queue_inv_def)

lemma queue_inv_outer: "outer_step s s' \<Longrightarrow> queue_inv s \<Longrightarrow> queue_inv s'"
  by (induction rule: outer_step.induct) (simp_all add: queue_inv_def)

subsection \<open>Wake-ups\<close>

text \<open>While a worker waits, enough other workers are on their way to the queue for all
  that is in it.\<close>

definition wake_inv :: "'a server_state \<Rightarrow> bool" where
  "wake_inv s \<longleftrightarrow> (W_Wait \<in> set (s_workers s) \<longrightarrow> length (queued s) \<le> sum_list (map active (s_workers s)))"

lemma active_update:
  "i < length ws \<Longrightarrow> sum_list (map active (ws[i := p])) + active (ws ! i) = sum_list (map active ws) + active p"
  by (rule sum_list_map_update)

lemma W_Wait_update: "W_Wait \<in> set (ws[i := p]) \<Longrightarrow> p \<noteq> W_Wait \<Longrightarrow> W_Wait \<in> set ws"
  using set_update_subset_insert [of ws i p] by auto

lemma active_signal:
  assumes "signal ws ws'" "W_Wait \<in> set ws"
  shows "sum_list (map active ws') = Suc (sum_list (map active ws))"
  using assms(1)
proof (cases rule: signalE)
  case (1 i)
  then show ?thesis using active_update [of i ws W_Woken] by simp
qed (use assms(2) in simp)

lemma signal_Wait: "signal ws ws' \<Longrightarrow> W_Wait \<in> set ws' \<Longrightarrow> W_Wait \<in> set ws"
  by (auto simp: signal_def split: if_splits dest: W_Wait_update)

lemma queue_empty_iff: "queue_inv s \<Longrightarrow> xqueue_dequeue (s_queue s) = Inr None \<longleftrightarrow> queued s = []"
  using xq.deq_Some_iff [of "s_queue s" "map Some (queued s)"] xq.deq_waits [of "s_queue s"]
  by (force simp: queue_inv_def)

lemma wake_inv_inner: "inner_step H s s' \<Longrightarrow> queue_inv s \<Longrightarrow> wake_inv s \<Longrightarrow> wake_inv s'"
proof (induction rule: inner_step.induct)
  case (recv_link s r a q ws)
  then show ?case
    using active_signal [of "s_workers s" ws] signal_Wait [of "s_workers s" ws] queue_inv_length [of s]
    by (auto simp: wake_inv_def Suc_diff_le)
next
  case (work_lock s i)
  then show ?case
    using active_update [of i "s_workers s" W_Test] W_Wait_update [of "s_workers s" i W_Test]
    by (auto simp: wake_inv_def)
next
  case (work_wait s i)
  then show ?case using queue_empty_iff [of s] by (simp add: wake_inv_def)
next
  case (work_take s i d q)
  then show ?case
    using queue_inv_take(2) [of s d q] active_update [of i "s_workers s" "W_Unlock d"]
      W_Wait_update [of "s_workers s" i "W_Unlock d"]
    by (auto simp: wake_inv_def)
next
  case (work_unlock s i d)
  then show ?case
    using active_update [of i "s_workers s" "W_Serve d"] W_Wait_update [of "s_workers s" i "W_Serve d"]
    by (auto simp: wake_inv_def)
next
  case (work_serve s i d out)
  then show ?case
    using active_update [of i "s_workers s" W_Lock] W_Wait_update [of "s_workers s" i W_Lock]
    by (auto simp: wake_inv_def)
qed (simp_all add: wake_inv_def)

lemma wake_inv_outer: "outer_step s s' \<Longrightarrow> wake_inv s \<Longrightarrow> wake_inv s'"
proof (induction rule: outer_step.induct)
  case (spurious s i)
  then show ?case
    using active_update [of i "s_workers s" W_Woken] W_Wait_update [of "s_workers s" i W_Woken]
    by (auto simp: wake_inv_def)
qed (simp add: wake_inv_def)

subsection \<open>The history\<close>

text \<open>Every request taken from the queue is served or in the hands of a worker; what
  was sent are the answers to what was served; a crash comes from the handler.\<close>

definition answers :: "handler option \<Rightarrow> 'a udp_request_t option \<Rightarrow> ('a \<times> byte list) list" where
  "answers H d = (case worker_serve H d of Inl _ \<Rightarrow> [] | Inr out \<Rightarrow> out)"

definition hist_inv :: "handler option \<Rightarrow> 'a server_state \<Rightarrow> bool" where
  "hist_inv H s \<longleftrightarrow> mset (s_taken s) = mset (s_served s) + sum_list (map in_hand (s_workers s))
     \<and> s_sent s = concat (map (answers H) (s_served s))
     \<and> (\<forall>d \<in> set (s_served s). no_fault (worker_serve H d))
     \<and> (\<forall>f. s_crash s = Some f \<longrightarrow> (\<exists>r \<in> set (s_accepted s). worker_serve H (Some r) = Inl f))"

lemma in_hand_update:
  "i < length ws \<Longrightarrow> sum_list (map in_hand (ws[i := p])) + in_hand (ws ! i) = sum_list (map in_hand ws) + in_hand p"
  by (rule sum_list_map_update)

lemma in_hand_signal: "signal ws ws' \<Longrightarrow> sum_list (map in_hand ws') = sum_list (map in_hand ws)"
proof (elim signalE)
  fix i
  assume "i < length ws" "ws ! i = W_Wait" "ws' = ws[i := W_Woken]"
  then show "sum_list (map in_hand ws') = sum_list (map in_hand ws)"
    using in_hand_update [of i ws W_Woken] by simp
qed simp

lemma in_hand_member: "i < length ws \<Longrightarrow> d \<in># in_hand (ws ! i) \<Longrightarrow> d \<in># sum_list (map in_hand ws)"
  by (induction ws arbitrary: i) (auto simp: nth_Cons split: nat.splits)

lemma in_hand_accepted:
  assumes "queue_inv s" "hist_inv H s" "i < length (s_workers s)" "d \<in># in_hand (s_workers s ! i)"
  shows "\<exists>r \<in> set (s_accepted s). d = Some r"
proof -
  have "d \<in># mset (s_taken s)"
    using assms(2) in_hand_member [OF assms(3,4)] by (simp add: hist_inv_def)
  moreover have "set (s_taken s) \<subseteq> Some ` set (s_accepted s)"
    using assms(1) unfolding queue_inv_def by (metis set_map image_mono set_take_subset)
  ultimately show ?thesis by auto
qed

lemma hist_inv_inner: "inner_step H s s' \<Longrightarrow> queue_inv s \<Longrightarrow> hist_inv H s \<Longrightarrow> hist_inv H s'"
proof (induction rule: inner_step.induct)
  case (recv_link s r a q ws)
  then show ?case by (auto simp: hist_inv_def in_hand_signal)
next
  case (recv_fault s r a f)
  then show ?case
    using xq.enq_holds [of "s_queue s" "map Some (queued s)" a "Some r"] by (simp add: queue_inv_def)
next
  case (work_lock s i)
  then show ?case using in_hand_update [of i "s_workers s" W_Test] by (auto simp: hist_inv_def)
next
  case (work_wait s i)
  then show ?case using in_hand_update [of i "s_workers s" W_Wait] by (simp add: hist_inv_def)
next
  case (work_take s i d q)
  then show ?case using in_hand_update [of i "s_workers s" "W_Unlock d"] by (simp add: hist_inv_def)
next
  case (work_fault s i f)
  then show ?case
    using xq.deq_never_faults [of "s_queue s" "map Some (queued s)"] by (simp add: queue_inv_def)
next
  case (work_unlock s i d)
  then show ?case using in_hand_update [of i "s_workers s" "W_Serve d"] by (simp add: hist_inv_def)
next
  case (work_serve s i d out)
  then show ?case using in_hand_update [of i "s_workers s" W_Lock] by (simp add: hist_inv_def answers_def)
next
  case (serve_fault s i d f)
  then show ?case using in_hand_accepted [of s H i d] by (auto simp: hist_inv_def)
qed (simp_all add: hist_inv_def)

lemma hist_inv_outer: "outer_step s s' \<Longrightarrow> hist_inv H s \<Longrightarrow> hist_inv H s'"
proof (induction rule: outer_step.induct)
  case (spurious s i)
  then show ?case using in_hand_update [of i "s_workers s" W_Woken] by (simp add: hist_inv_def)
qed (simp add: hist_inv_def)

subsection \<open>Reachable states\<close>

definition server_inv :: "handler option \<Rightarrow> 'a server_state \<Rightarrow> bool" where
  "server_inv H s \<longleftrightarrow> lock_inv s \<and> queue_inv s \<and> wake_inv s \<and> hist_inv H s"

lemma sum_list_zeros: "sum_list (replicate n 0) = (0 :: 'b::comm_monoid_add)"
  by (induction n) simp_all

lemma server_new_inv: "finite (dom h) \<Longrightarrow> server_inv H (server_start h a)"
  using xqueue_new_holds [of h a]
  by (simp add: server_inv_def lock_ok_def queue_inv_def wake_inv_def hist_inv_def server_start_def
      xqueue_new_def sum_list_zeros)

lemma server_reach_inv: "server_reach H s \<Longrightarrow> server_inv H s"
proof (induction rule: server_reach.induct)
  case (start h a)
  then show ?case by (rule server_new_inv)
next
  case (inner s s')
  then show ?case
    unfolding server_inv_def
    using lock_inv_inner queue_inv_inner wake_inv_inner hist_inv_inner by blast
next
  case (outer s s')
  then show ?case
    unfolding server_inv_def
    using lock_inv_outer queue_inv_outer wake_inv_outer hist_inv_outer by blast
qed

subsection \<open>The work left\<close>

lemma rank_update:
  "i < length ws \<Longrightarrow>
   sum_list (map worker_rank (ws[i := p])) + worker_rank (ws ! i) = sum_list (map worker_rank ws) + worker_rank p"
  by (rule sum_list_map_update)

lemma rank_signal: "signal ws ws' \<Longrightarrow> sum_list (map worker_rank ws') \<le> sum_list (map worker_rank ws) + 2"
proof (elim signalE)
  fix i
  assume "i < length ws" "ws ! i = W_Wait" "ws' = ws[i := W_Woken]"
  then show "sum_list (map worker_rank ws') \<le> sum_list (map worker_rank ws) + 2"
    using rank_update [of i ws W_Woken] by simp
qed simp

lemma work_left_decreases: "inner_step H s s' \<Longrightarrow> queue_inv s \<Longrightarrow> work_left s' < work_left s"
proof (induction rule: inner_step.induct)
  case (recv_link s r a q ws)
  then show ?case
    using rank_signal [of "s_workers s" ws] queue_inv_length [of s] by (simp add: work_left_def Suc_diff_le)
next
  case (work_lock s i)
  then show ?case using rank_update [of i "s_workers s" W_Test] by (auto simp: work_left_def)
next
  case (work_wait s i)
  then show ?case using rank_update [of i "s_workers s" W_Wait] by (simp add: work_left_def)
next
  case (work_take s i d q)
  then show ?case
    using rank_update [of i "s_workers s" "W_Unlock d"] queue_inv_take(2) [of s d q] by (simp add: work_left_def)
next
  case (work_unlock s i d)
  then show ?case using rank_update [of i "s_workers s" "W_Serve d"] by (simp add: work_left_def)
next
  case (work_serve s i d out)
  then show ?case using rank_update [of i "s_workers s" W_Lock] by (simp add: work_left_def)
qed (simp_all add: work_left_def)

text \<open>Threads that hold the mutex, or that serve a request, can always go on; so can one
  that waits for a free mutex.\<close>

lemma worker_enabled:
  assumes "queue_inv s" "s_crash s = None" "i < length (s_workers s)"
    and "s_workers s ! i = W_Test \<or> (\<exists>d. s_workers s ! i = W_Unlock d) \<or> (\<exists>d. s_workers s ! i = W_Serve d)"
  shows "\<exists>s'. inner_step H s s'"
  using assms(4)
proof (elim disjE exE)
  assume w: "s_workers s ! i = W_Test"
  show ?thesis
  proof (cases "xqueue_dequeue (s_queue s)")
    case (Inl f)
    then show ?thesis using inner_step.work_fault assms(2,3) w by blast
  next
    case (Inr r)
    then show ?thesis
      using inner_step.work_wait [OF assms(2,3) w] inner_step.work_take [OF assms(2,3) w]
      by (cases r) fastforce+
  qed
next
  fix d
  assume "s_workers s ! i = W_Unlock d"
  then show ?thesis using inner_step.work_unlock assms(2,3) by blast
next
  fix d
  assume w: "s_workers s ! i = W_Serve d"
  show ?thesis
    using inner_step.work_serve [OF assms(2,3) w] inner_step.serve_fault [OF assms(2,3) w]
    by (cases "worker_serve H d") blast+
qed

lemma fresh_address: "finite (dom (q_heap q)) \<Longrightarrow> \<exists>a. xq_fresh q a"
  using ex_new_if_finite [OF infinite_UNIV_nat, of "dom (q_heap q)"] by (auto simp: xq_fresh_def)

lemma signal_total: "\<exists>ws'. signal ws ws'"
  by (auto simp: signal_def in_set_conv_nth)

lemma receiver_enabled:
  assumes "queue_inv s" "s_crash s = None" "recv_holds (s_recv s)"
  shows "\<exists>s'. inner_step H s s'"
proof (cases "s_recv s")
  case (P_Link r)
  obtain a where a: "xq_fresh (s_queue s) a" using fresh_address assms(1) by (auto simp: queue_inv_def)
  then obtain q where "xqueue_enqueue (s_queue s) a (Some r) = Inr q"
    using xq.enq_holds [of "s_queue s" "map Some (queued s)" a "Some r"] assms(1) by (auto simp: queue_inv_def)
  then show ?thesis
    using inner_step.recv_link [OF assms(2) P_Link a] signal_total by blast
next
  case P_Unlock
  then show ?thesis using inner_step.recv_unlock assms(2) by blast
qed (use assms in simp_all)

lemma stuck_state:
  assumes inv: "server_inv H s" and live: "s_crash s = None" and stuck: "\<nexists>s'. inner_step H s s'"
  shows "s_lock s = None \<and> s_recv s = P_Recv \<and> s_workers s = replicate WORKERS W_Wait \<and> queued s = []"
proof -
  have l: "lock_inv s" and q: "queue_inv s" and w: "wake_inv s" using inv by (simp_all add: server_inv_def)
  note worker = worker_enabled [OF q live] and receiver = receiver_enabled [OF q live]
  have free: "s_lock s = None"
  proof (cases "s_lock s")
    case (Some t)
    then show ?thesis
    proof (cases t)
      case Receiver
      then have "recv_holds (s_recv s)" using Some l lock_ok_owner(1) by metis
      then show ?thesis using receiver stuck by blast
    next
      case (Worker i)
      then have "i < length (s_workers s)" "holds_lock (s_workers s ! i)" using Some l lock_ok_owner(2) by metis+
      then show ?thesis using worker [of i] stuck by (cases "s_workers s ! i") simp_all
    qed
  qed simp
  have recv: "s_recv s = P_Recv"
    using receiver inner_step.recv_lock [OF live _ free] stuck by (cases "s_recv s") auto
  have "s_workers s ! i = W_Wait" if "i < length (s_workers s)" for i
    using that worker [OF that] inner_step.work_lock [OF live that _ free] stuck
    by (cases "s_workers s ! i") (simp_all, blast+)
  then have ws: "s_workers s = replicate WORKERS W_Wait"
    using l by (intro nth_equalityI) (auto simp: lock_ok_def)
  then have "queued s = []" using w by (simp add: wake_inv_def sum_list_replicate)
  with free recv ws show ?thesis by simp
qed

lemma stuck_served:
  assumes inv: "server_inv H s" and live: "s_crash s = None" and stuck: "\<nexists>s'. inner_step H s s'"
  shows "mset (s_served s) = mset (map Some (s_accepted s))"
proof -
  note st = stuck_state [OF assms]
  have len: "length (s_accepted s) \<le> length (s_taken s)" using st by simp
  have "s_taken s = map Some (take (length (s_taken s)) (s_accepted s))"
    using inv by (simp add: server_inv_def queue_inv_def)
  also have "\<dots> = map Some (s_accepted s)" using len by simp
  finally show ?thesis
    using inv st by (simp add: server_inv_def hist_inv_def sum_list_zeros)
qed

lemma rest_sent:
  assumes inv: "server_inv H s" and live: "s_crash s = None" and stuck: "\<nexists>s'. inner_step H s s'"
  shows "mset (s_sent s) = (\<Sum>r \<in># mset (s_accepted s). mset (answers H (Some r)))"
proof -
  have "mset (concat (map (answers H) ds)) = (\<Sum>d \<in># mset ds. mset (answers H d))" for ds :: "'a udp_request_t option list"
    by (induction ds) simp_all
  then have "mset (s_sent s) = (\<Sum>d \<in># mset (s_served s). mset (answers H d))"
    using inv by (simp add: server_inv_def hist_inv_def)
  also have "\<dots> = (\<Sum>r \<in># mset (s_accepted s). mset (answers H (Some r)))"
    using stuck_served [OF inv live stuck] by (simp add: image_mset.compositionality comp_def)
  finally show ?thesis .
qed

lemma no_crash:
  assumes "server_reach H s" "\<forall>r \<in> set (s_accepted s). no_fault (worker_serve H (Some r))"
  shows "s_crash s = None"
  using server_reach_inv [OF assms(1)] assms(2) by (cases "s_crash s") (auto simp: server_inv_def hist_inv_def)

interpretation server_steps: bounded_steps "inner_step H" "server_reach H" work_left for H
proof
  show "server_reach H s'" if "server_reach H s" "inner_step H s s'" for s s' :: "'a server_state"
    using that by (rule server_reach.inner)
  show "work_left s' < work_left s" if "server_reach H s" "inner_step H s s'" for s s' :: "'a server_state"
    using work_left_decreases [OF that(2)] server_reach_inv [OF that(1)] by (simp add: server_inv_def)
qed

lemma accepted_grows: "inner_step H s s' \<Longrightarrow> set (s_accepted s) \<subseteq> set (s_accepted s')"
  by (induction rule: inner_step.induct) auto

lemma accepted_grows_run: "(inner_step H)\<^sup>*\<^sup>* s s' \<Longrightarrow> set (s_accepted s) \<subseteq> set (s_accepted s')"
  by (induction rule: rtranclp_induct) (use accepted_grows in blast)+

lemma settled_run:
  "(inner_step H)\<^sup>*\<^sup>* s s' \<Longrightarrow> s_recv s \<in> {P_Unlock, P_Recv} \<Longrightarrow>
   s_recv s' \<in> {P_Unlock, P_Recv} \<and> s_accepted s' = s_accepted s"
proof (induction rule: rtranclp_induct)
  case (step s1 s2)
  from step.hyps(2) step.prems step.IH show ?case by (elim inner_stepE) auto
qed simp

subsection \<open>Properties\<close>

definition in_critical :: "'a server_state \<Rightarrow> thread \<Rightarrow> bool" where
  "in_critical s t \<longleftrightarrow> (case t of Receiver \<Rightarrow> recv_holds (s_recv s)
     | Worker i \<Rightarrow> i < length (s_workers s) \<and> holds_lock (s_workers s ! i))"

definition poison :: "nat udp_request_t" where
  "poison = \<lparr>req_addr = 0, req_data = wire large_packet, req_length = int (length (wire large_packet))\<rparr>"

lemma fresh_server_reach: "server_reach H (server_start Map.empty 0)"
  by (rule server_reach.start) simp

lemma accept_run:
  assumes "req_length r = int (length (req_data r))" "0 < length (req_data r)" "length (req_data r) \<le> 65536"
  shows "\<exists>s. udp_server_run H (server_start Map.empty a) s \<and> s_accepted s = [r] \<and> s_recv s = P_Unlock"
proof -
  let ?s = "server_start Map.empty a" and ?any = "\<lambda>s s'. inner_step H s s' \<or> outer_step s s'"
  let ?b = "req_data r @ replicate (65536 - length (req_data r)) 0"
  have "length ?b = 65536" using assms(3) by simp
  moreover have "udp_receive (req_addr r) ?b (int (length (req_data r))) = Inr (Some r)"
    using assms by (simp add: udp_receive_def mem_read_def)
  ultimately have "outer_step ?s (?s\<lparr>s_recv := P_Lock r\<rparr>)"
    by (intro outer_step.receive) (simp_all add: server_start_def)
  then have s1: "?any\<^sup>*\<^sup>* ?s (?s\<lparr>s_recv := P_Lock r\<rparr>)" by blast
  let ?s2 = "?s\<lparr>s_recv := P_Link r, s_lock := Some Receiver\<rparr>"
  have "inner_step H (?s\<lparr>s_recv := P_Lock r\<rparr>) (?s\<lparr>s_recv := P_Lock r\<rparr>\<lparr>s_recv := P_Link r, s_lock := Some Receiver\<rparr>)"
    by (rule inner_step.recv_lock) (simp_all add: server_start_def)
  then have s2: "?any\<^sup>*\<^sup>* ?s ?s2" using rtranclp.rtrancl_into_rtrancl [OF s1] by simp
  have f: "xq_fresh (s_queue ?s2) (Suc a)" by (simp add: xq_fresh_def server_start_def xqueue_new_def)
  obtain q where "xqueue_enqueue (s_queue ?s2) (Suc a) (Some r) = Inr q"
    by (simp add: server_start_def xqueue_new_def xqueue_enqueue_def)
  then have "inner_step H ?s2 (?s2\<lparr>s_queue := q, s_recv := P_Unlock, s_workers := s_workers ?s2, s_accepted := s_accepted ?s2 @ [r]\<rparr>)"
    using f by (intro inner_step.recv_link) (auto simp: server_start_def signal_def)
  then have "udp_server_run H ?s (?s2\<lparr>s_queue := q, s_recv := P_Unlock, s_workers := s_workers ?s2, s_accepted := s_accepted ?s2 @ [r]\<rparr>)"
    unfolding udp_server_run_def using rtranclp.rtrancl_into_rtrancl [OF s2] by blast
  then show ?thesis by (intro exI conjI) (auto simp: server_start_def)
qed

lemma accept_one:
  assumes "req_length r = int (length (req_data r))" "0 < length (req_data r)" "length (req_data r) \<le> 65536"
  shows "\<exists>s. server_reach H s \<and> s_accepted s = [r] \<and> s_recv s = P_Unlock"
  using accept_run [OF assms, of H 0] udp_server_run_reach [OF _ fresh_server_reach] by blast

text \<open>C17. Mutual exclusion: in every reachable state of the server at most one of the
  nine threads is inside a critical section of the queue, and it is the one that
  holds the mutex.\<close>

theorem server_mutual_exclusion:
  assumes "server_reach H s" and "in_critical s t"
  shows "s_lock s = Some t"
  using server_reach_inv [OF assms(1)] assms(2)
  by (auto simp: server_inv_def lock_ok_def in_critical_def split: thread.splits)

theorem server_mutual_exclusion_witness:
  "\<exists>s :: nat server_state. server_reach None s \<and> in_critical s (Worker 3) \<and> s_lock s = Some (Worker 3)"
proof -
  let ?s = "server_start Map.empty 0 :: nat server_state"
  have "server_reach None ?s" by (rule fresh_server_reach)
  moreover have "inner_step None ?s (?s\<lparr>s_workers := (s_workers ?s)[3 := W_Test], s_lock := Some (Worker 3)\<rparr>)"
    by (rule inner_step.work_lock) (simp_all add: server_start_def)
  ultimately have r: "server_reach None (?s\<lparr>s_workers := (s_workers ?s)[3 := W_Test], s_lock := Some (Worker 3)\<rparr>)"
    by (rule server_reach.inner)
  show ?thesis
    using server_mutual_exclusion [OF r, of "Worker 3"] r
    by (intro exI conjI) (auto simp: in_critical_def server_start_def)
qed

text \<open>C10. In every reachable state the requests taken by the workers are, in order, the
  first ones that were accepted, the queue holds exactly the others, each request
  taken was served once or is in the hands of one worker, and what was sent are
  the handler's answers to the requests served: no request is lost, duplicated or
  overtaken in the queue.\<close>

theorem server_history:
  assumes "server_reach H s"
  shows "s_taken s = map Some (take (length (s_taken s)) (s_accepted s))
       \<and> xq_holds (s_queue s) (map Some (drop (length (s_taken s)) (s_accepted s)))
       \<and> mset (s_taken s) = mset (s_served s) + sum_list (map in_hand (s_workers s))
       \<and> s_sent s = concat (map (answers H) (s_served s))"
  using server_reach_inv [OF assms] by (simp add: server_inv_def queue_inv_def hist_inv_def)

theorem server_history_witness:
  "xq_holds (s_queue (server_start Map.empty 0 :: nat server_state)) []"
  using server_history [OF fresh_server_reach, where 'a = nat] by (simp add: server_start_def)

text \<open>C3. No lost wake-up and no deadlock: from every reachable state the threads alone
  make only as many steps as the work left allows, so that they come to rest when
  no datagram arrives; and when they can make no step and the process has not
  crashed, the mutex is free, all workers wait, the queue is empty and every
  accepted request was answered.\<close>

theorem server_comes_to_rest:
  assumes "server_reach H s"
  shows "(\<forall>n s'. (inner_step H ^^ n) s s' \<longrightarrow> n \<le> work_left s)
       \<and> (s_crash s = None \<and> (\<nexists>s'. inner_step H s s') \<longrightarrow>
            s_lock s = None \<and> s_recv s = P_Recv \<and> s_workers s = replicate WORKERS W_Wait
            \<and> xqueue_dequeue (s_queue s) = Inr None
            \<and> mset (s_sent s) = (\<Sum>r \<in># mset (s_accepted s). mset (answers H (Some r))))"
proof (intro conjI allI impI)
  show "n \<le> work_left s" if "(inner_step H ^^ n) s s'" for n s'
    using that assms by (rule server_steps.run_bounded)
next
  assume rest: "s_crash s = None \<and> (\<nexists>s'. inner_step H s s')"
  note inv = server_reach_inv [OF assms]
  have st: "s_lock s = None \<and> s_recv s = P_Recv \<and> s_workers s = replicate WORKERS W_Wait \<and> queued s = []"
    by (rule stuck_state [OF inv conjunct1 [OF rest] conjunct2 [OF rest]])
  then show "s_lock s = None" "s_recv s = P_Recv" "s_workers s = replicate WORKERS W_Wait"
    "xqueue_dequeue (s_queue s) = Inr None"
    using queue_empty_iff [of s] inv by (simp_all add: server_inv_def)
  show "mset (s_sent s) = (\<Sum>r \<in># mset (s_accepted s). mset (answers H (Some r)))"
    by (rule rest_sent [OF inv conjunct1 [OF rest] conjunct2 [OF rest]])
qed

theorem server_comes_to_rest_witness:
  "\<exists>s :: nat server_state. server_reach None s \<and> s_accepted s = [poison]
     \<and> s_workers s = replicate WORKERS W_Wait \<and> xqueue_dequeue (s_queue s) = Inr None"
proof -
  have "length (wire large_packet) = 111"
    using length_wire [of large_packet] by (simp add: large_packet_def packet_wf_def)
  then obtain s where s: "server_reach None s" "s_accepted s = [poison]" "s_recv s = P_Unlock"
    using accept_one [of poison None] by (auto simp: poison_def)
  obtain s' where s': "(inner_step None)\<^sup>*\<^sup>* s s'" "server_reach None s'" "\<nexists>s''. inner_step None s' s''"
    using server_steps.comes_to_rest [OF s(1)] by blast
  have "s_accepted s' = [poison]" using settled_run [OF s'(1)] s(2,3) by simp
  moreover have "s_crash s' = None" by (rule no_crash [OF s'(2)]) (simp add: worker_serve_def)
  ultimately show ?thesis using server_comes_to_rest [OF s'(2)] s'(2,3) by blast
qed

text \<open>A state without a step in which a request was accepted on which the handler faults.\<close>

lemma stuck_crash:
  assumes "server_reach H s" "\<nexists>s'. inner_step H s s'" "r \<in> set (s_accepted s)" "\<not> no_fault (worker_serve H (Some r))"
  shows "s_crash s \<noteq> None"
proof
  assume "s_crash s = None"
  then have "set (s_served s) = Some ` set (s_accepted s)"
    using stuck_served [OF server_reach_inv [OF assms(1)]] assms(2) by (metis set_map set_mset_mset)
  then show False
    using assms(3,4) server_reach_inv [OF assms(1)] by (auto simp: server_inv_def hist_inv_def)
qed

text \<open>The process crashes exactly through its handler: the queue operations never
  fault, a crash is a fault of the handler on some accepted request, and once a
  request is accepted on which the handler faults, there is a run to a crash and the
  threads cannot come to rest without one.\<close>

lemma server_crash:
  assumes "server_reach H s"
  shows "(\<forall>f. s_crash s = Some f \<longrightarrow> (\<exists>r \<in> set (s_accepted s). worker_serve H (Some r) = Inl f))
       \<and> ((\<exists>r \<in> set (s_accepted s). \<not> no_fault (worker_serve H (Some r))) \<longrightarrow>
            (\<exists>s'. (inner_step H)\<^sup>*\<^sup>* s s' \<and> s_crash s' \<noteq> None)
          \<and> (\<forall>s'. (inner_step H)\<^sup>*\<^sup>* s s' \<and> (\<nexists>s''. inner_step H s' s'') \<longrightarrow> s_crash s' \<noteq> None))"
proof (intro conjI impI)
  show "\<forall>f. s_crash s = Some f \<longrightarrow> (\<exists>r \<in> set (s_accepted s). worker_serve H (Some r) = Inl f)"
    using server_reach_inv [OF assms] by (simp add: server_inv_def hist_inv_def)
next
  assume "\<exists>r \<in> set (s_accepted s). \<not> no_fault (worker_serve H (Some r))"
  then obtain r where r: "r \<in> set (s_accepted s)" "\<not> no_fault (worker_serve H (Some r))" by blast
  have stuck: "s_crash s' \<noteq> None" if s': "(inner_step H)\<^sup>*\<^sup>* s s'" "\<nexists>s''. inner_step H s' s''" for s'
    by (rule stuck_crash [OF server_steps.run_keeps [OF s'(1) assms] s'(2) _ r(2)]) (use accepted_grows_run [OF s'(1)] r(1) in blast)
  then show "\<forall>s'. (inner_step H)\<^sup>*\<^sup>* s s' \<and> (\<nexists>s''. inner_step H s' s'') \<longrightarrow> s_crash s' \<noteq> None" by blast
  show "\<exists>s'. (inner_step H)\<^sup>*\<^sup>* s s' \<and> s_crash s' \<noteq> None"
    using server_steps.comes_to_rest [OF assms] stuck by blast
qed

lemma poison_faults:
  "worker_serve (Some (node_request_handler d gn g gs)) (Some poison) = Inl Out_Of_Bounds"
proof -
  have wf: "packet_wf large_packet" "payload_len large_packet \<noteq> 0" "85 \<le> unat (payload_len large_packet)"
    by (simp_all add: large_packet_def packet_wf_def)
  then have "node_request_handler d gn g gs (wire large_packet) (length (wire large_packet)) = Inl Out_Of_Bounds"
    using parse_wire [OF wf(1)] packet_print_faults [OF wf(1,3)]
    by (simp add: node_request_handler_def packet_norm_def)
  then show ?thesis by (simp add: worker_serve_def poison_def)
qed

lemma server_crash_witness:
  "\<exists>s s' :: nat server_state. server_reach (Some (node_request_handler initial_dispatcher None (\<lambda>_. 0) (\<lambda>_. NUL))) s
     \<and> (inner_step (Some (node_request_handler initial_dispatcher None (\<lambda>_. 0) (\<lambda>_. NUL))))\<^sup>*\<^sup>* s s' \<and> s_crash s' \<noteq> None"
proof -
  let ?H = "Some (node_request_handler initial_dispatcher None (\<lambda>_. 0) (\<lambda>_. NUL))"
  have "length (wire large_packet) = 111"
    using length_wire [of large_packet] by (simp add: large_packet_def packet_wf_def)
  then obtain s where s: "server_reach ?H s" "s_accepted s = [poison]" "s_recv s = P_Unlock"
    using accept_one [of poison ?H] by (auto simp: poison_def)
  then show ?thesis
    using server_crash [OF s(1)] poison_faults [of initial_dispatcher None "\<lambda>_. 0" "\<lambda>_. NUL"] by auto
qed

text \<open>C37. One datagram stops the node: for the handler the node installs there is a run
  of the server, started by a single received packet of 85 payload bytes, that ends
  in a write outside the debug string.\<close>

theorem one_datagram_crash:
  "\<exists>s s' :: nat server_state.
     server_reach (Some (node_request_handler (load_commands initial_dispatcher) (Some hash) g gs)) s
     \<and> s_accepted s = [poison]
     \<and> (inner_step (Some (node_request_handler (load_commands initial_dispatcher) (Some hash) g gs)))\<^sup>*\<^sup>* s s'
     \<and> s_crash s' = Some Out_Of_Bounds"
proof -
  let ?H = "Some (node_request_handler (load_commands initial_dispatcher) (Some hash) g gs)"
  have "length (wire large_packet) = 111"
    using length_wire [of large_packet] by (simp add: large_packet_def packet_wf_def)
  then obtain s where s: "server_reach ?H s" "s_accepted s = [poison]" "s_recv s = P_Unlock"
    using accept_one [of poison ?H] by (auto simp: poison_def)
  obtain s' where s': "(inner_step ?H)\<^sup>*\<^sup>* s s'" "server_reach ?H s'" "\<nexists>s''. inner_step ?H s' s''"
    using server_steps.comes_to_rest [OF s(1)] by blast
  note inv = server_reach_inv [OF s'(2)]
  have fault: "worker_serve ?H (Some poison) = Inl Out_Of_Bounds" by (rule poison_faults)
  have acc: "s_accepted s' = [poison]" using settled_run [OF s'(1)] s(2,3) by simp
  have "s_crash s' \<noteq> None"
    by (rule stuck_crash [OF s'(2,3), of poison]) (simp_all add: acc fault no_fault_def)
  then have "s_crash s' = Some Out_Of_Bounds"
    using inv fault acc by (auto simp: server_inv_def hist_inv_def)
  with s s' show ?thesis by blast
qed

end
