(* ===== verification/Server_Destroy.thy ===== *)
theory Server_Destroy
  imports Udp_Server
begin

text \<open>
  \<open>udp_server_destroy\<close> (\<open>src/src/transfer/udp.c\<close>) and the \<open>xqueue_destroy\<close> it calls
  (\<open>src/src/helpers/xqueue.c\<close>), statement by statement on the main thread, while the workers
  go on. The main thread is the thread \<open>Receiver\<close> of theory \<open>Udp_Server\<close>, which is not in the receiving
  loop then.

  The rules of POSIX: a destroyed mutex or condition variable must not be used; a mutex that is locked or that a thread
  inside \<open>pthread_cond_wait\<close> refers to and a condition variable with waiting threads must not be destroyed (\<open>Sync_Misuse\<close>); and a freed queue must not be
  used (\<open>Dangling\<close>). A cancelled thread ends at its next cancellation point; of the calls of a worker these are
  \<open>pthread_cond_wait\<close>, from which it returns with the mutex locked, and \<open>sendto\<close>.
\<close>

subsection \<open>The statements\<close>

datatype destroy_pc =
    D_Lock              \<comment> \<open>before \<open>pthread_mutex_lock\<close> in \<open>xqueue_destroy\<close>\<close>
  | D_Nodes             \<comment> \<open>before the loop that frees the nodes\<close>
  | D_Unlock            \<comment> \<open>before \<open>pthread_mutex_unlock\<close>\<close>
  | D_Mutex             \<comment> \<open>before \<open>pthread_mutex_destroy\<close>\<close>
  | D_Cond              \<comment> \<open>before \<open>pthread_cond_destroy\<close>\<close>
  | D_Queue             \<comment> \<open>before \<open>free(queue)\<close>\<close>
  | D_Cancel nat        \<comment> \<open>back in \<open>udp_server_destroy\<close>, before \<open>pthread_cancel\<close> of that worker\<close>
  | D_Join nat          \<comment> \<open>in \<open>pthread_join\<close> of that worker\<close>
  | D_Workers           \<comment> \<open>before \<open>free(server->workers)\<close>\<close>
  | D_Server            \<comment> \<open>before \<open>free(server)\<close>\<close>
  | D_Done

record 'a destroy_state =
  de_pc :: destroy_pc
  de_server :: "'a server_state"
  de_mutex :: bool              \<comment> \<open>the mutex is initialised\<close>
  de_cond :: bool               \<comment> \<open>the condition variable is initialised\<close>
  de_queue :: bool              \<comment> \<open>the queue is allocated\<close>
  de_workers :: bool            \<comment> \<open>the array of the threads is allocated\<close>
  de_struct :: bool             \<comment> \<open>the server is allocated\<close>
  de_cancelled :: "nat set"
  de_ended :: "nat set"
  de_fault :: "c_fault option"

definition destroy_start :: "'a server_state \<Rightarrow> 'a destroy_state" where
  "destroy_start s = \<lparr>de_pc = D_Lock, de_server = s, de_mutex = True, de_cond = True, de_queue = True,
     de_workers = True, de_struct = True, de_cancelled = {}, de_ended = {}, de_fault = None\<rparr>"

text \<open>A worker waits on the condition variable.\<close>

definition queue_waiting :: "'a destroy_state \<Rightarrow> bool" where
  "queue_waiting d \<longleftrightarrow> (\<exists>i < length (s_workers (de_server d)). i \<notin> de_ended d \<and> s_workers (de_server d) ! i = W_Wait)"

text \<open>The next statement of the main thread; \<open>None\<close> where it has to wait.\<close>

definition destroy_advance :: "'a destroy_state \<Rightarrow> 'a destroy_state run" where
  "destroy_advance d =
     (let s = de_server d in
      case de_pc d of
        D_Lock \<Rightarrow> if s_lock s = None then Some (Inr (d\<lparr>de_server := s\<lparr>s_lock := Some Receiver\<rparr>, de_pc := D_Nodes\<rparr>)) else None
      | D_Nodes \<Rightarrow>
          run_bind (xqueue_free_nodes (s_queue s)) (\<lambda>h.
          Some (Inr (d\<lparr>de_server := s\<lparr>s_queue := (s_queue s)\<lparr>q_heap := h\<rparr>\<rparr>, de_pc := D_Unlock\<rparr>)))
      | D_Unlock \<Rightarrow> Some (Inr (d\<lparr>de_server := s\<lparr>s_lock := None\<rparr>, de_pc := D_Mutex\<rparr>))
      | D_Mutex \<Rightarrow> if s_lock s \<noteq> None \<or> queue_waiting d then Some (Inl Sync_Misuse) else Some (Inr (d\<lparr>de_mutex := False, de_pc := D_Cond\<rparr>))
      | D_Cond \<Rightarrow> if queue_waiting d then Some (Inl Sync_Misuse) else Some (Inr (d\<lparr>de_cond := False, de_pc := D_Queue\<rparr>))
      | D_Queue \<Rightarrow> Some (Inr (d\<lparr>de_queue := False, de_pc := D_Cancel 0\<rparr>))
      | D_Cancel i \<Rightarrow>
          if i < WORKERS then Some (Inr (d\<lparr>de_cancelled := insert i (de_cancelled d), de_pc := D_Join i\<rparr>))
          else Some (Inr (d\<lparr>de_pc := D_Workers\<rparr>))
      | D_Join i \<Rightarrow> if i \<in> de_ended d then Some (Inr (d\<lparr>de_pc := D_Cancel (i + 1)\<rparr>)) else None
      | D_Workers \<Rightarrow> Some (Inr (d\<lparr>de_workers := False, de_pc := D_Server\<rparr>))
      | D_Server \<Rightarrow> Some (Inr (d\<lparr>de_struct := False, de_pc := D_Done\<rparr>))
      | D_Done \<Rightarrow> None)"

subsection \<open>The workers meanwhile\<close>

text \<open>The queue with its mutex and condition variable can be used.\<close>

definition queue_usable :: "'a destroy_state \<Rightarrow> bool" where
  "queue_usable d \<longleftrightarrow> de_mutex d \<and> de_cond d \<and> de_queue d"

text \<open>The places from which the next step of a worker uses the queue.\<close>

fun uses_queue :: "'a worker_pc \<Rightarrow> bool" where
  "uses_queue (W_Serve r) = False"
| "uses_queue W_Wait = False"
| "uses_queue _ = True"

definition misuse :: "'a destroy_state \<Rightarrow> c_fault" where
  "misuse d = (if de_queue d then Sync_Misuse else Dangling)"

definition destroying :: "'a destroy_state \<Rightarrow> bool" where
  "destroying d \<longleftrightarrow> de_fault d = None \<and> s_crash (de_server d) = None"

inductive destroy_step :: "handler option \<Rightarrow> 'a destroy_state \<Rightarrow> 'a destroy_state \<Rightarrow> bool" for H where
  destroyer: "destroying d \<Longrightarrow> destroy_advance d = Some (Inr d') \<Longrightarrow> destroy_step H d d'"
| destroyer_fault: "destroying d \<Longrightarrow> destroy_advance d = Some (Inl f) \<Longrightarrow> destroy_step H d (d\<lparr>de_fault := Some f\<rparr>)"
| work: "destroying d \<Longrightarrow> i < WORKERS \<Longrightarrow> i \<notin> de_ended d \<Longrightarrow>
    uses_queue (s_workers (de_server d) ! i) \<longrightarrow> queue_usable d \<Longrightarrow>
    inner_step H (de_server d) s \<Longrightarrow> moved H (Worker i) (de_server d) s \<Longrightarrow>
    destroy_step H d (d\<lparr>de_server := s\<rparr>)"
| work_misuse: "destroying d \<Longrightarrow> i < WORKERS \<Longrightarrow> i \<notin> de_ended d \<Longrightarrow>
    uses_queue (s_workers (de_server d) ! i) \<Longrightarrow> \<not> queue_usable d \<Longrightarrow>
    destroy_step H d (d\<lparr>de_fault := Some (misuse d)\<rparr>)"
| spurious: "destroying d \<Longrightarrow> outer_step (de_server d) s \<Longrightarrow> s_recv s = s_recv (de_server d) \<Longrightarrow>
    destroy_step H d (d\<lparr>de_server := s\<rparr>)"
| cancel_send: "destroying d \<Longrightarrow> i \<in> de_cancelled d \<Longrightarrow> i \<notin> de_ended d \<Longrightarrow>
    s_workers (de_server d) ! i = W_Serve (Some r) \<Longrightarrow> worker_serve H (Some r) = Inr out \<Longrightarrow> H \<noteq> None \<Longrightarrow>
    destroy_step H d (d\<lparr>de_ended := insert i (de_ended d)\<rparr>)"
| cancel_wait: "destroying d \<Longrightarrow> i \<in> de_cancelled d \<Longrightarrow> i \<notin> de_ended d \<Longrightarrow>
    s_workers (de_server d) ! i \<in> {W_Wait, W_Woken} \<Longrightarrow> queue_usable d \<Longrightarrow> s_lock (de_server d) = None \<Longrightarrow>
    destroy_step H d (d\<lparr>de_server := (de_server d)\<lparr>s_lock := Some (Worker i)\<rparr>, de_ended := insert i (de_ended d)\<rparr>)"
| cancel_misuse: "destroying d \<Longrightarrow> i \<in> de_cancelled d \<Longrightarrow> i \<notin> de_ended d \<Longrightarrow>
    s_workers (de_server d) ! i = W_Wait \<Longrightarrow> \<not> queue_usable d \<Longrightarrow>
    destroy_step H d (d\<lparr>de_fault := Some (misuse d)\<rparr>)"

text \<open>What \<open>udp_server_destroy\<close> can end in: a fault, of its own or of a worker, or a normal return.\<close>

definition udp_server_destroy :: "handler option \<Rightarrow> 'a server_state \<Rightarrow> unit faulty \<Rightarrow> bool" where
  "udp_server_destroy H s r \<longleftrightarrow> (\<exists>d. (destroy_step H)\<^sup>*\<^sup>* (destroy_start s) d \<and>
     (if de_fault d \<noteq> None then r = Inl (the (de_fault d))
      else if s_crash (de_server d) \<noteq> None then r = Inl (the (s_crash (de_server d)))
      else de_pc d = D_Done \<and> r = Inr ()))"

subsection \<open>Properties\<close>

text \<open>The main thread alone, up to the destruction of the mutex.\<close>

lemma destroy_nodes_run:
  assumes "queue_inv s" "s_lock s = None" "s_crash s = None"
  shows "\<exists>h. (destroy_step H)\<^sup>*\<^sup>* (destroy_start s)
           ((destroy_start s)\<lparr>de_server := s\<lparr>s_queue := (s_queue s)\<lparr>q_heap := h\<rparr>\<rparr>, de_pc := D_Mutex\<rparr>)"
proof -
  obtain as where "xq_repr (s_queue s) as (map Some (queued s))"
    using assms(1) by (auto simp: queue_inv_def xq_holds_def)
  then obtain h where h: "xqueue_free_nodes (s_queue s) = Some (Inr h)" using xqueue_free_nodes_frees by blast
  let ?at = "\<lambda>s pc. (destroy_start s)\<lparr>de_pc := pc\<rparr>"
  let ?s = "s\<lparr>s_queue := (s_queue s)\<lparr>q_heap := h\<rparr>\<rparr>"
  have go: "destroy_step H d d'" if "destroying d" "destroy_advance d = Some (Inr d')" for d d'
    using that by (rule destroy_step.destroyer)
  note defs = destroying_def destroy_advance_def destroy_start_def
  have 1: "destroy_step H (destroy_start s) (?at (s\<lparr>s_lock := Some Receiver\<rparr>) D_Nodes)"
    by (rule go) (simp_all add: defs assms)
  have 2: "destroy_step H (?at (s\<lparr>s_lock := Some Receiver\<rparr>) D_Nodes) (?at (?s\<lparr>s_lock := Some Receiver\<rparr>) D_Unlock)"
    by (rule go) (simp_all add: defs assms h)
  have "s\<lparr>s_queue := (s_queue s)\<lparr>q_heap := h\<rparr>, s_lock := None\<rparr> = ?s" using assms(2) by (cases s) simp
  then have 3: "destroy_step H (?at (?s\<lparr>s_lock := Some Receiver\<rparr>) D_Unlock) ((destroy_start s)\<lparr>de_server := ?s, de_pc := D_Mutex\<rparr>)"
    by (intro go) (simp_all add: defs assms)
  show ?thesis using 1 2 3 by (meson converse_rtranclp_into_rtranclp r_into_rtranclp)
qed

lemma destroy_misuse:
  assumes "server_reach H s" and "s_crash s = None" and "s_lock s = None"
    and "i < WORKERS" and "\<forall>r. s_workers s ! i \<noteq> W_Serve r"
  shows "\<exists>d. (destroy_step H)\<^sup>*\<^sup>* (destroy_start s) d \<and> de_fault d = Some Sync_Misuse \<and> de_cancelled d = {}"
proof -
  have inv: "lock_inv s" "queue_inv s" using server_reach_inv [OF assms(1)] by (simp_all add: server_inv_def)
  then have i: "i < length (s_workers s)" "\<not> holds_lock (s_workers s ! i)"
    using assms(3,4) by (auto simp: lock_ok_def)
  obtain h where run: "(destroy_step H)\<^sup>*\<^sup>* (destroy_start s)
      ((destroy_start s)\<lparr>de_server := s\<lparr>s_queue := (s_queue s)\<lparr>q_heap := h\<rparr>\<rparr>, de_pc := D_Mutex\<rparr>)"
    using destroy_nodes_run [OF inv(2) assms(3,2)] by blast
  let ?d = "(destroy_start s)\<lparr>de_server := s\<lparr>s_queue := (s_queue s)\<lparr>q_heap := h\<rparr>\<rparr>, de_pc := D_Mutex\<rparr>"
  have d: "destroying ?d" using assms(2) by (simp add: destroying_def destroy_start_def)
  show ?thesis
  proof (cases "queue_waiting ?d")
    case True
    then have "destroy_step H ?d (?d\<lparr>de_fault := Some Sync_Misuse\<rparr>)"
      by (intro destroy_step.destroyer_fault [OF d]) (simp add: destroy_advance_def)
    with run have "(destroy_step H)\<^sup>*\<^sup>* (destroy_start s) (?d\<lparr>de_fault := Some Sync_Misuse\<rparr>)"
      by (rule rtranclp.rtrancl_into_rtrancl)
    then show ?thesis by (intro exI conjI) (assumption, simp_all add: destroy_start_def)
  next
    case False
    let ?d' = "?d\<lparr>de_mutex := False, de_pc := D_Cond\<rparr>"
    have d': "destroying ?d'" using d by (simp add: destroying_def)
    have "s_workers s ! i \<noteq> W_Wait" using False i(1) by (auto simp: queue_waiting_def destroy_start_def)
    then have "uses_queue (s_workers (de_server ?d') ! i)"
      using i(2) assms(5) by (cases "s_workers s ! i") simp_all
    then have "destroy_step H ?d' (?d'\<lparr>de_fault := Some Sync_Misuse\<rparr>)"
      using destroy_step.work_misuse [OF d' assms(4)] by (simp add: queue_usable_def misuse_def destroy_start_def)
    moreover have "destroy_step H ?d ?d'"
      using False assms(3) by (intro destroy_step.destroyer [OF d]) (simp add: destroy_advance_def destroy_start_def)
    ultimately have "(destroy_step H)\<^sup>*\<^sup>* (destroy_start s) (?d'\<lparr>de_fault := Some Sync_Misuse\<rparr>)"
      using run by (meson rtranclp.rtrancl_into_rtrancl)
    then show ?thesis by (intro exI conjI) (assumption, simp_all add: destroy_start_def)
  qed
qed

text \<open>So can the program, if it came to these statements.\<close>

lemma destroy_faults:
  assumes "server_reach H s" "s_crash s = None" "s_lock s = None" "i < WORKERS" "\<forall>r. s_workers s ! i \<noteq> W_Serve r"
  shows "udp_server_destroy H s (Inl Sync_Misuse)"
  using destroy_misuse [OF assms] by (force simp: udp_server_destroy_def)

text \<open>C40. \<open>udp_server_destroy\<close> destroys the queue under its workers: called in any state of the server in which the
  mutex is free and some worker is not inside the request handler, it has a run that comes to undefined
  behaviour before the first worker is cancelled. If a worker waits for a request, the mutex it has to lock again
  is destroyed under it; if none does, one comes back for a request and locks the destroyed mutex.\<close>

theorem destroy_before_cancel:
  assumes "server_reach H s" and "s_crash s = None" and "s_lock s = None"
    and "i < WORKERS" and "\<forall>r. s_workers s ! i \<noteq> W_Serve r"
  shows "\<exists>d. (destroy_step H)\<^sup>*\<^sup>* (destroy_start s) d \<and> de_fault d = Some Sync_Misuse \<and> de_cancelled d = {}"
  using assms by (rule destroy_misuse)

theorem destroy_before_cancel_witness:
  "\<exists>d. (destroy_step None)\<^sup>*\<^sup>* (destroy_start (server_start Map.empty 0 :: nat server_state)) d
     \<and> de_fault d = Some Sync_Misuse \<and> de_cancelled d = {}"
  by (rule destroy_before_cancel [where i = 0, OF fresh_server_reach]) (simp_all add: server_start_def)

end
