(* ===== verification/Udp_Client.thy ===== *)
theory Udp_Client
  imports Request_Handler "HOL-Library.Signed_Division"
begin

text \<open>
  \<open>src/src/transfer/udp_client.c\<close> with \<open>udp_client.h\<close>: the client that sends one packet
  and waits for one answer.

  A client pointer is null, points to a freed block, or points to a client. What the
  system calls give is an argument: the results of \<open>socket\<close>, \<open>inet_pton\<close>, \<open>sendto\<close>,
  \<open>select\<close>, \<open>FD_ISSET\<close> and \<open>recvfrom\<close>, with the contents of the receive buffer.
\<close>

subsection \<open>The structures\<close>

record udp_client_t =
  client_fd :: int
  timeout_ms :: int

datatype client_ptr = Null_Client | Freed_Client | Client udp_client_t

record net_outcome =
  pton_result :: int
  sendto_result :: int
  select_result :: int
  fd_isset :: bool
  recvfrom_result :: int
  recv_buffer :: "byte list"

abbreviation UDP_CLIENT_BUFFER_SIZE :: nat where
  "UDP_CLIENT_BUFFER_SIZE \<equiv> 65536"

text \<open>An \<open>fd_set\<close> has room for the descriptors below \<open>FD_SETSIZE\<close>; \<open>FD_SET\<close> on another one writes outside it.\<close>

abbreviation FD_SETSIZE :: int where
  "FD_SETSIZE \<equiv> 1024"

definition fd_ok :: "udp_client_t \<Rightarrow> bool" where
  "fd_ok k \<longleftrightarrow> 0 \<le> client_fd k \<and> client_fd k < FD_SETSIZE"

subsection \<open>Operations\<close>

text \<open>The result of \<open>udp_client_new\<close> and what it leaves in \<open>*client\<close>.\<close>

definition udp_client_new :: "bool \<Rightarrow> int \<Rightarrow> int \<Rightarrow> int \<times> client_ptr" where
  "udp_client_new mem_ok socket_result ms =
     (if \<not> mem_ok then (- 1, Null_Client)
      else if socket_result < 0 then (- 1, Freed_Client)
      else (0, Client \<lparr>client_fd = socket_result, timeout_ms = ms\<rparr>))"

text \<open>The descriptor that is closed, if any.\<close>

definition udp_client_destroy :: "client_ptr \<Rightarrow> int option faulty" where
  "udp_client_destroy c =
     (case c of Null_Client \<Rightarrow> Inr None | Freed_Client \<Rightarrow> Inl Dangling | Client k \<Rightarrow> Inr (Some (client_fd k)))"

definition select_timeout :: "int \<Rightarrow> int \<times> int" where
  "select_timeout ms = (ms sdiv 1000, (ms smod 1000) * 1000)"

text \<open>The result, the response packet, and the datagram handed to \<open>sendto\<close> with its
  destination: the text of the address, the port in network order, the bytes. The pointer
  arguments the code tests are options; \<open>response_slot\<close> says that \<open>response_packet\<close> is not
  null.\<close>

definition udp_client_send_packet ::
    "(nat \<Rightarrow> byte) \<Rightarrow> client_ptr \<Rightarrow> string option \<Rightarrow> c_int \<Rightarrow> net_outcome \<Rightarrow> packet_t option \<Rightarrow> bool
     \<Rightarrow> (int \<times> packet_t option \<times> (string \<times> u16 \<times> byte list) option) faulty" where
  "udp_client_send_packet g client dest_ip dest_port net request_packet response_slot =
     (if client = Null_Client \<or> dest_ip = None \<or> request_packet = None \<or> \<not> response_slot then Inr (- 1, None, None)
      else fault_bind (packet_to_bytes g (the request_packet)) (\<lambda>request_bytes.
        if request_bytes = [] then Inr (- 1, None, None)
        else if pton_result net \<le> 0 then Inr (- 1, None, None)
        else case client of Client k \<Rightarrow>
          let sent = Some (the dest_ip, htons (ucast dest_port), request_bytes) in
          if sendto_result net < 0 then Inr (- 1, None, sent)
          else if \<not> fd_ok k then Inl Out_Of_Bounds
          else if select_result net < 0 then Inr (- 1, None, sent)
          else if select_result net = 0 then Inr (- 1, None, sent)
          else if fd_isset net then
            if recvfrom_result net < 0 then Inr (- 1, None, sent)
            else fault_bind (packet_from_bytes (recv_buffer net) (nat (recvfrom_result net))) (\<lambda>response.
                 case response of None \<Rightarrow> Inr (- 1, None, sent)
                 | Some p \<Rightarrow> Inr (0, Some p, sent))
          else Inr (- 1, None, sent)
        | _ \<Rightarrow> Inl Dangling))"

subsection \<open>Its contract\<close>

text \<open>What the system guarantees of a call of \<open>recvfrom\<close>.\<close>

definition net_ok :: "net_outcome \<Rightarrow> bool" where
  "net_ok net \<longleftrightarrow> length (recv_buffer net) = UDP_CLIENT_BUFFER_SIZE
     \<and> recvfrom_result net \<le> int UDP_CLIENT_BUFFER_SIZE"

text \<open>Every step before the answer succeeded.\<close>

definition answered :: "net_outcome \<Rightarrow> bool" where
  "answered net \<longleftrightarrow> 0 < pton_result net \<and> 0 \<le> sendto_result net \<and> 0 < select_result net
     \<and> fd_isset net \<and> 0 \<le> recvfrom_result net"

lemma wire_nonempty [simp]: "wire p \<noteq> []"
  by (simp add: wire_def)

lemma send_packet_eq:
  assumes "packet_wf req" "net_ok net" "fd_ok k"
  shows "udp_client_send_packet g (Client k) (Some ip) port net (Some req) True =
           (if pton_result net \<le> 0 then Inr (- 1, None, None)
            else if \<not> answered net then Inr (- 1, None, Some (ip, htons (ucast port), wire req))
            else case packet_from_bytes (recv_buffer net) (nat (recvfrom_result net)) of
                   Inr (Some p) \<Rightarrow> Inr (0, Some p, Some (ip, htons (ucast port), wire req))
                 | _ \<Rightarrow> Inr (- 1, None, Some (ip, htons (ucast port), wire req)))"
proof -
  have len: "nat (recvfrom_result net) \<le> length (recv_buffer net)" using assms(2) by (auto simp: net_ok_def)
  have "no_fault (packet_from_bytes (recv_buffer net) (nat (recvfrom_result net)))"
    using packet_from_bytes_cases [OF len] by simp
  then obtain r where "packet_from_bytes (recv_buffer net) (nat (recvfrom_result net)) = Inr r"
    by (auto simp: no_fault_iff)
  then show ?thesis
    by (cases r) (auto simp: udp_client_send_packet_def Let_def packet_to_bytes_wire [OF assms(1)] answered_def assms(3))
qed

text \<open>The \<open>n\<close> bytes received start with the encoding of \<open>p\<close>, as the parser builds it.\<close>

definition is_encoding :: "packet_t \<Rightarrow> byte list \<Rightarrow> nat \<Rightarrow> bool" where
  "is_encoding p b n \<longleftrightarrow> packet_wf p \<and> packet_norm p = p \<and> length (wire p) \<le> n \<and> take (length (wire p)) b = wire p"

lemma parse_iff_encoding:
  assumes "n \<le> length b"
  shows "packet_from_bytes b n = Inr (Some p) \<longleftrightarrow> is_encoding p b n"
proof
  assume "packet_from_bytes b n = Inr (Some p)"
  from packet_from_bytes_inv [OF this assms] show "is_encoding p b n"
    using length_wire [of p] by (auto simp: is_encoding_def)
next
  assume p: "is_encoding p b n"
  then have "b = wire p @ drop (length (wire p)) b" unfolding is_encoding_def by (metis append_take_drop_id)
  with p show "packet_from_bytes b n = Inr (Some p)"
    using packet_from_wire [of p n "drop (length (wire p)) b"] length_wire [of p] by (simp add: is_encoding_def)
qed

subsection \<open>Properties\<close>

definition sample_net :: net_outcome where
  "sample_net = \<lparr>pton_result = 1, sendto_result = 30, select_result = 1, fd_isset = True,
     recvfrom_result = 30, recv_buffer = wire sample_packet @ replicate 65506 0\<rparr>"

lemma sample_net_ok: "net_ok sample_net" "answered sample_net"
proof -
  have "length (wire sample_packet) = 30" using length_wire [OF sample_packet_wf] by (simp add: sample_packet_def)
  then show "net_ok sample_net" "answered sample_net" by (simp_all add: net_ok_def answered_def sample_net_def)
qed



text \<open>A process with many open descriptors gives the client a larger one: the request is sent, and then
  \<open>FD_SET\<close> writes behind the set.\<close>

lemma client_large_descriptor:
  "packet_wf req \<Longrightarrow> 0 < pton_result net \<Longrightarrow> 0 \<le> sendto_result net \<Longrightarrow> FD_SETSIZE \<le> client_fd k \<Longrightarrow>
   udp_client_send_packet g (Client k) (Some ip) port net (Some req) True = Inl Out_Of_Bounds"
  by (simp add: udp_client_send_packet_def packet_to_bytes_wire fd_ok_def)

text \<open>When the socket cannot be opened, \<open>udp_client_new\<close> frees the client but leaves the
  pointer to it: sending through it or destroying it, as \<open>main\<close> does without looking at
  the result, uses the freed block. When the allocation fails the pointer is null and
  both are harmless.\<close>

lemma client_new_dangling:
  "socket_result < 0 \<longrightarrow>
     (let (code, c) = udp_client_new True socket_result ms
      in code = - 1 \<and> udp_client_destroy c = Inl Dangling
         \<and> (packet_wf req \<and> 0 < pton_result net \<longrightarrow> udp_client_send_packet g c (Some ip) port net (Some req) True = Inl Dangling))"
  by (simp add: udp_client_new_def udp_client_destroy_def udp_client_send_packet_def packet_to_bytes_wire)

lemma client_new_dangling_witness:
  "udp_client_send_packet (\<lambda>_. 0) (snd (udp_client_new True (- 1) 1000)) (Some ''10.0.0.1'') 1998 sample_net (Some sample_packet) True = Inl Dangling"
  using client_new_dangling [of "- 1" 1000 sample_packet sample_net "\<lambda>_. 0" "''10.0.0.1''" 1998]
  by (simp add: udp_client_new_def sample_net_def)

text \<open>The timeout given to \<open>select\<close> is a valid time, less than a second in its
  microseconds, and equal to the timeout of the client.\<close>

lemma select_timeout_exact:
  assumes "0 \<le> ms"
  shows "case select_timeout ms of (sec, usec) \<Rightarrow>
           0 \<le> sec \<and> 0 \<le> usec \<and> usec < 1000000 \<and> sec * 1000000 + usec = ms * 1000"
proof -
  have "ms sdiv 1000 = ms div 1000" "ms smod 1000 = ms mod 1000"
    using assms by (simp_all add: signed_divide_int_def signed_modulo_int_def sgn_if minus_div_mult_eq_mod)
  moreover have "ms div 1000 * 1000000 + ms mod 1000 * 1000 = ms * 1000"
    using div_mult_mod_eq [of ms 1000] by linarith
  ultimately show ?thesis using assms by (simp add: select_timeout_def pos_imp_zdiv_nonneg_iff)
qed

lemma select_timeout_exact_witness: "select_timeout 1500 = (1, 500000)"
  using select_timeout_exact [of 1500] by (simp add: select_timeout_def signed_divide_int_def signed_modulo_int_def)

end
