(* ===== verification/Ini.thy ===== *)
theory Ini
  imports Packet
begin

text \<open>
  \<open>src/src/helpers/ini.c\<close> with \<open>ini.h\<close>: the parser of configuration files, with the
  options \<open>ini.h\<close> sets (stack buffer of 200 bytes, multi-line values, byte order
  mark, inline comments after a space, \<open>;\<close> and \<open>#\<close> comment lines, errors do not
  stop the parser).

  The line buffer is the C string in it, and a pointer into it the rest of the
  string; writing a zero byte at a pointer cuts the string there. The reader that
  fills the buffer is an argument of the parser, as in the code: \<open>reader num\<close> gives
  the characters stored (at most \<open>num - 1\<close>) and the new stream, or \<open>None\<close> for the
  null pointer. A parse that never ends is \<open>None\<close>. The handler is an argument too,
  and returns its result and the user data it leaves. The line number is an \<open>int\<close> of
  the code: counting beyond the largest one is a fault.
\<close>

subsection \<open>Characters and strings\<close>

abbreviation LF :: char where "LF \<equiv> CHR 0x0A"

text \<open>\<open>isspace\<close> in the C locale.\<close>

definition isspace :: "char \<Rightarrow> bool" where
  "isspace c \<longleftrightarrow> c \<in> set [CHR '' '', CHR 0x09, CHR 0x0A, CHR 0x0B, CHR 0x0C, CHR 0x0D]"

definition ini_rstrip :: "string \<Rightarrow> string" where
  "ini_rstrip s = rev (dropWhile isspace (rev s))"

definition ini_lskip :: "string \<Rightarrow> string" where
  "ini_lskip s = dropWhile isspace s"

text \<open>The result is the part before the pointer returned and the part from it on.
  \<open>chars\<close> is empty for the null pointer.\<close>

fun ini_find_loop :: "string \<Rightarrow> bool \<Rightarrow> string \<Rightarrow> string \<times> string" where
  "ini_find_loop chars was_space [] = ([], [])"
| "ini_find_loop chars was_space (c # s) =
     (if c \<in> set chars \<or> (was_space \<and> c \<in> set '';'') then ([], c # s)
      else (let (before, rest) = ini_find_loop chars (isspace c) s in (c # before, rest)))"

definition ini_find_chars_or_comment :: "string \<Rightarrow> string \<Rightarrow> string \<times> string" where
  "ini_find_chars_or_comment s chars = ini_find_loop chars False s"

definition ini_strncpy0 :: "string \<Rightarrow> nat \<Rightarrow> string" where
  "ini_strncpy0 src sz = take (sz - 1) src"

subsection \<open>One line\<close>

text \<open>The local variables of \<open>ini_parse_stream\<close> that live across lines, and the user
  data.\<close>

record 'u ini_state =
  ini_section :: string
  prev_name :: string
  lineno :: nat
  ini_error :: nat
  user :: 'u

type_synonym 'u ini_handler = "'u \<Rightarrow> string \<Rightarrow> string \<Rightarrow> string \<Rightarrow> bool \<times> 'u"

definition ini_fail :: "'u ini_state \<Rightarrow> 'u ini_state" where
  "ini_fail st = (if ini_error st = 0 then st\<lparr>ini_error := lineno st\<rparr> else st)"

definition ini_call :: "'u ini_handler \<Rightarrow> 'u ini_state \<Rightarrow> string \<Rightarrow> string \<Rightarrow> 'u ini_state" where
  "ini_call handler st name value =
     (let (ok, u) = handler (user st) (ini_section st) name value
      in if ok then st\<lparr>user := u\<rparr> else ini_fail (st\<lparr>user := u\<rparr>))"

text \<open>\<open>lineno++\<close>\<close>

definition next_line :: "'u ini_state \<Rightarrow> 'u ini_state faulty" where
  "next_line st = (if lineno st < INT_MAX then Inr (st\<lparr>lineno := lineno st + 1\<rparr>) else Inl Signed_Overflow)"

definition ini_bom :: string where
  "ini_bom = [CHR 0xEF, CHR 0xBB, CHR 0xBF]"

text \<open>The body of the loop behind the test for an overlong line; \<open>lineno\<close> is already
  the number of this line.\<close>

definition ini_process_line :: "'u ini_handler \<Rightarrow> string \<Rightarrow> 'u ini_state \<Rightarrow> 'u ini_state" where
  "ini_process_line handler line st =
     (let start0 = (if lineno st = 1 \<and> take 3 line = ini_bom then drop 3 line else line);
          start1 = ini_lskip start0;
          start = ini_rstrip start1
      in if start = [] \<or> hd start \<in> set '';#'' then st
         else if prev_name st \<noteq> [] \<and> length start1 < length line
         then let (value, _) = ini_find_chars_or_comment start []
              in ini_call handler st (prev_name st) (ini_rstrip value)
         else if hd start = CHR ''[''
         then (let (sec, rest) = ini_find_chars_or_comment (tl start) '']''
               in if rest \<noteq> [] \<and> hd rest = CHR '']''
                  then st\<lparr>ini_section := ini_strncpy0 sec 50, prev_name := []\<rparr>
                  else ini_fail st)
         else (let (before, rest) = ini_find_chars_or_comment start ''=:''
               in if rest \<noteq> [] \<and> hd rest \<in> set ''=:''
                  then let name = ini_rstrip before;
                           (value, _) = ini_find_chars_or_comment (tl rest) []
                       in ini_call handler (st\<lparr>prev_name := ini_strncpy0 name 50\<rparr>) name
                            (ini_rstrip (ini_lskip value))
                  else ini_fail st))"

subsection \<open>The stream\<close>

type_synonym 's ini_reader = "nat \<Rightarrow> 's \<Rightarrow> (string \<times> 's) option faulty"

text \<open>The inner loop that consumes the rest of an overlong line, 15 characters at a
  time.\<close>

partial_function (option) ini_abyss :: "'s ini_reader \<Rightarrow> 's \<Rightarrow> 'u ini_state \<Rightarrow> ('s \<times> 'u ini_state) run" where
  "ini_abyss reader stream st =
     run_bind (Some (reader 16 stream)) (\<lambda>r.
     case r of None \<Rightarrow> Some (Inr (stream, st))
     | Some (raw, stream') \<Rightarrow>
         let abyss = c_text raw in
         if abyss \<noteq> [] \<and> last abyss = LF then Some (Inr (stream', ini_fail st))
         else ini_abyss reader stream' (ini_fail st))"

text \<open>The loop of \<open>ini_parse_stream\<close>, and its result with the user data.\<close>

partial_function (option) ini_lines :: "'s ini_reader \<Rightarrow> 'u ini_handler \<Rightarrow> 's \<Rightarrow> 'u ini_state \<Rightarrow> 'u ini_state run" where
  "ini_lines reader handler stream st =
     run_bind (Some (reader 200 stream)) (\<lambda>r.
     case r of None \<Rightarrow> Some (Inr st)
     | Some (raw, stream') \<Rightarrow>
         let line = c_text raw in
         run_bind (Some (next_line st)) (\<lambda>st1.
         run_bind (if length line = 199 \<and> last line \<noteq> LF then ini_abyss reader stream' st1
                   else Some (Inr (stream', st1))) (\<lambda>(stream2, st2).
         ini_lines reader handler stream2 (ini_process_line handler line st2))))"

definition ini_parse_stream :: "'s ini_reader \<Rightarrow> 's \<Rightarrow> 'u ini_handler \<Rightarrow> 'u \<Rightarrow> (nat \<times> 'u) run" where
  "ini_parse_stream reader stream handler u =
     run_bind (ini_lines reader handler stream
        \<lparr>ini_section = [], prev_name = [], lineno = 0, ini_error = 0, user = u\<rparr>) (\<lambda>st.
     Some (Inr (ini_error st, user st)))"

subsection \<open>The readers\<close>

text \<open>The reader of \<open>ini_parse_string\<close>: its loop copies characters until \<open>num\<close> is used up,
  the data ends, or a line feed was copied.\<close>

record ini_parse_string_ctx =
  ctx_ptr :: string
  num_left :: nat

fun ini_reader_loop :: "nat \<Rightarrow> string \<Rightarrow> nat \<Rightarrow> (string \<times> string \<times> nat) faulty" where
  "ini_reader_loop 0 p left = Inr ([], p, left)"
| "ini_reader_loop (Suc k) p left =
     (if left = 0 then Inr ([], p, left)
      else case p of [] \<Rightarrow> Inl Out_Of_Bounds
      | c # p' \<Rightarrow>
          if c = LF then Inr ([c], p', left - 1)
          else fault_bind (ini_reader_loop k p' (left - 1)) (\<lambda>(s, p2, left2). Inr (c # s, p2, left2)))"

definition ini_reader_string :: "ini_parse_string_ctx ini_reader" where
  "ini_reader_string num ctx =
     (if num_left ctx = 0 \<or> num < 2 then Inr None
      else fault_bind (ini_reader_loop (num - 1) (ctx_ptr ctx) (num_left ctx)) (\<lambda>(s, p, left).
           Inr (Some (s, ctx\<lparr>ctx_ptr := p, num_left := left\<rparr>))))"

text \<open>A line as \<open>fgets\<close> reads it: at most \<open>k\<close> characters, up to and with the first line
  feed. An open file is the characters not read yet.\<close>

fun next_chunk :: "nat \<Rightarrow> string \<Rightarrow> string" where
  "next_chunk 0 cs = []"
| "next_chunk (Suc k) [] = []"
| "next_chunk (Suc k) (c # cs) = (if c = LF then [c] else c # next_chunk k cs)"

definition fgets :: "string ini_reader" where
  "fgets num file =
     (if file = [] \<or> num < 2 then Inr None
      else let s = next_chunk (num - 1) file in Inr (Some (s, drop (length s) file)))"

definition ini_parse_file :: "string \<Rightarrow> 'u ini_handler \<Rightarrow> 'u \<Rightarrow> (nat \<times> 'u) run" where
  "ini_parse_file file handler u = ini_parse_stream fgets file handler u"

text \<open>\<open>ini_parse\<close>: the argument is what \<open>fopen\<close> gives; the first result is negative when
  the file cannot be opened.\<close>

definition ini_parse :: "string option \<Rightarrow> 'u ini_handler \<Rightarrow> 'u \<Rightarrow> (int \<times> 'u) run" where
  "ini_parse opened handler u =
     (case opened of None \<Rightarrow> Some (Inr (- 1, u))
      | Some file \<Rightarrow> run_bind (ini_parse_file file handler u) (\<lambda>(error, u'). Some (Inr (int error, u'))))"

definition ini_parse_string_length :: "string \<Rightarrow> nat \<Rightarrow> 'u ini_handler \<Rightarrow> 'u \<Rightarrow> (nat \<times> 'u) run" where
  "ini_parse_string_length s len handler u =
     ini_parse_stream ini_reader_string \<lparr>ctx_ptr = s, num_left = len\<rparr> handler u"

definition ini_parse_string :: "string \<Rightarrow> 'u ini_handler \<Rightarrow> 'u \<Rightarrow> (nat \<times> 'u) run" where
  "ini_parse_string s handler u = ini_parse_string_length s (length (c_text s)) handler u"

subsection \<open>Chunks\<close>

lemma next_chunk_take: "next_chunk k cs = take k (take (Suc (length (takeWhile (\<lambda>c. c \<noteq> LF) cs))) cs)"
  by (induction k cs rule: next_chunk.induct) auto

lemma next_chunk_nonempty: "cs \<noteq> [] \<Longrightarrow> 0 < k \<Longrightarrow> next_chunk k cs \<noteq> []"
  by (cases cs; cases k) auto

lemma next_chunk_append: "next_chunk k cs @ drop (length (next_chunk k cs)) cs = cs"
  by (induction k cs rule: next_chunk.induct) auto

lemma next_chunk_drop_less: "cs \<noteq> [] \<Longrightarrow> 0 < k \<Longrightarrow> length (drop (length (next_chunk k cs)) cs) < length cs"
  using next_chunk_nonempty [of cs k] by (simp add: diff_less)

lemma next_chunk_last:
  "cs \<noteq> [] \<Longrightarrow> 0 < k \<Longrightarrow>
   last (next_chunk k cs) = LF \<longleftrightarrow> length (takeWhile (\<lambda>c. c \<noteq> LF) cs) < k \<and> LF \<in> set cs"
proof (induction k cs rule: next_chunk.induct)
  case (3 k c cs)
  then show ?case
    by (cases "cs = []"; cases k) (auto simp: next_chunk_nonempty)
qed simp_all

lemma next_chunk_line:
  assumes "length (takeWhile (\<lambda>c. c \<noteq> LF) cs) < k"
  shows "next_chunk k cs = take (Suc (length (takeWhile (\<lambda>c. c \<noteq> LF) cs))) cs"
    "drop (length (next_chunk k cs)) cs = tl (dropWhile (\<lambda>c. c \<noteq> LF) cs)"
proof -
  let ?n = "length (takeWhile (\<lambda>c. c \<noteq> LF) cs)"
  show eq: "next_chunk k cs = take (Suc ?n) cs"
    using assms by (simp add: next_chunk_take)
  have "drop (length (next_chunk k cs)) cs = drop (Suc ?n) cs"
    using next_chunk_append [of k cs] unfolding eq by (metis append_take_drop_id same_append_eq)
  also have "\<dots> = tl (drop ?n cs)" by (simp add: drop_Suc tl_drop)
  finally show "drop (length (next_chunk k cs)) cs = tl (dropWhile (\<lambda>c. c \<noteq> LF) cs)"
    by (simp add: dropWhile_eq_drop)
qed

lemma next_chunk_long:
  assumes "k \<le> length (takeWhile (\<lambda>c. c \<noteq> LF) cs)"
  shows "next_chunk k cs = take k (takeWhile (\<lambda>c. c \<noteq> LF) cs)" "length (next_chunk k cs) = k"
    "dropWhile (\<lambda>c. c \<noteq> LF) (drop k cs) = dropWhile (\<lambda>c. c \<noteq> LF) cs"
proof -
  have "take k (takeWhile (\<lambda>c. c \<noteq> LF) cs @ dropWhile (\<lambda>c. c \<noteq> LF) cs) = take k (takeWhile (\<lambda>c. c \<noteq> LF) cs)"
    using assms by (simp only: take_append) simp
  then have "take k cs = take k (takeWhile (\<lambda>c. c \<noteq> LF) cs)" by simp
  then show "next_chunk k cs = take k (takeWhile (\<lambda>c. c \<noteq> LF) cs)"
    using assms by (simp add: next_chunk_take min_def)
  then show "length (next_chunk k cs) = k" using assms by simp
  let ?P = "\<lambda>c. c \<noteq> LF"
  have "drop k (takeWhile ?P cs @ dropWhile ?P cs) = drop k (takeWhile ?P cs) @ dropWhile ?P cs"
    using assms by (simp only: drop_append) simp
  then have "drop k cs = drop k (takeWhile ?P cs) @ dropWhile ?P cs" by simp
  moreover have "dropWhile ?P (drop k (takeWhile ?P cs) @ dropWhile ?P cs) = dropWhile ?P (dropWhile ?P cs)"
    by (rule dropWhile_append2) (auto dest!: in_set_dropD set_takeWhileD)
  ultimately show "dropWhile ?P (drop k cs) = dropWhile ?P cs"
    by (simp only: dropWhile_idem)
qed

lemma c_text_id: "NUL \<notin> set s \<Longrightarrow> c_text s = s"
  unfolding c_text_def by (rule takeWhile_neq_id)

lemma set_next_chunk: "set (next_chunk k cs) \<subseteq> set cs"
  by (induction k cs rule: next_chunk.induct) auto

lemma length_c_text: "length (c_text s) \<le> length s"
  by (simp add: c_text_def length_takeWhile_le)

subsection \<open>What a parse means\<close>

lemma ini_fail_idem [simp]: "ini_fail (ini_fail st) = ini_fail st"
  by (simp add: ini_fail_def)

lemma rest_shorter: "cs \<noteq> [] \<Longrightarrow> length (tl (dropWhile (\<lambda>c. c \<noteq> LF) cs)) < length cs"
  using length_dropWhile_le [of "\<lambda>c. c \<noteq> LF" cs] by (cases cs) (auto simp: le_imp_less_Suc)

text \<open>
  The reference: the text is cut into its lines; a line of 199 characters or more is
  cut to 199 and counts as an error, unless it is just 199 characters and ends the
  text.\<close>

function ini_reference :: "'u ini_handler \<Rightarrow> string \<Rightarrow> 'u ini_state \<Rightarrow> 'u ini_state" where
  "ini_reference handler cs st =
     (if cs = [] then st
      else let ln = takeWhile (\<lambda>c. c \<noteq> LF) cs; rest = tl (dropWhile (\<lambda>c. c \<noteq> LF) cs);
               st1 = st\<lparr>lineno := lineno st + 1\<rparr>
           in if length ln < 199
              then ini_reference handler rest (ini_process_line handler (take (Suc (length ln)) cs) st1)
              else ini_reference handler rest (ini_process_line handler (take 199 ln)
                     (if length cs = 199 then st1 else ini_fail st1)))"
  by pat_completeness auto
termination
  by (relation "measure (\<lambda>(h, cs, st). length cs)") (simp_all add: rest_shorter [simplified])

declare ini_reference.simps [simp del]

text \<open>The number of lines of a text.\<close>

function line_count :: "string \<Rightarrow> nat" where
  "line_count cs = (if cs = [] then 0 else Suc (line_count (tl (dropWhile (\<lambda>c. c \<noteq> LF) cs))))"
  by pat_completeness auto
termination
  by (relation "measure length") (simp_all add: rest_shorter [simplified])

declare line_count.simps [simp del]

lemma line_count_le: "line_count cs \<le> length cs"
proof (induction cs rule: line_count.induct)
  case (1 cs)
  then show ?case using rest_shorter [of cs] by (subst line_count.simps) (auto simp: Suc_le_eq)
qed

text \<open>
  What the parser relies on in a reader: over the characters that are left in the
  stream, it delivers them chunk by chunk and says when there are none. The lemmas
  show that the parser then ends, and that its result is that of the reference.\<close>

lemma user_ini_fail [simp]: "user (ini_fail st) = user st"
  by (simp add: ini_fail_def)

lemma process_line_keeps:
  assumes "\<And>u s n v. P u \<Longrightarrow> P (snd (handler u s n v))" "P (user st)"
  shows "P (user (ini_process_line handler line st))"
proof -
  have call: "P (user (ini_call handler st' n v))" if "user st' = user st" for st' n v
    using assms(1) [OF assms(2), of "ini_section st'" n v] that by (simp add: ini_call_def split_def Let_def)
  show ?thesis
    using assms(2) call by (simp add: ini_process_line_def Let_def split_def)
qed

lemma lineno_ini_fail [simp]: "lineno (ini_fail st) = lineno st"
  by (simp add: ini_fail_def)

lemma lineno_process_line [simp]: "lineno (ini_process_line handler line st) = lineno st"
  by (simp add: ini_process_line_def ini_call_def Let_def split_def)

lemma ini_lines_step:
  assumes "reader 200 s = Inr (Some (raw, s1))" and "lineno st < INT_MAX"
    and "(if length (c_text raw) = 199 \<and> last (c_text raw) \<noteq> LF then ini_abyss reader s1 (st\<lparr>lineno := lineno st + 1\<rparr>)
          else Some (Inr (s1, st\<lparr>lineno := lineno st + 1\<rparr>))) = Some (Inr (s2, st2))"
  shows "ini_lines reader handler s st = ini_lines reader handler s2 (ini_process_line handler (c_text raw) st2)"
  using assms(1,2)
  by (subst ini_lines.simps) (simp only: assms(3) next_line_def if_True Let_def run_bind_simps option.case prod.case)

lemma ini_lines_overflow:
  "reader 200 s = Inr (Some (raw, s1)) \<Longrightarrow> INT_MAX \<le> lineno st \<Longrightarrow> ini_lines reader handler s st = Some (Inl Signed_Overflow)"
  by (subst ini_lines.simps) (simp add: next_line_def)

locale line_reader =
  fixes reader :: "'s ini_reader"
    and contents :: "'s \<Rightarrow> string"
    and good :: "'s \<Rightarrow> bool"
  assumes at_end: "good s \<Longrightarrow> contents s = [] \<Longrightarrow> 2 \<le> num \<Longrightarrow> reader num s = Inr None"
    and chunk: "good s \<Longrightarrow> contents s \<noteq> [] \<Longrightarrow> 2 \<le> num \<Longrightarrow>
      \<exists>s'. reader num s = Inr (Some (next_chunk (num - 1) (contents s), s')) \<and> good s'
         \<and> contents s' = drop (length (next_chunk (num - 1) (contents s))) (contents s)"
begin

lemma abyss_ends:
  "good s \<Longrightarrow> \<exists>s' st'. ini_abyss reader s st = Some (Inr (s', st')) \<and> good s'
     \<and> length (contents s') \<le> length (contents s) \<and> user st' = user st \<and> lineno st' = lineno st"
proof (induction "length (contents s)" arbitrary: s st rule: less_induct)
  case less
  show ?case
  proof (cases "contents s = []")
    case True
    then show ?thesis using less.prems at_end [of s 16] by (simp add: ini_abyss.simps)
  next
    case False
    then obtain s1 where s1: "reader 16 s = Inr (Some (next_chunk 15 (contents s), s1))" "good s1"
      "contents s1 = drop (length (next_chunk 15 (contents s))) (contents s)"
      using chunk [OF less.prems False, of 16] by auto
    have lt: "length (contents s1) < length (contents s)"
      unfolding s1(3) using next_chunk_drop_less [OF False, of 15] by simp
    then show ?thesis
      using s1 less.hyps [OF lt s1(2), of "ini_fail st"]
      by (subst ini_abyss.simps) (fastforce simp: Let_def)
  qed
qed

lemma abyss_eq:
  "good s \<Longrightarrow> NUL \<notin> set (contents s) \<Longrightarrow>
   \<exists>s'. ini_abyss reader s st = Some (Inr (s', if contents s = [] then st else ini_fail st)) \<and> good s'
      \<and> contents s' = tl (dropWhile (\<lambda>c. c \<noteq> LF) (contents s))"
proof (induction "length (contents s)" arbitrary: s st rule: less_induct)
  case less
  let ?cs = "contents s" and ?n = "length (takeWhile (\<lambda>c. c \<noteq> LF) (contents s))"
  show ?case
  proof (cases "?cs = []")
    case True
    then show ?thesis using less.prems at_end [of s 16] by (simp add: ini_abyss.simps)
  next
    case False
    let ?k = "next_chunk 15 ?cs"
    obtain s1 where s1: "reader 16 s = Inr (Some (?k, s1))" "good s1" "contents s1 = drop (length ?k) ?cs"
      using chunk [OF less.prems(1) False, of 16] by auto
    have lt: "length (contents s1) < length ?cs"
      unfolding s1(3) using next_chunk_drop_less [OF False, of 15] by simp
    have k: "c_text ?k = ?k" "?k \<noteq> []"
      using less.prems(2) set_next_chunk [of 15 ?cs] next_chunk_nonempty [OF False, of 15]
      by (auto intro: c_text_id)
    show ?thesis
    proof (cases "last ?k = LF")
      case True
      then have "?n < 15" using next_chunk_last [OF False, of 15] by simp
      then have "contents s1 = tl (dropWhile (\<lambda>c. c \<noteq> LF) ?cs)"
        using s1(3) next_chunk_line(2) by simp
      then show ?thesis
        using s1 k True False by (subst ini_abyss.simps) simp
    next
      case F: False
      have nul: "NUL \<notin> set (contents s1)" using less.prems(2) s1(3) in_set_dropD by metis
      have rest: "tl (dropWhile (\<lambda>c. c \<noteq> LF) (contents s1)) = tl (dropWhile (\<lambda>c. c \<noteq> LF) ?cs)"
      proof (cases "15 \<le> ?n")
        case True
        then show ?thesis using s1(3) next_chunk_long(2,3) by simp
      next
        case short: False
        then have "LF \<notin> set ?cs" using F next_chunk_last [OF False, of 15] by simp
        then have d: "dropWhile (\<lambda>c. c \<noteq> LF) ?cs = []" by auto
        have "contents s1 = []" using s1(3) next_chunk_line(2) [of ?cs 15] short by (simp add: d)
        then show ?thesis by (simp add: d)
      qed
      obtain s' where s': "ini_abyss reader s1 (ini_fail st) =
          Some (Inr (s', if contents s1 = [] then ini_fail st else ini_fail (ini_fail st)))" "good s'"
        "contents s' = tl (dropWhile (\<lambda>c. c \<noteq> LF) (contents s1))"
        using less.hyps [OF lt s1(2) nul, of "ini_fail st"] by blast
      then show ?thesis
        using s1 k F False rest by (subst ini_abyss.simps) simp
    qed
  qed
qed

lemma lines_end:
  assumes keeps: "\<And>u s n v. P u \<Longrightarrow> P (snd (handler u s n v))"
  shows "good s \<Longrightarrow> P (user st) \<Longrightarrow>
    (\<exists>st'. ini_lines reader handler s st = Some (Inr st') \<and> P (user st'))
    \<or> (ini_lines reader handler s st = Some (Inl Signed_Overflow) \<and> INT_MAX < lineno st + length (contents s))"
proof (induction "length (contents s)" arbitrary: s st rule: less_induct)
  case less
  show ?case
  proof (cases "contents s = []")
    case True
    then show ?thesis using less.prems at_end [of s 200] by (simp add: ini_lines.simps)
  next
    case False
    let ?k = "next_chunk 199 (contents s)"
    define st1 where "st1 = st\<lparr>lineno := lineno st + 1\<rparr>"
    obtain s1 where s1: "reader 200 s = Inr (Some (?k, s1))" "good s1" "contents s1 = drop (length ?k) (contents s)"
      using chunk [OF less.prems(1) False, of 200] by auto
    have lt: "length (contents s1) < length (contents s)"
      unfolding s1(3) using next_chunk_drop_less [OF False, of 199] by simp
    obtain s2 st2 where s2: "(if length (c_text ?k) = 199 \<and> last (c_text ?k) \<noteq> LF then ini_abyss reader s1 st1
        else Some (Inr (s1, st1))) = Some (Inr (s2, st2))" "good s2" "length (contents s2) \<le> length (contents s1)"
      "user st2 = user st1" "lineno st2 = lineno st1"
      using abyss_ends [OF s1(2), of st1] s1(2)
      by (cases "length (c_text ?k) = 199 \<and> last (c_text ?k) \<noteq> LF") (metis order_refl)+
    have p: "P (user (ini_process_line handler (c_text ?k) st2))"
      using process_line_keeps [of P handler st2, OF keeps] s2(4) less.prems(2) by (simp add: st1_def)
    show ?thesis
    proof (cases "lineno st < INT_MAX")
      case True
      have less: "lineno st + 1 + length (contents s2) \<le> lineno st + length (contents s)" using s2(3) lt by simp
      let ?st3 = "ini_process_line handler (c_text ?k) st2"
      have "(\<exists>st'. ini_lines reader handler s2 ?st3 = Some (Inr st') \<and> P (user st'))
          \<or> (ini_lines reader handler s2 ?st3 = Some (Inl Signed_Overflow) \<and> INT_MAX < lineno st + 1 + length (contents s2))"
        using less.hyps [of s2 ?st3] s2 lt p by (simp add: st1_def)
      then show ?thesis
        using ini_lines_step [OF s1(1) True s2(1) [unfolded st1_def]] less by auto
    next
      case over: False
      have "0 < length (contents s)" using False by simp
      with over have "INT_MAX < lineno st + length (contents s)" by linarith
      then show ?thesis using over ini_lines_overflow [of reader s ?k s1 st handler] s1(1) by simp
    qed
  qed
qed

lemma lines_eq:
  "good s \<Longrightarrow> NUL \<notin> set (contents s) \<Longrightarrow> lineno st \<le> INT_MAX \<Longrightarrow>
   ini_lines reader handler s st =
     Some (if lineno st + line_count (contents s) \<le> INT_MAX then Inr (ini_reference handler (contents s) st)
           else Inl Signed_Overflow)"
proof (induction "length (contents s)" arbitrary: s st rule: less_induct)
  case less
  let ?cs = "contents s" and ?ln = "takeWhile (\<lambda>c. c \<noteq> LF) (contents s)"
  let ?k = "next_chunk 199 ?cs"
  define st1 where "st1 = st\<lparr>lineno := lineno st + 1\<rparr>"
  show ?case
  proof (cases "?cs = []")
    case True
    then show ?thesis
      using less.prems at_end [of s 200] by (simp add: ini_lines.simps ini_reference.simps line_count.simps)
  next
    case False
    note count = line_count.simps [of ?cs]
    obtain s1 where s1: "reader 200 s = Inr (Some (?k, s1))" "good s1" "contents s1 = drop (length ?k) ?cs"
      using chunk [OF less.prems(1) False, of 200] by auto
    have k: "c_text ?k = ?k"
      using less.prems(2) set_next_chunk [of 199 ?cs] by (auto intro: c_text_id)
    have nul1: "NUL \<notin> set (contents s1)" using less.prems(2) s1(3) in_set_dropD by metis
    consider "INT_MAX \<le> lineno st" | (short) "lineno st < INT_MAX" "length ?ln < 199" | (long) "lineno st < INT_MAX" "\<not> length ?ln < 199"
      by linarith
    then show ?thesis
    proof cases
      case 1
      then show ?thesis using ini_lines_overflow [of reader s ?k s1 st handler] s1(1) count False by simp
    next
      case short
      note True = short(2)
      note line = next_chunk_line [OF True]
      have keep: "\<not> (length ?k = 199 \<and> last ?k \<noteq> LF)"
      proof
        assume a: "length ?k = 199 \<and> last ?k \<noteq> LF"
        then have "LF \<notin> set ?cs" using next_chunk_last [OF False, of 199] True by simp
        then have "?ln = ?cs" by (rule takeWhile_neq_id)
        with a line(1) True show False by simp
      qed
      have c1: "contents s1 = tl (dropWhile (\<lambda>c. c \<noteq> LF) ?cs)" using s1(3) line(2) by simp
      have "ini_lines reader handler s1 (ini_process_line handler ?k st1) =
          Some (if lineno st + line_count ?cs \<le> INT_MAX then Inr (ini_reference handler (contents s1) (ini_process_line handler ?k st1))
                else Inl Signed_Overflow)"
        using less.hyps [OF _ s1(2) nul1, of "ini_process_line handler ?k st1"] c1 rest_shorter [OF False] count False short(1)
        by (simp add: st1_def)
      moreover have "ini_lines reader handler s st = ini_lines reader handler s1 (ini_process_line handler ?k st1)"
        using ini_lines_step [of reader s ?k s1 st s1 st1 handler, OF s1(1) short(1)] keep unfolding k st1_def by presburger
      moreover have "ini_reference handler ?cs st = ini_reference handler (contents s1) (ini_process_line handler ?k st1)"
        using True False unfolding line(1) c1 st1_def by (simp add: ini_reference.simps [of handler ?cs] Let_def)
      ultimately show ?thesis by simp
    next
      case long
      note F = long(2)
      then have F': "199 \<le> length ?ln" by simp
      note chunk = next_chunk_long [OF F']
      have "LF \<notin> set ?k" unfolding chunk(1) by (auto dest!: in_set_takeD set_takeWhileD)
      moreover have "?k \<noteq> []" using chunk(2) by auto
      ultimately have last: "last ?k \<noteq> LF" using last_in_set by metis
      obtain s2 where s2: "ini_abyss reader s1 st1 = Some (Inr (s2, if contents s1 = [] then st1 else ini_fail st1))"
        "good s2" "contents s2 = tl (dropWhile (\<lambda>c. c \<noteq> LF) (contents s1))"
        using abyss_eq [OF s1(2) nul1, of st1] by blast
      have c2: "contents s2 = tl (dropWhile (\<lambda>c. c \<noteq> LF) ?cs)" using s2(3) s1(3) chunk(2,3) by simp
      have "length ?ln \<le> length ?cs" by (rule length_takeWhile_le)
      then have e: "contents s1 = [] \<longleftrightarrow> length ?cs = 199" using s1(3) chunk(2) F' by auto
      have nul2: "NUL \<notin> set (contents s2)"
        using less.prems(2) c2 by (metis list.sel(2) list.set_sel(2) set_dropWhileD)
      let ?st3 = "ini_process_line handler ?k (if length ?cs = 199 then st1 else ini_fail st1)"
      have "ini_lines reader handler s2 ?st3 =
          Some (if lineno st + line_count ?cs \<le> INT_MAX then Inr (ini_reference handler (contents s2) ?st3) else Inl Signed_Overflow)"
        using less.hyps [OF _ s2(2) nul2, of ?st3] c2 rest_shorter [OF False] count False long(1) by (simp add: st1_def)
      moreover have "ini_lines reader handler s st =
          ini_lines reader handler s2 ?st3"
        using ini_lines_step [of reader s ?k s1 st s2 _ handler, OF s1(1) long(1)] s2(1) last chunk(2) unfolding k st1_def e by presburger
      moreover have "ini_reference handler ?cs st = ini_reference handler (contents s2) ?st3"
        using F False unfolding chunk(1) c2 st1_def by (simp add: ini_reference.simps [of handler ?cs] Let_def)
      ultimately show ?thesis by simp
    qed
  qed
qed

end

subsection \<open>The two readers keep the contract\<close>

definition ctx_contents :: "ini_parse_string_ctx \<Rightarrow> string" where
  "ctx_contents ctx = take (num_left ctx) (ctx_ptr ctx)"

definition ctx_good :: "ini_parse_string_ctx \<Rightarrow> bool" where
  "ctx_good ctx \<longleftrightarrow> num_left ctx \<le> length (ctx_ptr ctx)"

lemma ini_reader_loop_chunk:
  "left \<le> length p \<Longrightarrow>
   ini_reader_loop k p left = Inr (next_chunk k (take left p),
     drop (length (next_chunk k (take left p))) p, left - length (next_chunk k (take left p)))"
proof (induction k arbitrary: p left)
  case (Suc k)
  show ?case
  proof (cases left)
    case (Suc left')
    with Suc.prems obtain c p' where "p = c # p'" by (cases p) auto
    with Suc Suc.prems Suc.IH [of left' p'] show ?thesis by simp
  qed simp
qed simp

interpretation string_reader: line_reader ini_reader_string ctx_contents ctx_good
proof
  fix s num
  assume "ctx_good s" "ctx_contents s = []" "2 \<le> (num :: nat)"
  then show "ini_reader_string num s = Inr None"
    by (auto simp: ini_reader_string_def ctx_contents_def ctx_good_def)
next
  fix s num
  assume a: "ctx_good s" "ctx_contents s \<noteq> []" "2 \<le> (num :: nat)"
  let ?k = "next_chunk (num - 1) (ctx_contents s)"
  have len: "length ?k \<le> num_left s"
    using next_chunk_append [of "num - 1" "ctx_contents s"] a(1)
    by (metis append_eq_conv_conj ctx_contents_def length_append length_take le_add1 le_trans min.cobounded2)
  show "\<exists>s'. ini_reader_string num s = Inr (Some (?k, s')) \<and> ctx_good s'
      \<and> ctx_contents s' = drop (length ?k) (ctx_contents s)"
    using a len ini_reader_loop_chunk [of "num_left s" "ctx_ptr s" "num - 1"]
    by (auto simp: ini_reader_string_def ctx_good_def ctx_contents_def drop_take)
qed

interpretation file_reader: line_reader fgets "\<lambda>file. file" "\<lambda>file. True"
  by unfold_locales (auto simp: fgets_def Let_def)

abbreviation ini_start :: "'u \<Rightarrow> 'u ini_state" where
  "ini_start u \<equiv> \<lparr>ini_section = [], prev_name = [], lineno = 0, ini_error = 0, user = u\<rparr>"

lemma ini_parse_file_reference:
  "NUL \<notin> set file \<Longrightarrow> ini_parse_file file handler u =
     Some (if line_count file \<le> INT_MAX
           then Inr (ini_error (ini_reference handler file (ini_start u)), user (ini_reference handler file (ini_start u)))
           else Inl Signed_Overflow)"
  by (simp add: ini_parse_file_def ini_parse_stream_def file_reader.lines_eq)

lemma ini_parse_string_reference:
  "NUL \<notin> set s \<Longrightarrow> ini_parse_string s handler u =
     Some (if line_count s \<le> INT_MAX
           then Inr (ini_error (ini_reference handler s (ini_start u)), user (ini_reference handler s (ini_start u)))
           else Inl Signed_Overflow)"
  using string_reader.lines_eq [of "\<lparr>ctx_ptr = s, num_left = length s\<rparr>" "ini_start u" handler]
  by (simp add: ini_parse_string_def ini_parse_string_length_def ini_parse_stream_def c_text_id
      ctx_contents_def ctx_good_def)

lemma ini_parse_file_keeps:
  assumes "\<And>u s n v. P u \<Longrightarrow> P (snd (handler u s n v))" "P u"
  shows "(\<exists>e u'. ini_parse_file txt handler u = Some (Inr (e, u')) \<and> P u')
    \<or> (ini_parse_file txt handler u = Some (Inl Signed_Overflow) \<and> INT_MAX < length txt)"
  using file_reader.lines_end [where P = P and handler = handler and s = "txt" and st = "ini_start u"] assms
  by (auto simp: ini_parse_file_def ini_parse_stream_def)

subsection \<open>Printed configurations\<close>

text \<open>Sections with their entries, as text. Names and section names are made of plain
  characters; a value has no semicolon and no space at its ends; a line is shorter
  than the parser's buffer.\<close>

definition ini_plain :: "char \<Rightarrow> bool" where
  "ini_plain c \<longleftrightarrow> \<not> isspace c \<and> c \<noteq> NUL \<and> c \<notin> set '';#[]=:''"

definition value_ok :: "string \<Rightarrow> bool" where
  "value_ok v \<longleftrightarrow> NUL \<notin> set v \<and> LF \<notin> set v \<and> CHR '';'' \<notin> set v
     \<and> (v = [] \<or> \<not> isspace (hd v) \<and> \<not> isspace (last v))"

definition entry_ok_ini :: "string \<times> string \<Rightarrow> bool" where
  "entry_ok_ini e \<longleftrightarrow> fst e \<noteq> [] \<and> list_all ini_plain (fst e) \<and> value_ok (snd e)
     \<and> length (fst e) + length (snd e) < 198"

definition section_ok :: "string \<times> (string \<times> string) list \<Rightarrow> bool" where
  "section_ok s \<longleftrightarrow> list_all ini_plain (fst s) \<and> length (fst s) < 50 \<and> list_all entry_ok_ini (snd s)"

definition print_entry :: "string \<times> string \<Rightarrow> string" where
  "print_entry e = fst e @ ''='' @ snd e @ [LF]"

definition print_section :: "string \<times> (string \<times> string) list \<Rightarrow> string" where
  "print_section s = ''['' @ fst s @ '']'' @ [LF] @ concat (map print_entry (snd s))"

definition ini_print :: "(string \<times> (string \<times> string) list) list \<Rightarrow> string" where
  "ini_print cfg = concat (map print_section cfg)"

definition ini_triples :: "(string \<times> (string \<times> string) list) list \<Rightarrow> (string \<times> string \<times> string) list" where
  "ini_triples cfg = concat (map (\<lambda>(s, es). map (\<lambda>(n, v). (s, n, v)) es) cfg)"

definition feed :: "'u ini_handler \<Rightarrow> (string \<times> string \<times> string) list \<Rightarrow> 'u \<Rightarrow> 'u" where
  "feed handler calls u = foldl (\<lambda>u (s, n, v). snd (handler u s n v)) u calls"

lemma reference_line:
  assumes "LF \<notin> set ln" "length ln < 199"
  shows "ini_reference handler (ln @ LF # rest) st =
           ini_reference handler rest (ini_process_line handler (ln @ [LF]) (st\<lparr>lineno := lineno st + 1\<rparr>))"
proof -
  have "takeWhile (\<lambda>c. c \<noteq> LF) (ln @ LF # rest) = ln" "dropWhile (\<lambda>c. c \<noteq> LF) (ln @ LF # rest) = LF # rest"
    using assms(1) by (rule takeWhile_split, rule dropWhile_split)
  then show ?thesis
    using assms(2) by (subst ini_reference.simps) (simp add: Let_def)
qed

lemma find_loop_all:
  "CHR '';'' \<notin> set s \<Longrightarrow> set s \<inter> set chars = {} \<Longrightarrow> ini_find_loop chars w (s @ rest) =
     (let (b, r) = ini_find_loop chars (if s = [] then w else isspace (last s)) rest in (s @ b, r))"
  by (induction s arbitrary: w) (auto simp: split_def Let_def)

lemma rstrip_id: "s = [] \<or> \<not> isspace (last s) \<Longrightarrow> ini_rstrip s = s"
  by (cases s rule: rev_cases) (simp_all add: ini_rstrip_def)

lemma rstrip_LF: "ini_rstrip (s @ [LF]) = ini_rstrip s"
  by (simp add: ini_rstrip_def isspace_def)

lemma lskip_id: "s = [] \<or> \<not> isspace (hd s) \<Longrightarrow> ini_lskip s = s"
  by (cases s) (simp_all add: ini_lskip_def)

lemma plain_not_space: "list_all ini_plain n \<Longrightarrow> n \<noteq> [] \<Longrightarrow> \<not> isspace (hd n) \<and> \<not> isspace (last n)"
  by (simp add: list_all_iff ini_plain_def)

lemma process_entry:
  assumes "entry_ok_ini (n, v)" "lineno st \<noteq> 1"
  shows "ini_process_line handler (n @ ''='' @ v @ [LF]) st =
           ini_call handler (st\<lparr>prev_name := ini_strncpy0 n 50\<rparr>) n v"
proof -
  have n: "n \<noteq> []" "list_all ini_plain n" and v: "value_ok v" using assms by (simp_all add: entry_ok_ini_def)
  have hd_n: "\<not> isspace (hd n)" "\<not> isspace (last n)" "hd n \<notin> set '';#[]=:''" "set n \<inter> set ''=:;'' = {}"
    using n plain_not_space [OF n(2,1)] by (auto simp: list_all_iff ini_plain_def)
  have lskip: "ini_lskip (n @ ''='' @ v @ [LF]) = n @ ''='' @ v @ [LF]"
    using n hd_n by (intro lskip_id) simp
  have rstrip: "ini_rstrip (n @ ''='' @ v @ [LF]) = n @ ''='' @ v"
    using v rstrip_LF [of "n @ ''='' @ v"] rstrip_id [of "n @ ''='' @ v"]
    by (auto simp: value_ok_def isspace_def)
  have f1: "ini_find_chars_or_comment (n @ ''='' @ v) ''=:'' = (n, ''='' @ v)"
    using hd_n n find_loop_all [of n "''=:''" False "''='' @ v"] by (auto simp: ini_find_chars_or_comment_def)
  have f2: "ini_find_chars_or_comment v [] = (v, [])"
    using v find_loop_all [of v "[]" False "[]"] by (auto simp: ini_find_chars_or_comment_def value_ok_def)
  have strip_v: "ini_rstrip (ini_lskip v) = v" using v lskip_id [of v] rstrip_id [of v] by (auto simp: value_ok_def)
  have name: "ini_rstrip n = n" using hd_n by (simp add: rstrip_id)
  have hd: "hd (n @ ''='' @ v) = hd n" using n by simp
  have ne: "hd n \<noteq> CHR '';''" "hd n \<noteq> CHR ''#''" "hd n \<noteq> CHR ''[''" using hd_n(3) by auto
  show ?thesis
    unfolding ini_process_line_def Let_def
    using assms(2) n(1) ne by (simp add: lskip [simplified] rstrip [simplified] f1 [simplified] f2 strip_v name hd [simplified])
qed

lemma process_section:
  assumes "list_all ini_plain s" "length s < 50"
  shows "ini_process_line handler (''['' @ s @ '']'' @ [LF]) st = st\<lparr>ini_section := s, prev_name := []\<rparr>"
proof -
  have s: "set s \<inter> set '']'' = {}" "CHR '';'' \<notin> set s" using assms(1) by (auto simp: list_all_iff ini_plain_def)
  have sp: "\<not> isspace (CHR ''['')" "\<not> isspace (CHR '']'')" by (simp_all add: isspace_def)
  have lskip: "ini_lskip (''['' @ s @ '']'' @ [LF]) = ''['' @ s @ '']'' @ [LF]"
    by (rule lskip_id) (simp add: sp)
  have rstrip: "ini_rstrip (''['' @ s @ '']'' @ [LF]) = ''['' @ s @ '']''"
    using rstrip_LF [of "''['' @ s @ '']''"] rstrip_id [of "''['' @ s @ '']''"] by (simp add: sp)
  have f: "ini_find_chars_or_comment (s @ '']'') '']'' = (s, '']'')"
    using s find_loop_all [of s "'']''" False "'']''"] by (simp add: ini_find_chars_or_comment_def)
  have "take 3 (''['' @ s @ '']'' @ [LF]) \<noteq> ini_bom" by (simp add: ini_bom_def)
  then show ?thesis
    unfolding ini_process_line_def Let_def
    using assms(2) by (simp add: lskip [simplified] rstrip [simplified] f ini_strncpy0_def)
qed

text \<open>A state whose errors are none and in which the first line is past.\<close>

definition settled :: "string \<Rightarrow> 'u \<Rightarrow> 'u ini_state \<Rightarrow> bool" where
  "settled s u st \<longleftrightarrow> ini_section st = s \<and> user st = u \<and> ini_error st = 0 \<and> 0 < lineno st"

lemma reference_entries:
  assumes "list_all entry_ok_ini es" "settled s u st" "\<forall>(n, v) \<in> set es. \<forall>u. fst (handler u s n v)"
  shows "\<exists>st'. settled s (feed handler (map (\<lambda>(n, v). (s, n, v)) es) u) st' \<and>
           ini_reference handler (concat (map print_entry es) @ rest) st = ini_reference handler rest st'"
  using assms
proof (induction es arbitrary: st u)
  case (Cons e es)
  obtain n v where e: "e = (n, v)" by fastforce
  let ?ln = "n @ ''='' @ v" and ?st = "st\<lparr>lineno := lineno st + 1\<rparr>"
  let ?st1 = "ini_call handler (?st\<lparr>prev_name := ini_strncpy0 n 50\<rparr>) n v"
  have ok: "entry_ok_ini (n, v)" using Cons.prems(1) e by simp
  have "LF \<notin> set n" using ok by (auto simp: entry_ok_ini_def list_all_iff ini_plain_def isspace_def)
  then have "LF \<notin> set ?ln" "length ?ln < 199" using ok by (auto simp: entry_ok_ini_def value_ok_def)
  then have "ini_reference handler (concat (map print_entry (e # es)) @ rest) st =
      ini_reference handler (concat (map print_entry es) @ rest) (ini_process_line handler (?ln @ [LF]) ?st)"
    using reference_line [of ?ln handler "concat (map print_entry es) @ rest" st] by (simp add: e print_entry_def)
  also have "ini_process_line handler (?ln @ [LF]) ?st = ?st1"
    using process_entry [OF ok, of ?st handler] Cons.prems(2) by (simp add: settled_def)
  finally have step: "ini_reference handler (concat (map print_entry (e # es)) @ rest) st =
      ini_reference handler (concat (map print_entry es) @ rest) ?st1" .
  have "settled s (snd (handler u s n v)) ?st1"
    using Cons.prems(2,3) e by (simp add: settled_def ini_call_def split_def Let_def)
  then obtain st' where "settled s (feed handler (map (\<lambda>(n, v). (s, n, v)) es) (snd (handler u s n v))) st'"
    "ini_reference handler (concat (map print_entry es) @ rest) ?st1 = ini_reference handler rest st'"
    using Cons.IH [of "snd (handler u s n v)" ?st1] Cons.prems by auto
  then show ?case unfolding step by (auto simp: e feed_def)
qed (auto simp: feed_def)

lemma reference_sections:
  assumes "list_all section_ok cfg" "ini_error st = 0" "user st = u"
    "\<forall>(s, n, v) \<in> set (ini_triples cfg). \<forall>u. fst (handler u s n v)"
  shows "\<exists>st'. ini_reference handler (ini_print cfg) st = st' \<and> ini_error st' = 0
           \<and> user st' = feed handler (ini_triples cfg) u"
  using assms
proof (induction cfg arbitrary: st u)
  case Nil
  then show ?case by (simp add: ini_print_def ini_triples_def feed_def ini_reference.simps)
next
  case (Cons se cfg)
  obtain s es where se: "se = (s, es)" by fastforce
  let ?ln = "''['' @ s @ '']''" and ?st1 = "st\<lparr>lineno := lineno st + 1, ini_section := s, prev_name := []\<rparr>"
  let ?rest = "concat (map print_entry es) @ ini_print cfg"
  have ok: "list_all ini_plain s" "length s < 50" "list_all entry_ok_ini es"
    using Cons.prems(1) se by (simp_all add: section_ok_def)
  have "LF \<notin> set ?ln" using ok(1) by (auto simp: list_all_iff ini_plain_def isspace_def)
  then have "ini_reference handler (ini_print (se # cfg)) st = ini_reference handler ?rest ?st1"
    using reference_line [of ?ln handler ?rest st] process_section [OF ok(1,2), of handler "st\<lparr>lineno := lineno st + 1\<rparr>"] ok(2)
    by (simp add: se ini_print_def print_section_def)
  moreover have "settled s u ?st1" using Cons.prems by (simp add: settled_def)
  moreover have "(s, n, v) \<in> set (ini_triples (se # cfg))" if "(n, v) \<in> set es" for n v
    using that by (force simp: se ini_triples_def)
  then have "\<forall>(n, v) \<in> set es. \<forall>u. fst (handler u s n v)"
    using Cons.prems(4) by blast
  ultimately obtain st2 where st2: "settled s (feed handler (map (\<lambda>(n, v). (s, n, v)) es) u) st2"
    "ini_reference handler (ini_print (se # cfg)) st = ini_reference handler (ini_print cfg) st2"
    using reference_entries [OF ok(3), of s u ?st1 handler "ini_print cfg"] by auto
  show ?case
    using Cons.IH [of st2 "feed handler (map (\<lambda>(n, v). (s, n, v)) es) u"] Cons.prems st2
    by (auto simp: settled_def se ini_triples_def feed_def)
qed

lemma NUL_ini_print: "list_all section_ok cfg \<Longrightarrow> NUL \<notin> set (ini_print cfg)"
  by (auto simp: ini_print_def print_section_def print_entry_def list_all_iff section_ok_def ini_plain_def
      entry_ok_ini_def value_ok_def)

subsection \<open>Properties\<close>

text \<open>The parser ends without a fault on every text of less than \<open>2^31\<close> bytes, also one with zero bytes or
  without line feeds, whether it comes from a file or from a string, and reads only inside the string.\<close>

lemma ini_parse_ends:
  assumes "length file \<le> INT_MAX"
  shows "(\<exists>r. ini_parse_file file handler u = Some (Inr r)) \<and> (\<exists>r. ini_parse_string file handler u = Some (Inr r))"
proof
  show "\<exists>r. ini_parse_file file handler u = Some (Inr r)"
    using file_reader.lines_end [where P = "\<lambda>_. True" and s = "file" and handler = handler and st = "ini_start u"] assms
    by (auto simp: ini_parse_file_def ini_parse_stream_def)
  have "ctx_good \<lparr>ctx_ptr = file, num_left = length (c_text file)\<rparr>"
    using length_c_text [of "file"] by (simp add: ctx_good_def)
  moreover have "length (ctx_contents \<lparr>ctx_ptr = file, num_left = length (c_text file)\<rparr>) \<le> INT_MAX"
    using assms by (simp add: ctx_contents_def)
  ultimately show "\<exists>r. ini_parse_string file handler u = Some (Inr r)"
    using string_reader.lines_end [where P = "\<lambda>_. True" and handler = handler and st = "ini_start u"
        and s = "\<lparr>ctx_ptr = file, num_left = length (c_text file)\<rparr>"]
    by (auto simp: ini_parse_string_def ini_parse_string_length_def ini_parse_stream_def)
qed

text \<open>C27. On a text without zero bytes the result of \<open>ini_parse_file\<close> is that of the
  reference, which cuts the text into lines first, and \<open>ini_parse_string\<close> gives the
  same: the chunked reading through the 200-byte buffer, with the 16-byte buffer for
  what is too long, loses nothing but the rest of overlong lines. The line counter is an \<open>int\<close>: on
  a text with more lines than the largest \<open>int\<close> both overflow it, which is undefined.\<close>

theorem ini_parse_is_reference:
  assumes "NUL \<notin> set txt"
  shows "ini_parse_file txt handler u =
           Some (if line_count txt \<le> INT_MAX
                 then Inr (ini_error (ini_reference handler txt (ini_start u)), user (ini_reference handler txt (ini_start u)))
                 else Inl Signed_Overflow)
       \<and> ini_parse_string txt handler u = ini_parse_file txt handler u"
  using ini_parse_file_reference [OF assms, of handler u] ini_parse_string_reference [OF assms, of handler u] by simp

theorem ini_parse_is_reference_witness:
  "ini_parse_string (''[A]'' @ [LF] @ ''k = v'' @ [LF]) (\<lambda>u s n v. (True, u @ [(s, n, v)])) [] =
   ini_parse_file (''[A]'' @ [LF] @ ''k = v'' @ [LF]) (\<lambda>u s n v. (True, u @ [(s, n, v)])) []"
  using ini_parse_is_reference [of "''[A]'' @ [LF] @ ''k = v'' @ [LF]" "\<lambda>u s n v. (True, u @ [(s, n, v)])" "[]"]
  by simp

text \<open>Round trip: the text of a list of sections with their entries is parsed without
  an error, and the handler is called exactly once for each entry, in order, with
  the section, name and value that were printed.\<close>

lemma ini_print_parse:
  assumes "list_all section_ok cfg" and "line_count (ini_print cfg) \<le> INT_MAX" and "\<forall>(s, n, v) \<in> set (ini_triples cfg). \<forall>u. fst (handler u s n v)"
  shows "ini_parse_file (ini_print cfg) handler u = Some (Inr (0, feed handler (ini_triples cfg) u))"
  using ini_parse_file_reference [OF NUL_ini_print [OF assms(1)], of handler u]
    reference_sections [OF assms(1), of "ini_start u" u handler] assms(2,3)
  by simp

lemma ini_print_parse_witness:
  "ini_parse_file (ini_print [(''SERVER'', [(''PORT'', ''2001''), (''SEEDS'', ''1.2.3.4:5 6.7.8.9:10'')])])
     (\<lambda>u s n v. (True, u @ [(s, n, v)])) [] =
   Some (Inr (0, [(''SERVER'', ''PORT'', ''2001''), (''SERVER'', ''SEEDS'', ''1.2.3.4:5 6.7.8.9:10'')]))"
  using ini_print_parse [of "[(''SERVER'', [(''PORT'', ''2001''), (''SEEDS'', ''1.2.3.4:5 6.7.8.9:10'')])]"
      "\<lambda>u s n v. (True, u @ [(s, n, v)])" "[]"]
    line_count_le [of "ini_print [(''SERVER'', [(''PORT'', ''2001''), (''SEEDS'', ''1.2.3.4:5 6.7.8.9:10'')])]"]
  by (simp add: section_ok_def entry_ok_ini_def ini_plain_def value_ok_def isspace_def ini_triples_def feed_def
      ini_print_def print_section_def print_entry_def)

end
