(* ===== verification/Args.thy ===== *)
theory Args
  imports Ini
begin

text \<open>
  \<open>src/src/core/args.c\<close> with \<open>config.h\<close>: the handler that turns the entries of the
  configuration file into the global configuration, and \<open>process_args\<close>.

  \<open>seed_nodes\<close> is the allocated array; its cells are whatever the argument \<open>g\<close> says
  until they are written. \<open>atoi\<close> and \<open>strtok\<close> of the C library are written out as
  glibc does them: \<open>atoi\<close> is \<open>strtol\<close>, which saturates at 64 bits, cut to 32 bits.
\<close>

subsection \<open>The structures\<close>

record node_addr_t =
  addr_host :: string
  addr_port :: c_int

record config_t =
  cfg_port :: c_int
  seed_nodes :: "node_addr_t list"
  seed_nodes_count :: nat

subsection \<open>The C library\<close>

definition isdigit :: "char \<Rightarrow> bool" where
  "isdigit c \<longleftrightarrow> (48 :: nat) \<le> of_char c \<and> (of_char c :: nat) \<le> 57"

definition digit :: "char \<Rightarrow> int" where
  "digit c = int (of_char c) - 48"

definition strtol_value :: "string \<Rightarrow> int" where
  "strtol_value s =
     (let t = dropWhile isspace s;
          neg = (t \<noteq> [] \<and> hd t = CHR ''-'');
          t' = (if t \<noteq> [] \<and> hd t \<in> set ''+-'' then tl t else t);
          v = foldl (\<lambda>a c. 10 * a + digit c) 0 (takeWhile isdigit t')
      in if neg then max (- (2 ^ 63)) (- v) else min (2 ^ 63 - 1) v)"

definition atoi :: "string \<Rightarrow> c_int" where
  "atoi s = word_of_int (strtol_value s)"

definition delim :: "char \<Rightarrow> bool" where
  "delim c \<longleftrightarrow> c \<in> set [CHR '' '', CHR 0x09, CHR 0x0A, CHR 0x0D]"

text \<open>\<open>strtok\<close> with the delimiters of the source: the next token and the text behind it.\<close>

definition strtok :: "string \<Rightarrow> (string \<times> string) option" where
  "strtok s =
     (let t = dropWhile delim s in
      if t = [] then None
      else Some (takeWhile (\<lambda>c. \<not> delim c) t, tl (dropWhile (\<lambda>c. \<not> delim c) t)))"

subsection \<open>The handler\<close>

text \<open>\<open>1\<close> plus the number of white space characters.\<close>

definition seed_count :: "string \<Rightarrow> nat" where
  "seed_count v = 1 + length (filter isspace v)"

text \<open>The body of the loop over the tokens.\<close>

definition add_seed :: "config_t \<Rightarrow> string \<Rightarrow> config_t" where
  "add_seed cfg token =
     (if CHR '':'' \<in> set token
      then let host = takeWhile (\<lambda>c. c \<noteq> CHR '':'') token;
               port_str = tl (dropWhile (\<lambda>c. c \<noteq> CHR '':'') token)
           in cfg\<lparr>seed_nodes := (seed_nodes cfg)[seed_nodes_count cfg := \<lparr>addr_host = take 63 host, addr_port = atoi port_str\<rparr>],
                  seed_nodes_count := seed_nodes_count cfg + 1\<rparr>
      else cfg)"

lemma strtokE:
  assumes "strtok s = Some (token, rest)"
  obtains t where "t = dropWhile delim s" "t \<noteq> []" "token = takeWhile (\<lambda>c. \<not> delim c) t"
    "rest = tl (dropWhile (\<lambda>c. \<not> delim c) t)"
  using assms by (auto simp: strtok_def Let_def split: if_splits)

lemma strtok_shorter: "strtok s = Some (token, rest) \<Longrightarrow> length rest < length s"
proof (elim strtokE)
  fix t
  assume "t = dropWhile delim s" "t \<noteq> []" "rest = tl (dropWhile (\<lambda>c. \<not> delim c) t)"
  then have "length rest = length (dropWhile (\<lambda>c. \<not> delim c) t) - 1" "0 < length t" "length t \<le> length s"
    using length_dropWhile_le [of delim s] by simp_all
  moreover have "length (dropWhile (\<lambda>c. \<not> delim c) t) \<le> length t" by (rule length_dropWhile_le)
  ultimately show ?thesis by linarith
qed

function seed_loop :: "nat \<Rightarrow> config_t \<Rightarrow> string \<Rightarrow> config_t" where
  "seed_loop count cfg s =
     (case strtok s of None \<Rightarrow> cfg
      | Some (token, rest) \<Rightarrow>
          if seed_nodes_count cfg < count then seed_loop count (add_seed cfg token) rest else cfg)"
  by pat_completeness auto
termination
  by (relation "measure (\<lambda>(count, cfg, s). length s)") (auto dest: strtok_shorter)

declare seed_loop.simps [simp del]

definition handler :: "(nat \<Rightarrow> node_addr_t) \<Rightarrow> config_t ini_handler" where
  "handler g cfg section name value =
     (if section = ''SERVER'' \<and> name = ''PORT'' then (True, cfg\<lparr>cfg_port := atoi value\<rparr>)
      else if section = ''SERVER'' \<and> name = ''SEEDS'' then
        (let count = seed_count value
         in (True, seed_loop count (cfg\<lparr>seed_nodes := uninit g count, seed_nodes_count := 0\<rparr>) value))
      else (False, cfg))"

subsection \<open>Process arguments\<close>

datatype args_outcome = Exit nat | Config config_t

text \<open>\<open>opened\<close> is what \<open>fopen(argv[1])\<close> gives.\<close>

definition process_args :: "(nat \<Rightarrow> node_addr_t) \<Rightarrow> nat \<Rightarrow> string option \<Rightarrow> args_outcome run" where
  "process_args g argc opened =
     (if argc = 1 then Some (Inr (Exit 1))
      else case opened of None \<Rightarrow> Some (Inr (Exit 1))
      | Some file \<Rightarrow>
          run_bind (ini_parse_file file (handler g) \<lparr>cfg_port = 1998, seed_nodes = [], seed_nodes_count = 0\<rparr>)
            (\<lambda>(error, cfg). Some (Inr (Config cfg))))"

subsection \<open>Tokens\<close>

function tokens :: "string \<Rightarrow> string list" where
  "tokens s = (case strtok s of None \<Rightarrow> [] | Some (token, rest) \<Rightarrow> token # tokens rest)"
  by pat_completeness auto

termination
  by (relation "measure length") (auto dest: strtok_shorter)

declare tokens.simps [simp del]

lemma strtok_Nil: "strtok [] = None"
  by (simp add: strtok_def)

lemma tokens_Nil: "tokens [] = []"
  by (simp add: tokens.simps [of "[]"] strtok_Nil)

lemma delim_isspace: "delim c \<Longrightarrow> isspace c"
  by (auto simp: delim_def isspace_def)

lemma length_tokens: "length (tokens s) \<le> seed_count s"
proof (induction s rule: tokens.induct)
  case (1 s)
  show ?case
  proof (cases "strtok s")
    case None
    then show ?thesis by (simp add: tokens.simps)
  next
    case (Some tr)
    then obtain token rest where tr: "strtok s = Some (token, rest)" by (cases tr) simp
    then obtain t where t: "t = dropWhile delim s" "rest = tl (dropWhile (\<lambda>c. \<not> delim c) t)"
      by (elim strtokE)
    let ?d = "dropWhile (\<lambda>c. \<not> delim c) t"
    have IH: "length (tokens rest) \<le> seed_count rest" using 1 tr by simp
    have "length (filter isspace s) = length (filter isspace (takeWhile delim s)) + length (filter isspace t)"
      unfolding t(1) by (metis filter_append length_append takeWhile_dropWhile_id)
    moreover have "length (filter isspace t) = length (filter isspace (takeWhile (\<lambda>c. \<not> delim c) t)) + length (filter isspace ?d)"
      by (metis filter_append length_append takeWhile_dropWhile_id)
    ultimately have ge: "length (filter isspace ?d) \<le> length (filter isspace s)" by simp
    show ?thesis
    proof (cases ?d)
      case Nil
      then have "rest = []" unfolding t(2) by (simp only:) simp
      then have "tokens s = [token]" by (simp add: tokens.simps [of s] tr tokens_Nil)
      then show ?thesis by (simp add: seed_count_def)
    next
      case (Cons c d)
      then have "delim c" by (metis hd_dropWhile list.distinct(1) list.sel(1))
      then have "Suc (length (filter isspace rest)) \<le> length (filter isspace s)"
        using ge t(2) Cons delim_isspace by simp
      then show ?thesis using IH by (simp add: tokens.simps [of s] tr seed_count_def)
    qed
  qed
qed

definition parse_seed :: "string \<Rightarrow> node_addr_t" where
  "parse_seed token = \<lparr>addr_host = take 63 (takeWhile (\<lambda>c. c \<noteq> CHR '':'') token),
                       addr_port = atoi (tl (dropWhile (\<lambda>c. c \<noteq> CHR '':'') token))\<rparr>"

definition seeds :: "config_t \<Rightarrow> node_addr_t list" where
  "seeds cfg = take (seed_nodes_count cfg) (seed_nodes cfg)"

lemma add_seed_seeds:
  assumes "seed_nodes_count cfg < length (seed_nodes cfg)"
  shows "seeds (add_seed cfg token) = seeds cfg @ (if CHR '':'' \<in> set token then [parse_seed token] else [])"
    "length (seed_nodes (add_seed cfg token)) = length (seed_nodes cfg)"
    "cfg_port (add_seed cfg token) = cfg_port cfg"
    "seed_nodes_count (add_seed cfg token) = seed_nodes_count cfg + (if CHR '':'' \<in> set token then 1 else 0)"
  using assms by (simp_all add: seeds_def add_seed_def parse_seed_def Let_def take_Suc_conv_app_nth)

lemma seed_loop_seeds:
  assumes "seed_nodes_count cfg + length (tokens s) \<le> count" "length (seed_nodes cfg) = count"
  shows "seeds (seed_loop count cfg s) = seeds cfg @ map parse_seed (filter (\<lambda>t. CHR '':'' \<in> set t) (tokens s))
       \<and> length (seed_nodes (seed_loop count cfg s)) = count \<and> cfg_port (seed_loop count cfg s) = cfg_port cfg
       \<and> seed_nodes_count (seed_loop count cfg s) =
           seed_nodes_count cfg + length (filter (\<lambda>t. CHR '':'' \<in> set t) (tokens s))"
  using assms
proof (induction count cfg s rule: seed_loop.induct)
  case (1 count cfg s)
  show ?case
  proof (cases "strtok s")
    case None
    then show ?thesis using 1 by (simp add: seed_loop.simps [of count cfg s] tokens.simps [of s])
  next
    case (Some tr)
    then obtain token rest where tr: "strtok s = Some (token, rest)" by (cases tr) simp
    have toks: "tokens s = token # tokens rest" by (simp add: tokens.simps [of s] tr)
    have lt: "seed_nodes_count cfg < count" using "1.prems" toks by simp
    note add = add_seed_seeds [of cfg token]
    have "seed_nodes_count (add_seed cfg token) + length (tokens rest) \<le> count"
      "length (seed_nodes (add_seed cfg token)) = count"
      using add lt "1.prems" toks by simp_all
    from "1.IH" [OF tr _ lt this] have IH: "seeds (seed_loop count (add_seed cfg token) rest) =
        seeds (add_seed cfg token) @ map parse_seed (filter (\<lambda>t. CHR '':'' \<in> set t) (tokens rest))
      \<and> length (seed_nodes (seed_loop count (add_seed cfg token) rest)) = count
      \<and> cfg_port (seed_loop count (add_seed cfg token) rest) = cfg_port (add_seed cfg token)
      \<and> seed_nodes_count (seed_loop count (add_seed cfg token) rest) =
          seed_nodes_count (add_seed cfg token) + length (filter (\<lambda>t. CHR '':'' \<in> set t) (tokens rest))"
      by simp
    show ?thesis
      using IH add lt "1.prems"(2) by (simp add: seed_loop.simps [of count cfg s] tr toks)
  qed
qed

lemma handler_seeds:
  "\<exists>cfg'. handler g cfg ''SERVER'' ''SEEDS'' v = (True, cfg')
     \<and> seeds cfg' = map parse_seed (filter (\<lambda>t. CHR '':'' \<in> set t) (tokens v))
     \<and> seed_nodes_count cfg' = length (filter (\<lambda>t. CHR '':'' \<in> set t) (tokens v))
     \<and> seed_nodes_count cfg' \<le> length (seed_nodes cfg') \<and> cfg_port cfg' = cfg_port cfg"
proof -
  let ?c = "cfg\<lparr>seed_nodes := uninit g (seed_count v), seed_nodes_count := 0\<rparr>"
  have "length (filter (\<lambda>t. CHR '':'' \<in> set t) (tokens v)) \<le> seed_count v"
    using length_tokens [of v] length_filter_le le_trans by blast
  then show ?thesis
    using seed_loop_seeds [of ?c v "seed_count v"] length_tokens [of v]
    by (simp add: handler_def Let_def) (simp add: seeds_def)
qed

subsection \<open>Numbers\<close>

lemma isdigit_char_of: "d < 10 \<Longrightarrow> isdigit (char_of (48 + d)) \<and> digit (char_of (48 + d)) = int d"
proof -
  assume "d < 10"
  then show ?thesis by (simp add: isdigit_def digit_def of_char_of)
qed

lemma fmt_u_digits: "list_all isdigit (fmt_u n) \<and> foldl (\<lambda>a c. 10 * a + digit c) 0 (fmt_u n) = int n"
proof (induction n rule: fmt_u.induct)
  case (1 n)
  show ?case
  proof (cases "n < 10")
    case True
    then show ?thesis using isdigit_char_of [of n] by (simp add: fmt_u.simps [of n])
  next
    case False
    moreover have "10 * (int n div 10) + int (n mod 10) = int n" by (simp add: zmod_int)
    ultimately show ?thesis
      using 1 isdigit_char_of [of "n mod 10"] by (simp add: fmt_u.simps [of n] zdiv_int)
  qed
qed

lemma digit_not_space: "isdigit c \<Longrightarrow> \<not> isspace c \<and> c \<noteq> CHR ''-'' \<and> c \<noteq> CHR ''+'' \<and> c \<noteq> NUL \<and> c \<noteq> CHR '':'' \<and> c \<noteq> CHR '';'' \<and> c \<noteq> LF"
  by (auto simp: isdigit_def isspace_def)

lemma atoi_fmt_u: "n < 2 ^ 63 \<Longrightarrow> atoi (fmt_u n) = word_of_nat n"
proof -
  assume n: "n < 2 ^ 63"
  have all: "list_all isdigit (fmt_u n)" and v: "foldl (\<lambda>a c. 10 * a + digit c) 0 (fmt_u n) = int n"
    using fmt_u_digits [of n] by simp_all
  obtain c cs where c: "fmt_u n = c # cs" by (cases "fmt_u n") auto
  have "isdigit c" using all c by simp
  note c' = digit_not_space [OF this]
  have "takeWhile isdigit (fmt_u n) = fmt_u n" using all by (simp add: takeWhile_eq_all_conv list_all_iff)
  moreover have "min (2 ^ 63 - 1) (int n) = int n" using n by simp
  ultimately have "strtol_value (fmt_u n) = int n"
    using c' v unfolding strtol_value_def c by (simp add: Let_def)
  then show ?thesis by (simp add: atoi_def)
qed

subsection \<open>Printed seeds\<close>

definition seed_text :: "string \<times> nat \<Rightarrow> string" where
  "seed_text s = fst s @ '':'' @ fmt_u (snd s)"

fun join_seeds :: "(string \<times> nat) list \<Rightarrow> string" where
  "join_seeds [] = []"
| "join_seeds [s] = seed_text s"
| "join_seeds (s # s' # ss) = seed_text s @ '' '' @ join_seeds (s' # ss)"

definition seed_ok :: "string \<times> nat \<Rightarrow> bool" where
  "seed_ok s \<longleftrightarrow> list_all ini_plain (fst s) \<and> length (fst s) < 64 \<and> snd s \<le> INT_MAX"

lemma seed_text_chars:
  assumes "seed_ok s" "c \<in> set (seed_text s)"
  shows "\<not> isspace c \<and> c \<noteq> NUL \<and> c \<noteq> CHR '';''"
proof -
  from assms(2) consider "c \<in> set (fst s)" | "c = CHR '':''" | "c \<in> set (fmt_u (snd s))"
    by (auto simp: seed_text_def)
  then show ?thesis
  proof cases
    case 1
    then show ?thesis using assms(1) by (auto simp: seed_ok_def list_all_iff ini_plain_def)
  next
    case 2
    then show ?thesis by (simp add: isspace_def)
  next
    case 3
    then have "isdigit c" using fmt_u_digits [of "snd s"] by (simp add: list_all_iff)
    then show ?thesis using digit_not_space by blast
  qed
qed

lemma seed_text_nonempty [simp]: "seed_text s \<noteq> []"
  by (simp add: seed_text_def)

lemma tokens_word:
  assumes "t \<noteq> []" "\<forall>c \<in> set t. \<not> delim c"
  shows "tokens t = [t]" "tokens (t @ '' '' @ rest) = t # tokens rest"
proof -
  have d: "dropWhile delim (t @ r) = t @ r" for r using assms by (cases t) simp_all
  have sp: "delim (CHR '' '')" by (simp add: delim_def)
  have w: "takeWhile (\<lambda>c. \<not> delim c) t = t" "dropWhile (\<lambda>c. \<not> delim c) t = []"
    using assms(2) by (simp_all add: takeWhile_eq_all_conv)
  have "strtok t = Some (t, [])"
    using d [of "[]"] assms(1) unfolding strtok_def Let_def append_Nil2 by (simp add: w)
  then show "tokens t = [t]" by (simp add: tokens.simps [of t] tokens_Nil)
  have "takeWhile (\<lambda>c. \<not> delim c) (t @ CHR '' '' # rest) = t" "dropWhile (\<lambda>c. \<not> delim c) (t @ CHR '' '' # rest) = CHR '' '' # rest"
    using assms(2) sp by (induction t) simp_all
  then have "strtok (t @ '' '' @ rest) = Some (t, rest)"
    using d [of "'' '' @ rest"] assms(1) unfolding strtok_def Let_def by simp
  then show "tokens (t @ '' '' @ rest) = t # tokens rest" by (subst tokens.simps) simp
qed

lemma tokens_join: "list_all seed_ok ss \<Longrightarrow> tokens (join_seeds ss) = map seed_text ss"
proof (induction ss rule: join_seeds.induct)
  case 1
  then show ?case by (simp add: tokens_Nil)
next
  case (2 s)
  have "\<forall>c \<in> set (seed_text s). \<not> delim c" using 2 seed_text_chars delim_isspace by (fastforce simp: list_all_iff)
  then show ?case using tokens_word(1) [of "seed_text s"] by simp
next
  case (3 s s' ss)
  have "\<forall>c \<in> set (seed_text s). \<not> delim c" using 3 seed_text_chars delim_isspace by (fastforce simp: list_all_iff)
  then show ?case using 3 tokens_word(2) [of "seed_text s" "join_seeds (s' # ss)"] by simp
qed

lemma parse_seed_text:
  assumes "seed_ok s"
  shows "parse_seed (seed_text s) = \<lparr>addr_host = fst s, addr_port = word_of_nat (snd s)\<rparr>"
proof -
  have "CHR '':'' \<notin> set (fst s)" using assms by (auto simp: seed_ok_def list_all_iff ini_plain_def)
  then have "takeWhile (\<lambda>c. c \<noteq> CHR '':'') (seed_text s) = fst s"
    "dropWhile (\<lambda>c. c \<noteq> CHR '':'') (seed_text s) = '':'' @ fmt_u (snd s)"
    by (simp_all add: seed_text_def takeWhile_split dropWhile_split)
  then show ?thesis
    using assms atoi_fmt_u by (simp add: parse_seed_def seed_ok_def)
qed

lemma last_join: "list_all seed_ok ss \<Longrightarrow> ss \<noteq> [] \<Longrightarrow> join_seeds ss \<noteq> [] \<and> \<not> isspace (last (join_seeds ss))"
proof (induction ss rule: join_seeds.induct)
  case (2 s)
  then show ?case using seed_text_chars [of s "last (seed_text s)"] by simp
qed simp_all

lemma hd_join: "list_all seed_ok ss \<Longrightarrow> ss \<noteq> [] \<Longrightarrow> \<not> isspace (hd (join_seeds ss))"
proof (induction ss rule: join_seeds.induct)
  case (2 s)
  then show ?case using seed_text_chars [of s "hd (seed_text s)"] by simp
next
  case (3 s s' ss)
  then show ?case using seed_text_chars [of s "hd (seed_text s)"] by simp
qed simp

lemma set_join: "c \<in> set (join_seeds ss) \<Longrightarrow> c = CHR '' '' \<or> (\<exists>s \<in> set ss. c \<in> set (seed_text s))"
  by (induction ss rule: join_seeds.induct) auto

lemma join_value_ok: "list_all seed_ok ss \<Longrightarrow> value_ok (join_seeds ss)"
proof -
  assume ok: "list_all seed_ok ss"
  have "c \<noteq> NUL \<and> c \<noteq> LF \<and> c \<noteq> CHR '';''" if "c \<in> set (join_seeds ss)" for c
    using set_join [OF that] seed_text_chars ok by (auto simp: list_all_iff isspace_def)
  then show ?thesis
    using hd_join [OF ok] last_join [OF ok] unfolding value_ok_def by (cases ss) auto
qed

lemma fmt_u_value_ok: "value_ok (fmt_u n)"
proof -
  have d: "isdigit c" if "c \<in> set (fmt_u n)" for c using fmt_u_digits [of n] that by (simp add: list_all_iff)
  then show ?thesis
    using digit_not_space [OF d] hd_in_set [of "fmt_u n"] last_in_set [of "fmt_u n"]
    unfolding value_ok_def by (metis fmt_u_nonempty)
qed

lemma handler_bounded:
  "seed_nodes_count cfg \<le> length (seed_nodes cfg) \<Longrightarrow>
   seed_nodes_count (snd (handler g cfg s n v)) \<le> length (seed_nodes (snd (handler g cfg s n v)))"
proof (cases "s = ''SERVER'' \<and> n = ''SEEDS''")
  case True
  then show ?thesis using handler_seeds [of g cfg v] by auto
next
  case False
  assume "seed_nodes_count cfg \<le> length (seed_nodes cfg)"
  with False show ?thesis by (auto simp: handler_def)
qed

subsection \<open>Properties\<close>

text \<open>The \<open>SEEDS\<close> entry: the array allocated from the number of spaces is large enough
  for every address in the value, so that the test of the loop never cuts the list;
  the result are the tokens with a colon, in order, cut at the colon.\<close>

lemma args_seeds:
  "\<exists>cfg'. handler g cfg ''SERVER'' ''SEEDS'' v = (True, cfg')
     \<and> seeds cfg' = map parse_seed (filter (\<lambda>t. CHR '':'' \<in> set t) (tokens v))
     \<and> seed_nodes_count cfg' = length (filter (\<lambda>t. CHR '':'' \<in> set t) (tokens v))
     \<and> seed_nodes_count cfg' \<le> length (seed_nodes cfg') \<and> cfg_port cfg' = cfg_port cfg"
  by (rule handler_seeds)

text \<open>\<open>process_args\<close> on any configuration file that can be opened, whatever is in it,
  ends with a configuration whose seed count stays inside the allocated array, unless the file has
  \<open>2^31\<close> bytes or more and overflows the parser's line counter; without an argument or a file it
  exits with 1.\<close>

lemma process_args_total:
  "case opened of
     None \<Rightarrow> process_args g argc None = Some (Inr (Exit 1))
   | Some content \<Rightarrow>
       (if argc = 1 then process_args g argc opened = Some (Inr (Exit 1))
        else (\<exists>cfg. process_args g argc opened = Some (Inr (Config cfg))
                \<and> seed_nodes_count cfg \<le> length (seed_nodes cfg))
             \<or> (process_args g argc opened = Some (Inl Signed_Overflow) \<and> INT_MAX < length content))"
proof (cases opened)
  case None
  then show ?thesis by (simp add: process_args_def)
next
  case (Some content)
  let ?P = "\<lambda>cfg. seed_nodes_count cfg \<le> length (seed_nodes cfg)"
  show ?thesis
    using ini_parse_file_keeps [of ?P "handler g" "\<lparr>cfg_port = 1998, seed_nodes = [], seed_nodes_count = 0\<rparr>" content]
      handler_bounded Some by (auto simp: process_args_def)
qed

lemma sint_word_of_nat: "n \<le> INT_MAX \<Longrightarrow> sint (word_of_nat n :: c_int) = int n"
  using cast_int_small [of n] by (simp add: cast_int_def signed_of_nat)

text \<open>C30. Round trip from a configuration file to the configuration: the file with the
  given port and seed addresses gives exactly that port and those addresses, in
  order. The numbers are in the range of \<open>int\<close>, the hosts have less than 64 characters, none of them a zero byte,
  space or one of \<open>;#[]=:\<close>, and the list of seeds has less than 193 characters, so that its line fits
  the parser's buffer.\<close>

theorem process_args_roundtrip:
  assumes "p \<le> INT_MAX" and "list_all seed_ok ss" and "length (join_seeds ss) < 193" and "argc \<noteq> 1"
  shows "\<exists>cfg. process_args g argc
             (Some (ini_print [(''SERVER'', [(''PORT'', fmt_u p), (''SEEDS'', join_seeds ss)])])) = Some (Inr (Config cfg))
           \<and> sint (cfg_port cfg) = int p
           \<and> map (\<lambda>s. (addr_host s, sint (addr_port s))) (seeds cfg) = map (\<lambda>(h, q). (h, int q)) ss"
proof -
  let ?cfg = "[(''SERVER'', [(''PORT'', fmt_u p), (''SEEDS'', join_seeds ss)])]"
  let ?u = "\<lparr>cfg_port = 1998, seed_nodes = [], seed_nodes_count = 0\<rparr>"
  have "length (fmt_u p) \<le> 10" using assms(1) length_fmt_u_le [of p 10] by simp
  then have ok: "list_all section_ok ?cfg"
    using assms(3) fmt_u_value_ok [of p] join_value_ok [OF assms(2)]
    by (simp add: section_ok_def entry_ok_ini_def ini_plain_def isspace_def)
  have "length (ini_print ?cfg) \<le> INT_MAX"
    using assms(3) \<open>length (fmt_u p) \<le> 10\<close> by (simp add: ini_print_def print_section_def print_entry_def)
  then have count: "line_count (ini_print ?cfg) \<le> INT_MAX" using line_count_le le_trans by blast
  have acc: "\<forall>(s, n, v) \<in> set (ini_triples ?cfg). \<forall>u. fst (handler g u s n v)"
    by (simp add: ini_triples_def handler_def Let_def)
  obtain cfg where cfg: "handler g (?u\<lparr>cfg_port := atoi (fmt_u p)\<rparr>) ''SERVER'' ''SEEDS'' (join_seeds ss) = (True, cfg)"
    "seeds cfg = map parse_seed (filter (\<lambda>t. CHR '':'' \<in> set t) (tokens (join_seeds ss)))"
    "cfg_port cfg = atoi (fmt_u p)"
    using handler_seeds [of g "?u\<lparr>cfg_port := atoi (fmt_u p)\<rparr>" "join_seeds ss"] by auto
  have "feed (handler g) (ini_triples ?cfg) ?u = cfg"
    using cfg(1) by (simp add: feed_def ini_triples_def handler_def [of g ?u "''SERVER''" "''PORT''"])
  then have "ini_parse_file (ini_print ?cfg) (handler g) ?u = Some (Inr (0, cfg))"
    using ini_parse_file_reference [OF NUL_ini_print [OF ok], of "handler g" ?u] count
      reference_sections [OF ok, of "ini_start ?u" ?u "handler g"] acc by simp
  moreover have "filter (\<lambda>t. CHR '':'' \<in> set t) (map seed_text ss) = map seed_text ss"
    by (simp add: filter_id_conv seed_text_def)
  then have "map (\<lambda>s. (addr_host s, sint (addr_port s))) (seeds cfg) = map (\<lambda>(h, q). (h, int q)) ss"
    using assms(2) parse_seed_text by (auto simp: cfg(2) tokens_join list_all_iff seed_ok_def sint_word_of_nat)
  ultimately show ?thesis
    using assms(1,4) atoi_fmt_u [of p] cfg(3) by (simp add: process_args_def sint_word_of_nat)
qed

theorem process_args_roundtrip_witness:
  "\<exists>cfg. process_args (\<lambda>_. \<lparr>addr_host = [], addr_port = 0\<rparr>) 2
       (Some (ini_print [(''SERVER'', [(''PORT'', fmt_u 2001), (''SEEDS'', join_seeds [(''10.0.0.1'', 3232), (''h'', 5)])])])) =
     Some (Inr (Config cfg)) \<and> sint (cfg_port cfg) = 2001
     \<and> map (\<lambda>s. (addr_host s, sint (addr_port s))) (seeds cfg) = [(''10.0.0.1'', 3232), (''h'', 5)]"
proof -
  have "list_all seed_ok [(''10.0.0.1'', 3232), (''h'', 5)]"
    by (simp add: seed_ok_def ini_plain_def isspace_def)
  moreover have "length (fmt_u 3232) \<le> 4" "length (fmt_u 5) \<le> 1" by (rule length_fmt_u_le; simp)+
  then have "length (join_seeds [(''10.0.0.1'', 3232), (''h'', 5)]) < 193" by (simp add: seed_text_def)
  ultimately show ?thesis
    using process_args_roundtrip [of 2001 "[(''10.0.0.1'', 3232), (''h'', 5)]" 2 "\<lambda>_. \<lparr>addr_host = [], addr_port = 0\<rparr>"]
    by simp
qed

text \<open>A second \<open>SEEDS\<close> entry, also a continuation line of the first one, does not add
  to the seeds but replaces them.\<close>

lemma args_seeds_replaced:
  "seeds (snd (handler g (snd (handler g cfg ''SERVER'' ''SEEDS'' v)) ''SERVER'' ''SEEDS'' w)) =
   seeds (snd (handler g cfg ''SERVER'' ''SEEDS'' w))"
  using handler_seeds [of g cfg w] handler_seeds [of g "snd (handler g cfg ''SERVER'' ''SEEDS'' v)" w] by auto

end
