(* ===== verification/Node.thy ===== *)
theory Node
  imports Store Server_Destroy Udp_Client Args
begin

text \<open>
  The node itself: its persistent identity (\<open>src/src/helpers/network.c\<close>), its
  construction (\<open>src/src/node/node.c\<close>) and the handshake of \<open>src/src/main.c\<close> with the
  seed nodes of the configuration.

  The random bytes of OpenSSL's \<open>RAND_bytes\<close> are an argument, \<open>None\<close> when it fails. The
  identity file is its contents, \<open>None\<close> when it cannot be opened; \<open>write_ok\<close> says
  whether it can be opened for writing. Unwritten bytes of a local array are what \<open>id0\<close>
  says.
\<close>

subsection \<open>The identity\<close>

text \<open>The result, the array \<open>id\<close>, and the file afterwards.\<close>

definition load_or_generate_node_id ::
    "byte list \<Rightarrow> byte list option \<Rightarrow> byte list option \<Rightarrow> bool \<Rightarrow> int \<times> byte list \<times> byte list option" where
  "load_or_generate_node_id id0 idfile rand write_ok =
     (let rd = (case idfile of None \<Rightarrow> [] | Some c \<Rightarrow> take 20 c);
          id1 = rd @ drop (length rd) id0
      in if idfile \<noteq> None \<and> length rd = 20 then (0, id1, idfile)
         else case rand of None \<Rightarrow> (- 1, id1, idfile)
         | Some r \<Rightarrow> if \<not> write_ok then (- 1, r, idfile) else (0, r, Some r))"

subsection \<open>The node\<close>

record node_config_t =
  node_port :: c_int

text \<open>The request handlers a pointer can hold: the node installs the only one there is. It
  runs on the global command table and the hash of the global node at the time of the call.\<close>

datatype handler_ptr = Node_Request_Handler

primrec call_handler ::
    "handler_ptr \<Rightarrow> command option list \<Rightarrow> byte list option \<Rightarrow> (nat \<Rightarrow> byte) \<Rightarrow> (nat \<Rightarrow> char) \<Rightarrow> Udp_Server.handler" where
  "call_handler Node_Request_Handler = node_request_handler"

record node_t =
  node_server :: "(nat, handler_ptr) udp_server_t"
  node_client :: client_ptr
  node_hash :: "byte list"
  hash_hex_string :: string
  node_storage :: kv_store_t

abbreviation BUCKETS :: size_t where "BUCKETS \<equiv> 1024"

text \<open>The results of the system calls inside \<open>node_new\<close>: the address of the queue's first node,
  the socket of the server, the allocation and socket of the client, and the identity file with the random bytes.\<close>

record node_env =
  queue_addr :: nat
  server_socket :: int
  client_mem :: bool
  client_socket :: int
  id_garbage :: "byte list"
  id_file :: "byte list option"
  id_random :: "byte list option"
  id_writable :: bool

text \<open>\<open>node_new\<close>: the node, the command table and the identity file. The result of
  \<open>load_or_generate_node_id\<close> is not looked at. The hexadecimal string is copied into
  the 41 bytes of the node.\<close>

definition node_new ::
    "(nat \<Rightarrow> char) \<Rightarrow> node_env \<Rightarrow> node_config_t \<Rightarrow> command option list
     \<Rightarrow> (node_t \<times> command option list \<times> byte list option) run" where
  "node_new gs env config dispatcher =
     (let server = udp_server_set_request_handler
            (udp_server_new Map.empty (queue_addr env) (server_socket env) (node_port config)) (Some Node_Request_Handler);
          (_, client) = udp_client_new (client_mem env) (client_socket env) 1500;
          (_, node_id, idfile) = load_or_generate_node_id (id_garbage env) (id_file env) (id_random env) (id_writable env)
      in run_bind (SHA1 node_id 20) (\<lambda>result.
         run_bind (Some (mem_read result 0 20)) (\<lambda>hash.
         run_bind (Some (cvt_sha1_to_string gs result)) (\<lambda>string_hash.
         run_bind (Some (mem_write (uninit gs 41) 0 (c_text string_hash @ [NUL]))) (\<lambda>hex.
         Some (Inr (\<lparr>node_server = server, node_client = client, node_hash = hash, hash_hex_string = hex,
                     node_storage = kv_store_new BUCKETS\<rparr>,
                    load_commands dispatcher, idfile)))))))"

text \<open>What \<open>node_destroy\<close> can end in: the descriptor closed and the entries freed, or a fault. The workers
  of the server run meanwhile, so there may be several possibilities.\<close>

definition node_destroy :: "Udp_Server.handler option \<Rightarrow> node_t \<Rightarrow> (int option \<times> kv_entry_t list) faulty \<Rightarrow> bool" where
  "node_destroy H node r \<longleftrightarrow>
     (\<exists>r1. udp_server_destroy H (srv_state (node_server node)) r1 \<and>
       r = fault_bind r1 (\<lambda>_.
           fault_bind (udp_client_destroy (node_client node)) (\<lambda>fd.
           fault_bind (kv_store_destroy (node_storage node)) (\<lambda>freed. Inr (fd, freed)))))"

subsection \<open>The handshake\<close>

text \<open>What the calls give for one seed.\<close>

record seed_env =
  seed_mem :: bool
  seed_socket :: int
  seed_net :: net_outcome

text \<open>The loop body for one seed: whether it ends the loop. \<open>"PONG"\<close> is compared with the
  first four bytes of the payload, whatever its length.\<close>

definition handshake_one ::
    "(nat \<Rightarrow> byte) \<Rightarrow> byte list option \<Rightarrow> node_addr_t \<Rightarrow> seed_env \<Rightarrow> bool faulty" where
  "handshake_one g gn seed env =
     fault_bind (packet_new gn 1 CMD_PING 1 None 0) (\<lambda>req.
     let (_, client) = udp_client_new (seed_mem env) (seed_socket env) 1000 in
     fault_bind (udp_client_send_packet g client (Some (addr_host seed)) (addr_port seed) (seed_net env) (Some req) True) (\<lambda>(_, res, _).
     fault_bind (case res of None \<Rightarrow> Inr False
                 | Some p \<Rightarrow> (case payload p of None \<Rightarrow> Inl Null_Deref
                              | Some d \<Rightarrow> fault_bind (mem_read d 0 4) (\<lambda>d4. Inr (d4 = pong)))) (\<lambda>online.
     fault_bind (udp_client_destroy client) (\<lambda>_. Inr online))))"

text \<open>The loop over the seeds: the index of the seed that answered, if any.\<close>

fun handshake :: "(nat \<Rightarrow> byte) \<Rightarrow> byte list option \<Rightarrow> (node_addr_t \<Rightarrow> seed_env) \<Rightarrow> nat \<Rightarrow> node_addr_t list \<Rightarrow> nat option faulty" where
  "handshake g gn env i [] = Inr None"
| "handshake g gn env i (seed # rest) =
     fault_bind (handshake_one g gn seed (env seed)) (\<lambda>online.
     if online then Inr (Some i) else handshake g gn env (Suc i) rest)"

subsection \<open>Lemmas\<close>

lemma node_id_length:
  assumes "length id0 = 20" "\<forall>r. rand = Some r \<longrightarrow> length r = 20"
  shows "length (fst (snd (load_or_generate_node_id id0 idfile rand write_ok))) = 20"
  using assms by (auto simp: load_or_generate_node_id_def Let_def split: option.split)

definition ping_request :: "byte list \<Rightarrow> packet_t" where
  "ping_request hash = \<lparr>version = 1, ptype = 5, req_id = 1, sender_node_hash = hash, payload_len = 0, payload = Some []\<rparr>"

lemma ping_request_new:
  "length hash = 20 \<Longrightarrow> packet_new (Some hash) 1 CMD_PING 1 None 0 = Inr (ping_request hash) \<and> packet_wf (ping_request hash)"
  using packet_new_ok [of hash None 0 "[]" 1 CMD_PING 1] by (simp add: ptr_read_def ping_request_def packet_wf_def)

text \<open>The packet a seed answers with, when the exchange succeeds.\<close>

definition seed_response :: "seed_env \<Rightarrow> packet_t option" where
  "seed_response env =
     (if \<not> answered (seed_net env) then None
      else case packet_from_bytes (recv_buffer (seed_net env)) (nat (recvfrom_result (seed_net env))) of
             Inr r \<Rightarrow> r | Inl _ \<Rightarrow> None)"

text \<open>A client can be made, with a descriptor that fits an \<open>fd_set\<close>, and \<open>recvfrom\<close> keeps to its buffer.\<close>

definition seed_ready :: "seed_env \<Rightarrow> bool" where
  "seed_ready env \<longleftrightarrow> seed_mem env \<and> 0 \<le> seed_socket env \<and> seed_socket env < FD_SETSIZE \<and> net_ok (seed_net env)"

lemma handshake_one_eq:
  assumes "length hash = 20" "seed_ready env"
  shows "handshake_one g (Some hash) seed env =
           (case seed_response env of None \<Rightarrow> Inr False
            | Some p \<Rightarrow> (case payload p of None \<Rightarrow> Inl Null_Deref
                         | Some d \<Rightarrow> fault_bind (mem_read d 0 4) (\<lambda>d4. Inr (d4 = pong))))"
proof -
  let ?net = "seed_net env" and ?n = "nat (recvfrom_result (seed_net env))"
  note req = ping_request_new [OF assms(1)]
  have net: "net_ok ?net" and c: "udp_client_new (seed_mem env) (seed_socket env) 1000 =
      (0, Client \<lparr>client_fd = seed_socket env, timeout_ms = 1000\<rparr>)"
    using assms(2) by (simp_all add: seed_ready_def udp_client_new_def)
  have fd: "fd_ok \<lparr>client_fd = seed_socket env, timeout_ms = 1000\<rparr>" using assms(2) by (simp add: seed_ready_def fd_ok_def)
  have len: "?n \<le> length (recv_buffer ?net)" using net by (auto simp: net_ok_def)
  have "no_fault (packet_from_bytes (recv_buffer ?net) ?n)" using packet_from_bytes_cases [OF len] by simp
  then obtain r where r: "packet_from_bytes (recv_buffer ?net) ?n = Inr r" by (auto simp: no_fault_iff)
  have "\<exists>code sent. udp_client_send_packet g (Client \<lparr>client_fd = seed_socket env, timeout_ms = 1000\<rparr>) (Some (addr_host seed)) (addr_port seed) ?net (Some (ping_request hash)) True =
      Inr (code, seed_response env, sent)"
    unfolding send_packet_eq [OF conjunct2 [OF req] net fd] seed_response_def r
    by (cases r) (auto simp: answered_def)
  then obtain code sent where s: "udp_client_send_packet g (Client \<lparr>client_fd = seed_socket env, timeout_ms = 1000\<rparr>) (Some (addr_host seed)) (addr_port seed) ?net
      (Some (ping_request hash)) True = Inr (code, seed_response env, sent)" by blast
  have id: "fault_bind x (\<lambda>online. Inr online) = x" for x :: "bool faulty" by (cases x) simp_all
  show ?thesis
    unfolding handshake_one_def conjunct1 [OF req] c
    by (simp add: s udp_client_destroy_def id)
qed

lemma handshake_skip:
  "list_all (\<lambda>s. handshake_one g gn s (env s) = Inr False) skipped \<Longrightarrow>
   handshake g gn env i (skipped @ rest) = handshake g gn env (i + length skipped) rest"
  by (induction skipped arbitrary: i) simp_all

lemma node_new_eq:
  assumes "length (id_garbage env) = 20" "\<forall>r. id_random env = Some r \<longrightarrow> length r = 20"
  defines "node_id \<equiv> fst (snd (load_or_generate_node_id (id_garbage env) (id_file env) (id_random env) (id_writable env)))"
  shows "\<exists>node idfile. node_new gs env config d = Some (Inr (node, load_commands d, idfile))
           \<and> node_hash node = fips_sha1 node_id \<and> hash_hex_string node = hash_hex (fips_sha1 node_id) @ [NUL]
           \<and> node_storage node = kv_store_new 1024 
           \<and> srv_port (node_server node) = node_port config \<and> srv_handler (node_server node) = Some Node_Request_Handler
           \<and> srv_state (node_server node) = server_start Map.empty (queue_addr env)
           \<and> node_client node = snd (udp_client_new (client_mem env) (client_socket env) 1500)
           \<and> idfile = snd (snd (load_or_generate_node_id (id_garbage env) (id_file env) (id_random env) (id_writable env)))"
proof -
  have id: "length node_id = 20" unfolding node_id_def by (rule node_id_length [OF assms(1,2)])
  have sha: "SHA1 node_id 20 = Some (Inr (fips_sha1 node_id))"
    using SHA1_fips_sha1 [of 20 node_id] id by simp
  have hex: "cvt_sha1_to_string gs (fips_sha1 node_id) = Inr (hash_hex (fips_sha1 node_id) @ [NUL])"
    using cvt_sha1_to_string_hex [of "fips_sha1 node_id" gs] by simp
  have len: "length (hash_hex (fips_sha1 node_id)) = 40" by (simp add: length_hash_hex)
  show ?thesis
    unfolding node_new_def Let_def split_def node_id_def [symmetric] sha
    using hex len by (simp add: mem_read_def mem_write_def udp_server_new_def udp_server_set_request_handler_def)
qed

lemma response_no_payload:
  assumes "seed_ready env" "seed_response env = Some p" "payload_len p = 0"
  shows "payload p = None"
proof -
  let ?net = "seed_net env"
  have len: "nat (recvfrom_result ?net) \<le> length (recv_buffer ?net)"
    using assms(1) by (auto simp: seed_ready_def net_ok_def)
  have "packet_from_bytes (recv_buffer ?net) (nat (recvfrom_result ?net)) = Inr (Some p)"
    using assms(2) by (auto simp: seed_response_def split: if_splits sum.splits)
  from packet_from_bytes_inv [OF this len] have "packet_norm p = p" by simp
  then show ?thesis using assms(3) by (metis (no_types, lifting) packet_norm_def packet_t.select_convs(6) packet_t.surjective packet_t.update_convs(6))
qed

definition seed_offline :: "seed_env \<Rightarrow> bool" where
  "seed_offline env \<longleftrightarrow> (case seed_response env of None \<Rightarrow> True
     | Some p \<Rightarrow> (case payload p of None \<Rightarrow> False | Some d \<Rightarrow> 4 \<le> length d \<and> take 4 d \<noteq> pong))"

definition seed_online :: "seed_env \<Rightarrow> bool" where
  "seed_online env \<longleftrightarrow> (case seed_response env of None \<Rightarrow> False
     | Some p \<Rightarrow> (case payload p of None \<Rightarrow> False | Some d \<Rightarrow> take 4 d = pong))"

lemma handshake_one_offline:
  "length hash = 20 \<Longrightarrow> seed_ready env \<Longrightarrow> seed_offline env \<Longrightarrow> handshake_one g (Some hash) seed env = Inr False"
  by (auto simp: handshake_one_eq seed_offline_def mem_read_def split: option.splits)

lemma handshake_one_online:
  "length hash = 20 \<Longrightarrow> seed_ready env \<Longrightarrow> seed_online env \<Longrightarrow> handshake_one g (Some hash) seed env = Inr True"
proof -
  assume a: "length hash = 20" "seed_ready env" "seed_online env"
  then obtain p d where p: "seed_response env = Some p" "payload p = Some d" "take 4 d = pong"
    by (auto simp: seed_online_def split: option.splits)
  from p(3) have "4 \<le> length d" by (auto simp: pong_def dest: arg_cong [of _ _ length])
  with a p show ?thesis by (simp add: handshake_one_eq mem_read_def)
qed

subsection \<open>Properties\<close>

text \<open>The identity is stable: once \<open>load_or_generate_node_id\<close> has returned 0, every later
  call finds the same identity in the file, whatever the random generator then gives,
  and leaves the file as it is.\<close>

lemma node_id_stable:
  assumes "length id0 = 20" and "length id1 = 20" and "\<forall>r. rand = Some r \<longrightarrow> length r = 20"
    and "load_or_generate_node_id id0 idfile rand write_ok = (0, node_id, idfile')"
  shows "length node_id = 20 \<and>
         load_or_generate_node_id id1 idfile' rand' write_ok' = (0, node_id, idfile')"
  using assms
  by (auto simp: load_or_generate_node_id_def Let_def split: option.splits if_splits)

lemma node_id_stable_witness:
  "load_or_generate_node_id (replicate 20 9) (Some [1, 2]) (Some (replicate 20 5)) True =
     (0, replicate 20 5, Some (replicate 20 5))
   \<and> load_or_generate_node_id (replicate 20 7) (Some (replicate 20 5)) (Some (replicate 20 6)) False =
     (0, replicate 20 5, Some (replicate 20 5))"
proof
  show g: "load_or_generate_node_id (replicate 20 9) (Some [1, 2]) (Some (replicate 20 5)) True =
     (0, replicate 20 5, Some (replicate 20 5))"
    by (simp add: load_or_generate_node_id_def)
  show "load_or_generate_node_id (replicate 20 7) (Some (replicate 20 5)) (Some (replicate 20 6)) False =
     (0, replicate 20 5, Some (replicate 20 5))"
    using node_id_stable [OF _ _ _ g, of "replicate 20 7" "Some (replicate 20 6)" False] by simp
qed

definition sample_env :: node_env where
  "sample_env = \<lparr>queue_addr = 4096, server_socket = 3, client_mem = True, client_socket = 4, id_garbage = replicate 20 0,
     id_file = Some (replicate 20 3), id_random = None, id_writable = False\<rparr>"

text \<open>\<open>node_new\<close> ends without a fault: the node's hash is the SHA-1 of its identity,
  its text is the 40 digits of the hash, which fit the 41 bytes, the storage is an
  empty well-formed store, the server has the configured port, the node's request
  handler and its queue and threads in the initial state, and every slot of the command
  table is set.\<close>

lemma node_new_contract:
  assumes "length (id_garbage env) = 20" and "\<forall>r. id_random env = Some r \<longrightarrow> length r = 20"
    and "load_or_generate_node_id (id_garbage env) (id_file env) (id_random env) (id_writable env) = (code, node_id, idfile)"
  shows "\<exists>node. node_new gs env config initial_dispatcher = Some (Inr (node, load_commands initial_dispatcher, idfile))
           \<and> node_hash node = fips_sha1 node_id
           \<and> hash_hex_string node = hash_hex (fips_sha1 node_id) @ [NUL] \<and> length (hash_hex_string node) = 41
           \<and> kv_wf (node_storage node) \<and> kv_abs (node_storage node) = Map.empty
           \<and> srv_port (node_server node) = node_port config \<and> srv_handler (node_server node) = Some Node_Request_Handler
           \<and> (\<forall>H. server_reach H (srv_state (node_server node)))"
proof -
  obtain node where "node_new gs env config initial_dispatcher = Some (Inr (node, load_commands initial_dispatcher, idfile))"
    "node_hash node = fips_sha1 node_id" "hash_hex_string node = hash_hex (fips_sha1 node_id) @ [NUL]"
    "node_storage node = kv_store_new 1024" "srv_port (node_server node) = node_port config"
    "srv_handler (node_server node) = Some Node_Request_Handler"
    "srv_state (node_server node) = server_start Map.empty (queue_addr env)"
    using node_new_eq [OF assms(1,2), of gs config initial_dispatcher] assms(3) by auto
  then show ?thesis
    using kv_store_new_wf [of 1024] kv_store_new_abs [of 1024]
      server_reach.start [of Map.empty _ "queue_addr env"] by auto
qed

lemma node_new_contract_witness:
  "\<exists>node. node_new (\<lambda>_. NUL) sample_env \<lparr>node_port = 1998\<rparr> initial_dispatcher =
       Some (Inr (node, load_commands initial_dispatcher, Some (replicate 20 3)))
     \<and> node_hash node = fips_sha1 (replicate 20 3)"
  using node_new_contract [of sample_env 0 "replicate 20 3" "Some (replicate 20 3)" "\<lambda>_. NUL" "\<lparr>node_port = 1998\<rparr>"]
  by (auto simp: sample_env_def load_or_generate_node_id_def Let_def)

definition pong_env :: seed_env where
  "pong_env = \<lparr>seed_mem = True, seed_socket = 5, seed_net = sample_net\<rparr>"

definition silent_env :: seed_env where
  "silent_env = \<lparr>seed_mem = True, seed_socket = 5, seed_net = sample_net\<lparr>select_result := 0\<rparr>\<rparr>"

lemma pong_env_online: "seed_ready pong_env" "seed_online pong_env"
proof -
  have l: "length (wire sample_packet) = 30" using length_wire [OF sample_packet_wf] by (simp add: sample_packet_def)
  have "packet_norm sample_packet = sample_packet" by (simp add: packet_norm_def sample_packet_def)
  then have "packet_from_bytes (recv_buffer sample_net) 30 = Inr (Some sample_packet)"
    using packet_from_wire [OF sample_packet_wf, of 30 "replicate 65506 0"]
    by (simp add: sample_net_def) (simp add: sample_packet_def)
  moreover have "nat (recvfrom_result sample_net) = 30" by (simp add: sample_net_def)
  ultimately have "seed_response pong_env = Some sample_packet"
    using sample_net_ok(2) by (simp add: seed_response_def pong_env_def)
  then show "seed_online pong_env" by (simp add: seed_online_def sample_packet_def pong_def)
  show "seed_ready pong_env" using sample_net_ok(1) by (simp add: seed_ready_def pong_env_def)
qed

lemma silent_env_offline: "seed_ready silent_env" "seed_offline silent_env"
  using sample_net_ok(1)
  by (simp_all add: seed_ready_def seed_offline_def seed_response_def answered_def silent_env_def net_ok_def)

text \<open>The handshake stops at the first seed whose answer starts with \<open>PONG\<close>: seeds before
  it that are unreachable, or that answer at least four other bytes, are skipped.\<close>

lemma handshake_first_pong:
  assumes "length hash = 20" and "\<forall>s \<in> set skipped. seed_ready (env s) \<and> seed_offline (env s)"
    and "seed_ready (env seed)" and "seed_online (env seed)"
  shows "handshake g (Some hash) env 0 (skipped @ seed # rest) = Inr (Some (length skipped))"
proof -
  have "list_all (\<lambda>s. handshake_one g (Some hash) s (env s) = Inr False) skipped"
    using assms(1,2) handshake_one_offline by (simp add: list_all_iff)
  then show ?thesis
    using handshake_skip [of g "Some hash" env skipped 0 "seed # rest"]
      handshake_one_online [OF assms(1,3,4), of g] by simp
qed

lemma handshake_first_pong_witness:
  "handshake (\<lambda>_. 0) (Some sample_node_hash) (\<lambda>s. if addr_port s = 1 then silent_env else pong_env) 0
     ([\<lparr>addr_host = ''a'', addr_port = 1\<rparr>] @ \<lparr>addr_host = ''b'', addr_port = 2\<rparr> # []) = Inr (Some 1)"
  using handshake_first_pong [of sample_node_hash "[\<lparr>addr_host = ''a'', addr_port = 1\<rparr>]"
      "\<lambda>s. if addr_port s = 1 then silent_env else pong_env" "\<lparr>addr_host = ''b'', addr_port = 2\<rparr>" "\<lambda>_. 0" "[]"]
    pong_env_online silent_env_offline by (simp add: sample_node_hash_def)

text \<open>C39. A seed that answers with a packet without payload, such as the error packet of this
  program, stops the starting node: the handshake compares four bytes at a null
  pointer.\<close>

theorem handshake_null_payload:
  assumes "length hash = 20" and "seed_ready (env seed)"
    and "seed_response (env seed) = Some p" and "payload_len p = 0"
  shows "handshake g (Some hash) env i (seed # rest) = Inl Null_Deref"
  using handshake_one_eq [OF assms(1,2), of g] response_no_payload [OF assms(2-4)] assms(3) by simp

definition error_env :: seed_env where
  "error_env = \<lparr>seed_mem = True, seed_socket = 5,
     seed_net = \<lparr>pton_result = 1, sendto_result = 26, select_result = 1, fd_isset = True, recvfrom_result = 26,
       recv_buffer = wire (error_packet sample_node_hash) @ replicate 65510 0\<rparr>\<rparr>"

theorem handshake_null_payload_witness:
  "handshake (\<lambda>_. 0) (Some sample_node_hash) (\<lambda>_. error_env) 0 [\<lparr>addr_host = ''a'', addr_port = 1\<rparr>] = Inl Null_Deref"
proof -
  let ?p = "error_packet sample_node_hash"
  have wf: "packet_wf ?p" by (rule error_packet_wf) (simp add: sample_node_hash_def)
  have l: "length (wire ?p) = 26" using length_wire [OF wf] by (simp add: error_packet_def)
  have "packet_from_bytes (recv_buffer (seed_net error_env)) 26 = Inr (Some (packet_norm ?p))"
    using packet_from_wire [OF wf, of 26 "replicate 65510 0"] by (simp add: error_env_def) (simp add: error_packet_def)
  then have "seed_response error_env = Some (packet_norm ?p)"
    by (simp add: seed_response_def error_env_def answered_def)
  moreover have "payload_len (packet_norm ?p) = 0" by (simp add: packet_norm_def error_packet_def)
  moreover have "seed_ready error_env" using l by (simp add: seed_ready_def error_env_def net_ok_def)
  ultimately show ?thesis
    using handshake_null_payload [of sample_node_hash "\<lambda>_. error_env"] by (simp add: sample_node_hash_def)
qed

end
