(* ===== verification/Lookup_Table.thy ===== *)
theory Lookup_Table
  imports Convert
begin

text \<open>
  \<open>src/src/node/lookup_table.c\<close> with \<open>lookup_table.h\<close>: the table of known peers, a
  chain of (host, port, hash) nodes under one mutex, with its flat byte form.

  The chain is the list of its nodes from \<open>head\<close> on. The mutex is a flag and not
  recursive: locking it while it is held blocks for ever, the result \<open>None\<close>. A
  pointer argument that the code tests is an \<open>option\<close>; a host is a C string, the
  bytes up to the first zero. \<open>mem_ok\<close> says whether an allocation succeeds.
\<close>

subsection \<open>The structures\<close>

abbreviation MAX_HOST_LEN :: nat where "MAX_HOST_LEN \<equiv> 46"
abbreviation HASH_SIZE :: nat where "HASH_SIZE \<equiv> 20"

record node_info_t =
  info_host :: "byte list"
  info_port :: c_int
  info_hash :: "byte list"

record lookup_table_t =
  lt_head :: "node_info_t list"
  lt_mutex :: bool
  lt_size :: size_t

definition lt_lock :: "lookup_table_t \<Rightarrow> lookup_table_t run" where
  "lt_lock t = (if lt_mutex t then None else Some (Inr (t\<lparr>lt_mutex := True\<rparr>)))"

definition lt_unlock :: "lookup_table_t \<Rightarrow> lookup_table_t" where
  "lt_unlock t = t\<lparr>lt_mutex := False\<rparr>"

subsection \<open>Helpers of the source\<close>

definition create_node :: "bool \<Rightarrow> byte list \<Rightarrow> c_int \<Rightarrow> byte list \<Rightarrow> node_info_t option faulty" where
  "create_node mem_ok host port hash =
     (if \<not> mem_ok then Inr None
      else fault_bind (mem_read hash 0 HASH_SIZE) (\<lambda>h.
           Inr (Some \<lparr>info_host = strncpy host (MAX_HOST_LEN - 1) @ [0],
                      info_port = port, info_hash = h\<rparr>)))"

definition hash_equal :: "byte list \<Rightarrow> byte list \<Rightarrow> bool faulty" where
  "hash_equal hash1 hash2 =
     fault_bind (mem_read hash1 0 HASH_SIZE) (\<lambda>a.
     fault_bind (mem_read hash2 0 HASH_SIZE) (\<lambda>b. Inr (a = b)))"

text \<open>The test \<open>strcmp(current->info.host, host) == 0 && current->info.port == port\<close>.\<close>

definition same_addr :: "byte list \<Rightarrow> c_int \<Rightarrow> node_info_t \<Rightarrow> bool faulty" where
  "same_addr host port n = Inr (strcmp_eq (info_host n) host \<and> info_port n = port)"

text \<open>The two loops over the chain: \<open>find_walk\<close> stops at the first node that passes
  the test; \<open>remove_walk\<close> unlinks it, \<open>before\<close> being the nodes already passed, the
  last one (\<open>prev\<close>) first.\<close>

fun find_walk :: "(node_info_t \<Rightarrow> bool faulty) \<Rightarrow> node_info_t list \<Rightarrow> node_info_t option faulty" where
  "find_walk test [] = Inr None"
| "find_walk test (current # rest) =
     fault_bind (test current) (\<lambda>hit. if hit then Inr (Some current) else find_walk test rest)"

fun remove_walk ::
    "(node_info_t \<Rightarrow> bool faulty) \<Rightarrow> node_info_t list \<Rightarrow> node_info_t list \<Rightarrow> node_info_t list option faulty" where
  "remove_walk test before [] = Inr None"
| "remove_walk test before (current # rest) =
     fault_bind (test current) (\<lambda>hit.
       if hit then Inr (Some (rev before @ rest)) else remove_walk test (current # before) rest)"

subsection \<open>Operations\<close>

definition lookup_table_create :: "bool \<Rightarrow> bool \<Rightarrow> lookup_table_t option" where
  "lookup_table_create mem_ok mutex_ok =
     (if \<not> mem_ok then None
      else if \<not> mutex_ok then None
      else Some \<lparr>lt_head = [], lt_mutex = False, lt_size = 0\<rparr>)"

text \<open>\<open>lookup_table_destroy\<close>: the nodes it frees, in order.\<close>

definition lookup_table_destroy :: "lookup_table_t option \<Rightarrow> node_info_t list run" where
  "lookup_table_destroy table =
     (case table of None \<Rightarrow> Some (Inr [])
      | Some t \<Rightarrow> run_bind (lt_lock t) (\<lambda>t1. Some (Inr (lt_head t1))))"

definition lookup_table_add ::
    "bool \<Rightarrow> lookup_table_t option \<Rightarrow> byte list option \<Rightarrow> c_int \<Rightarrow> byte list option
     \<Rightarrow> (c_int \<times> lookup_table_t option) run" where
  "lookup_table_add mem_ok table host port hash =
     (case (table, host, hash) of
        (Some t, Some h, Some hs) \<Rightarrow>
          run_bind (lt_lock t) (\<lambda>t1.
          run_bind (Some (find_walk (same_addr h port) (lt_head t1))) (\<lambda>found.
          case found of Some _ \<Rightarrow> Some (Inr (0, Some (lt_unlock t1)))
          | None \<Rightarrow>
            run_bind (Some (create_node mem_ok h port hs)) (\<lambda>new_node.
            case new_node of None \<Rightarrow> Some (Inr (- 1, Some (lt_unlock t1)))
            | Some n \<Rightarrow>
              Some (Inr (1, Some (lt_unlock (t1\<lparr>lt_head := n # lt_head t1, lt_size := lt_size t1 + 1\<rparr>)))))))
      | _ \<Rightarrow> Some (Inr (- 1, table)))"

text \<open>The common body of the two removals: unlink the first node that passes the
  test.\<close>

definition lt_remove_first ::
    "(node_info_t \<Rightarrow> bool faulty) \<Rightarrow> lookup_table_t \<Rightarrow> (c_int \<times> lookup_table_t option) run" where
  "lt_remove_first test t =
     run_bind (lt_lock t) (\<lambda>t1.
     run_bind (Some (remove_walk test [] (lt_head t1))) (\<lambda>r.
     case r of None \<Rightarrow> Some (Inr (0, Some (lt_unlock t1)))
     | Some rest \<Rightarrow> Some (Inr (1, Some (lt_unlock (t1\<lparr>lt_head := rest, lt_size := lt_size t1 - 1\<rparr>))))))"

definition lookup_table_remove ::
    "lookup_table_t option \<Rightarrow> byte list option \<Rightarrow> c_int \<Rightarrow> (c_int \<times> lookup_table_t option) run" where
  "lookup_table_remove table host port =
     (case (table, host) of (Some t, Some h) \<Rightarrow> lt_remove_first (same_addr h port) t
      | _ \<Rightarrow> Some (Inr (- 1, table)))"

definition lookup_table_remove_by_hash ::
    "lookup_table_t option \<Rightarrow> byte list option \<Rightarrow> (c_int \<times> lookup_table_t option) run" where
  "lookup_table_remove_by_hash table hash =
     (case (table, hash) of
        (Some t, Some hs) \<Rightarrow> lt_remove_first (\<lambda>n. hash_equal (info_hash n) hs) t
      | _ \<Rightarrow> Some (Inr (- 1, table)))"

text \<open>The common body of the two searches. The result is the node the returned
  pointer points to, and the table.\<close>

definition lt_find_first ::
    "(node_info_t \<Rightarrow> bool faulty) \<Rightarrow> lookup_table_t \<Rightarrow> (node_info_t option \<times> lookup_table_t option) run" where
  "lt_find_first test t =
     run_bind (lt_lock t) (\<lambda>t1.
     run_bind (Some (find_walk test (lt_head t1))) (\<lambda>result.
     Some (Inr (result, Some (lt_unlock t1)))))"

definition lookup_table_find ::
    "lookup_table_t option \<Rightarrow> byte list option \<Rightarrow> c_int \<Rightarrow> (node_info_t option \<times> lookup_table_t option) run" where
  "lookup_table_find table host port =
     (case (table, host) of (Some t, Some h) \<Rightarrow> lt_find_first (same_addr h port) t
      | _ \<Rightarrow> Some (Inr (None, table)))"

definition lookup_table_find_by_hash ::
    "lookup_table_t option \<Rightarrow> byte list option \<Rightarrow> (node_info_t option \<times> lookup_table_t option) run" where
  "lookup_table_find_by_hash table hash =
     (case (table, hash) of
        (Some t, Some hs) \<Rightarrow> lt_find_first (\<lambda>n. hash_equal (info_hash n) hs) t
      | _ \<Rightarrow> Some (Inr (None, table)))"

definition lookup_table_size :: "lookup_table_t option \<Rightarrow> (size_t \<times> lookup_table_t option) run" where
  "lookup_table_size table =
     (case table of None \<Rightarrow> Some (Inr (0, None))
      | Some t \<Rightarrow> run_bind (lt_lock t) (\<lambda>t1. Some (Inr (lt_size t1, Some (lt_unlock t1)))))"

subsection \<open>The flat form\<close>

definition lookup_table_serialized_size :: "lookup_table_t option \<Rightarrow> (size_t \<times> lookup_table_t option) run" where
  "lookup_table_serialized_size table =
     (case table of None \<Rightarrow> Some (Inr (0, None))
      | Some t \<Rightarrow>
          run_bind (lt_lock t) (\<lambda>t1.
          Some (Inr (8 + lt_size t1 * (46 + 4 + 20), Some (lt_unlock t1)))))"

fun serialize_nodes :: "byte list \<Rightarrow> nat \<Rightarrow> node_info_t list \<Rightarrow> byte list faulty" where
  "serialize_nodes buffer offset [] = Inr buffer"
| "serialize_nodes buffer offset (current # rest) =
     fault_bind (mem_read (info_host current) 0 MAX_HOST_LEN) (\<lambda>h.
     fault_bind (mem_write buffer offset h) (\<lambda>b1.
     fault_bind (mem_write b1 (offset + MAX_HOST_LEN) (le_bytes 4 (info_port current))) (\<lambda>b2.
     fault_bind (mem_read (info_hash current) 0 HASH_SIZE) (\<lambda>hs.
     fault_bind (mem_write b2 (offset + MAX_HOST_LEN + 4) hs) (\<lambda>b3.
     serialize_nodes b3 (offset + MAX_HOST_LEN + 4 + HASH_SIZE) rest)))))"

text \<open>What \<open>lookup_table_serialize\<close> writes once its size test has passed.\<close>

definition serialize_body :: "lookup_table_t \<Rightarrow> byte list \<Rightarrow> byte list faulty" where
  "serialize_body t buffer =
     fault_bind (mem_write buffer 0 (le_bytes 8 (lt_size t))) (\<lambda>b. serialize_nodes b 8 (lt_head t))"

definition lookup_table_serialize ::
    "lookup_table_t option \<Rightarrow> byte list option \<Rightarrow> size_t
     \<Rightarrow> (c_int \<times> lookup_table_t option \<times> byte list option) run" where
  "lookup_table_serialize table buffer buffer_size =
     (case (table, buffer) of
        (Some t, Some b) \<Rightarrow>
          run_bind (lt_lock t) (\<lambda>t1.
          run_bind (lookup_table_serialized_size (Some t1)) (\<lambda>(required_size, t2).
          case t2 of None \<Rightarrow> Some (Inl Null_Deref)
          | Some t3 \<Rightarrow>
            if buffer_size < required_size then Some (Inr (- 1, Some (lt_unlock t3), buffer))
            else run_bind (Some (serialize_body t3 b)) (\<lambda>b'.
                 Some (Inr (0, Some (lt_unlock t3), Some b')))))
      | _ \<Rightarrow> Some (Inr (- 1, table, buffer)))"

text \<open>The reading loop, for \<open>k\<close> more nodes from index \<open>i\<close>; \<open>mem_ok i\<close> says whether
  the allocation of node \<open>i\<close> succeeds. The flag of the result says whether all
  of them did.\<close>

fun deserialize_nodes ::
    "(nat \<Rightarrow> bool) \<Rightarrow> byte list \<Rightarrow> nat \<Rightarrow> nat \<Rightarrow> nat \<Rightarrow> lookup_table_t \<Rightarrow> (bool \<times> lookup_table_t) faulty" where
  "deserialize_nodes mem_ok dat offset i 0 t = Inr (True, t)"
| "deserialize_nodes mem_ok dat offset i (Suc k) t =
     fault_bind (mem_read dat offset MAX_HOST_LEN) (\<lambda>host.
     fault_bind (mem_read dat (offset + MAX_HOST_LEN) 4) (\<lambda>port.
     fault_bind (mem_read dat (offset + MAX_HOST_LEN + 4) HASH_SIZE) (\<lambda>hash.
     fault_bind (create_node (mem_ok i) host (le_word port) hash) (\<lambda>new_node.
     case new_node of None \<Rightarrow> Inr (False, t)
     | Some n \<Rightarrow>
         deserialize_nodes mem_ok dat (offset + MAX_HOST_LEN + 4 + HASH_SIZE) (Suc i) k
           (t\<lparr>lt_head := n # lt_head t, lt_size := lt_size t + 1\<rparr>)))))"

definition lookup_table_deserialize ::
    "bool \<Rightarrow> bool \<Rightarrow> (nat \<Rightarrow> bool) \<Rightarrow> byte list option \<Rightarrow> size_t \<Rightarrow> lookup_table_t option run" where
  "lookup_table_deserialize mem_table mutex_ok mem_ok data data_size =
     (case data of None \<Rightarrow> Some (Inr None)
      | Some dat \<Rightarrow>
        if data_size < 8 then Some (Inr None)
        else case lookup_table_create mem_table mutex_ok of None \<Rightarrow> Some (Inr None)
        | Some table \<Rightarrow>
          run_bind (Some (mem_read dat 0 8)) (\<lambda>count.
          let node_count = le_word count :: size_t;
              expected_size = 8 + node_count * (46 + 4 + 20)
          in if data_size < expected_size
             then run_bind (lookup_table_destroy (Some table)) (\<lambda>_. Some (Inr None))
             else run_bind (lt_lock table) (\<lambda>t1.
                  run_bind (Some (deserialize_nodes mem_ok dat 8 0 (unat node_count) t1)) (\<lambda>(complete, t2).
                  if complete then Some (Inr (Some (lt_unlock t2)))
                  else run_bind (lookup_table_destroy (Some (lt_unlock t2))) (\<lambda>_. Some (Inr None))))))"

subsection \<open>Printing\<close>

text \<open>\<open>lookup_table_print\<close>: the text it writes to the standard output. \<open>%d\<close> prints a
  signed number.\<close>

definition fmt_d :: "c_int \<Rightarrow> string" where
  "fmt_d w = (if sint w < 0 then ''-'' @ fmt_u (nat (- sint w)) else fmt_u (nat (sint w)))"

abbreviation newline :: string where "newline \<equiv> [CHR 0x0A]"

fun print_nodes :: "c_int \<Rightarrow> node_info_t list \<Rightarrow> string faulty" where
  "print_nodes index [] = Inr []"
| "print_nodes index (current # rest) =
     fault_bind (mem_read (info_hash current) 0 HASH_SIZE) (\<lambda>hash.
     fault_bind (print_nodes (index + 1) rest) (\<lambda>out.
     Inr (''Node '' @ fmt_d index @ '':'' @ newline @
          ''  Host: '' @ map (\<lambda>b. char_of (unat b)) (cstr (info_host current)) @ newline @
          ''  Port: '' @ fmt_d (info_port current) @ newline @
          ''  Hash: '' @ concat (map fmt_02x hash) @ newline @ out)))"

definition lookup_table_print :: "lookup_table_t option \<Rightarrow> (string \<times> lookup_table_t option) run" where
  "lookup_table_print table =
     (case table of None \<Rightarrow> Some (Inr ([], None))
      | Some t \<Rightarrow>
          run_bind (lt_lock t) (\<lambda>t1.
          run_bind (Some (print_nodes 1 (lt_head t1))) (\<lambda>out.
          Some (Inr (''Lookup Table ('' @ fmt_u (unat (lt_size t1)) @ '' nodes):'' @ newline @
                     ''---------------------------'' @ newline @ out, Some (lt_unlock t1))))))"

subsection \<open>The loops over the chain\<close>

definition remove_first :: "('a \<Rightarrow> bool) \<Rightarrow> 'a list \<Rightarrow> 'a list" where
  "remove_first P xs = takeWhile (\<lambda>x. \<not> P x) xs @ tl (dropWhile (\<lambda>x. \<not> P x) xs)"

lemma remove_first_simps [simp]:
  "remove_first P [] = []"
  "remove_first P (x # xs) = (if P x then xs else x # remove_first P xs)"
  by (simp_all add: remove_first_def)

lemma find_walk_eq:
  "\<forall>n \<in> set ns. test n = Inr (P n) \<Longrightarrow> find_walk test ns = Inr (find P ns)"
  by (induction ns) simp_all

lemma remove_walk_eq:
  "\<forall>n \<in> set ns. test n = Inr (P n) \<Longrightarrow>
   remove_walk test before ns = Inr (if \<exists>n\<in>set ns. P n then Some (rev before @ remove_first P ns) else None)"
  by (induction ns arbitrary: before) auto

lemma set_remove_first: "set (remove_first P xs) \<subseteq> set xs"
  by (induction xs) auto

lemma length_remove_first: "\<exists>x\<in>set xs. P x \<Longrightarrow> Suc (length (remove_first P xs)) = length xs"
  by (induction xs) auto

lemma distinct_remove_first: "distinct (map f xs) \<Longrightarrow> distinct (map f (remove_first P xs))"
proof (induction xs)
  case (Cons x xs)
  then show ?case using set_remove_first [of P xs] by auto
qed simp

lemma map_of_remove_first:
  assumes "distinct (map f xs)"
  shows "map_of (map (\<lambda>x. (f x, g x)) (remove_first (\<lambda>x. f x = k) xs)) =
           (map_of (map (\<lambda>x. (f x, g x)) xs))(k := None)"
  using assms
proof (induction xs)
  case (Cons x xs)
  have "map_of (map (\<lambda>x. (f x, g x)) xs) (f x) = None"
    using Cons.prems by (auto simp: map_of_eq_None_iff image_iff)
  with Cons show ?case by (auto simp: fun_eq_iff)
qed simp

lemma map_of_find_key:
  "map_of (map (\<lambda>x. (f x, g x)) xs) k = map_option g (find (\<lambda>x. f x = k) xs)"
  by (induction xs) simp_all

subsection \<open>Well-formed tables and the address book they hold\<close>

definition node_ok :: "node_info_t \<Rightarrow> bool" where
  "node_ok n \<longleftrightarrow> info_host n = strncpy (info_host n) 45 @ [0] \<and> length (info_hash n) = 20"

definition lt_ok :: "lookup_table_t \<Rightarrow> bool" where
  "lt_ok t \<longleftrightarrow> \<not> lt_mutex t \<and> lt_size t = word_of_nat (length (lt_head t)) \<and> list_all node_ok (lt_head t)"

definition lt_key :: "node_info_t \<Rightarrow> byte list \<times> c_int" where
  "lt_key n = (cstr (info_host n), info_port n)"

definition lt_wf :: "lookup_table_t \<Rightarrow> bool" where
  "lt_wf t \<longleftrightarrow> lt_ok t \<and> distinct (map lt_key (lt_head t))"

definition lt_abs :: "lookup_table_t \<Rightarrow> byte list \<times> c_int \<rightharpoonup> byte list" where
  "lt_abs t = map_of (map (\<lambda>n. (lt_key n, info_hash n)) (lt_head t))"

lemma strncpy_idem [simp]: "strncpy (strncpy h n @ [0]) n = strncpy h n"
  unfolding strncpy_def [of "strncpy h n @ [0]"] cstr_strncpy by (simp add: strncpy_def min_def)

lemma create_node_ok:
  assumes "length hash = 20"
  shows "\<exists>n. create_node True host port hash = Inr (Some n) \<and> node_ok n
           \<and> lt_key n = (take 45 (cstr host), port) \<and> info_hash n = hash"
  using assms by (simp add: create_node_def mem_read_def node_ok_def lt_key_def cstr_strncpy)

lemma lt_lock_ok: "lt_ok t \<Longrightarrow> lt_lock t = Some (Inr (t\<lparr>lt_mutex := True\<rparr>))"
  by (simp add: lt_lock_def lt_ok_def)

lemma lt_unlock_locked: "lt_ok t \<Longrightarrow> lt_unlock (t\<lparr>lt_mutex := True\<rparr>) = t"
  by (simp add: lt_unlock_def lt_ok_def)

lemma same_addr_key: "same_addr h p n = Inr (lt_key n = (cstr h, p))"
  by (simp add: same_addr_def strcmp_eq_def lt_key_def)

lemma lt_abs_find: "lt_abs t k = map_option info_hash (find (\<lambda>n. lt_key n = k) (lt_head t))"
  by (simp add: lt_abs_def map_of_find_key)

lemma lt_abs_None: "lt_abs t k = None \<longleftrightarrow> k \<notin> lt_key ` set (lt_head t)"
  by (auto simp: lt_abs_def map_of_eq_None_iff image_iff)

lemma lookup_table_create_wf:
  "lookup_table_create True True = Some t \<Longrightarrow> lt_wf t \<and> lt_abs t = Map.empty"
  by (auto simp: lookup_table_create_def lt_wf_def lt_ok_def lt_abs_def)

lemma lookup_table_add_eq:
  assumes "lt_ok t" "length hash = 20"
  shows "lookup_table_add mem_ok (Some t) (Some host) port (Some hash) = Some (Inr (
           if (cstr host, port) \<in> lt_key ` set (lt_head t) then (0, Some t)
           else if \<not> mem_ok then (- 1, Some t)
           else (1, Some (t\<lparr>lt_head := \<lparr>info_host = strncpy host 45 @ [0], info_port = port, info_hash = hash\<rparr>
                                       # lt_head t, lt_size := lt_size t + 1\<rparr>))))"
proof -
  have "find_walk (same_addr host port) (lt_head t) = Inr (find (\<lambda>n. lt_key n = (cstr host, port)) (lt_head t))"
    by (rule find_walk_eq) (simp add: same_addr_key)
  moreover have "(cstr host, port) \<in> lt_key ` set (lt_head t) \<longleftrightarrow>
      find (\<lambda>n. lt_key n = (cstr host, port)) (lt_head t) \<noteq> None"
    by (force simp: find_None_iff image_iff)
  ultimately show ?thesis
    using assms lt_unlock_locked [OF assms(1)]
    by (cases "find (\<lambda>n. lt_key n = (cstr host, port)) (lt_head t)")
      (auto simp: lookup_table_add_def lt_lock_ok create_node_def mem_read_def lt_unlock_def lt_ok_def)
qed

lemma lt_remove_first_eq:
  assumes ok: "lt_ok t" and test: "\<forall>n \<in> set (lt_head t). test n = Inr (P n)"
  shows "lt_remove_first test t = Some (Inr (
           if \<exists>n \<in> set (lt_head t). P n
           then (1, Some (t\<lparr>lt_head := remove_first P (lt_head t), lt_size := lt_size t - 1\<rparr>))
           else (0, Some t)))"
  using lt_unlock_locked [OF ok] ok
  by (auto simp: lt_remove_first_def lt_lock_ok [OF ok] remove_walk_eq [OF test] lt_unlock_def lt_ok_def)

lemma lt_find_first_eq:
  assumes ok: "lt_ok t" and test: "\<forall>n \<in> set (lt_head t). test n = Inr (P n)"
  shows "lt_find_first test t = Some (Inr (find P (lt_head t), Some t))"
  by (simp add: lt_find_first_def lt_lock_ok [OF ok] find_walk_eq [OF test] lt_unlock_locked [OF ok])

lemma hash_test:
  assumes "lt_ok t" "length hs = 20"
  shows "\<forall>n \<in> set (lt_head t). hash_equal (info_hash n) hs = Inr (info_hash n = hs)"
  using assms by (auto simp: hash_equal_def mem_read_def lt_ok_def node_ok_def list_all_iff)

lemma lt_ok_remove:
  assumes "lt_ok t" "\<exists>n \<in> set (lt_head t). P n"
  shows "lt_ok (t\<lparr>lt_head := remove_first P (lt_head t), lt_size := lt_size t - 1\<rparr>)"
proof -
  have "word_of_nat (length (lt_head t)) - 1 = (word_of_nat (length (remove_first P (lt_head t))) :: size_t)"
    unfolding length_remove_first [OF assms(2), symmetric] by simp
  then show ?thesis
    using assms set_remove_first [of P "lt_head t"] by (auto simp: lt_ok_def list_all_iff)
qed

lemma lt_wf_remove:
  assumes "lt_wf t" "\<exists>n \<in> set (lt_head t). P n"
  shows "lt_wf (t\<lparr>lt_head := remove_first P (lt_head t), lt_size := lt_size t - 1\<rparr>)"
  using assms lt_ok_remove [of t P] distinct_remove_first [of lt_key "lt_head t" P] by (simp add: lt_wf_def)

lemma lt_wf_add:
  assumes "lt_wf t" "length hash = 20" "length (cstr host) \<le> 45"
    "(cstr host, port) \<notin> lt_key ` set (lt_head t)"
  shows "lt_wf (t\<lparr>lt_head := \<lparr>info_host = strncpy host 45 @ [0], info_port = port, info_hash = hash\<rparr>
                          # lt_head t, lt_size := lt_size t + 1\<rparr>)"
proof -
  have "lt_key \<lparr>info_host = strncpy host 45 @ [0], info_port = port, info_hash = hash\<rparr> = (cstr host, port)"
    using assms(3) by (simp add: lt_key_def cstr_strncpy)
  then show ?thesis
    using assms by (simp add: lt_wf_def lt_ok_def node_ok_def add.commute)
qed

subsection \<open>The contract: an address book\<close>

text \<open>
  The interface of the table: \<open>ab\<close> is the map from addresses to hashes it holds, and
  \<open>ky\<close> the address an argument names. A run of operations on the table gives the
  answers that the same run gives on a map.
\<close>

datatype ('k, 'v) book_op = Book_Add 'k 'v | Book_Remove 'k | Book_Find 'k
datatype 'v book_answer = Code c_int | Found "'v option"

fun book_spec :: "('k \<Rightarrow> 'd) \<Rightarrow> ('d \<rightharpoonup> 'v) \<Rightarrow> ('k, 'v) book_op \<Rightarrow> 'v book_answer \<times> ('d \<rightharpoonup> 'v)" where
  "book_spec ky m (Book_Add k v) =
     (case m (ky k) of None \<Rightarrow> (Code 1, m(ky k \<mapsto> v)) | Some _ \<Rightarrow> (Code 0, m))"
| "book_spec ky m (Book_Remove k) = (Code (case m (ky k) of None \<Rightarrow> 0 | Some _ \<Rightarrow> 1), m(ky k := None))"
| "book_spec ky m (Book_Find k) = (Found (m (ky k)), m)"

fun book_spec_run :: "('k \<Rightarrow> 'd) \<Rightarrow> ('d \<rightharpoonup> 'v) \<Rightarrow> ('k, 'v) book_op list \<Rightarrow> 'v book_answer list" where
  "book_spec_run ky m [] = []"
| "book_spec_run ky m (op # ops) = (let (a, m') = book_spec ky m op in a # book_spec_run ky m' ops)"

fun book_step ::
    "('s \<Rightarrow> 'k \<Rightarrow> 'v \<Rightarrow> (c_int \<times> 's) run) \<Rightarrow> ('s \<Rightarrow> 'k \<Rightarrow> (c_int \<times> 's) run) \<Rightarrow>
     ('s \<Rightarrow> 'k \<Rightarrow> ('v option \<times> 's) run) \<Rightarrow> 's \<Rightarrow> ('k, 'v) book_op \<Rightarrow> ('v book_answer \<times> 's) run" where
  "book_step add rm fnd s (Book_Add k v) = run_bind (add s k v) (\<lambda>(c, s'). Some (Inr (Code c, s')))"
| "book_step add rm fnd s (Book_Remove k) = run_bind (rm s k) (\<lambda>(c, s'). Some (Inr (Code c, s')))"
| "book_step add rm fnd s (Book_Find k) = run_bind (fnd s k) (\<lambda>(v, s'). Some (Inr (Found v, s')))"

fun book_run ::
    "('s \<Rightarrow> 'k \<Rightarrow> 'v \<Rightarrow> (c_int \<times> 's) run) \<Rightarrow> ('s \<Rightarrow> 'k \<Rightarrow> (c_int \<times> 's) run) \<Rightarrow>
     ('s \<Rightarrow> 'k \<Rightarrow> ('v option \<times> 's) run) \<Rightarrow> 's \<Rightarrow> ('k, 'v) book_op list \<Rightarrow> ('v book_answer list \<times> 's) run" where
  "book_run add rm fnd s [] = Some (Inr ([], s))"
| "book_run add rm fnd s (op # ops) =
     run_bind (book_step add rm fnd s op) (\<lambda>(a, s1).
     run_bind (book_run add rm fnd s1 ops) (\<lambda>(as, s2). Some (Inr (a # as, s2))))"

fun op_valid :: "('k \<Rightarrow> bool) \<Rightarrow> ('v \<Rightarrow> bool) \<Rightarrow> ('k, 'v) book_op \<Rightarrow> bool" where
  "op_valid kv vv (Book_Add k v) \<longleftrightarrow> kv k \<and> vv v"
| "op_valid kv vv (Book_Remove k) \<longleftrightarrow> kv k"
| "op_valid kv vv (Book_Find k) \<longleftrightarrow> kv k"

locale address_book =
  fixes inv :: "'s \<Rightarrow> bool"
    and ab :: "'s \<Rightarrow> 'd \<rightharpoonup> 'v"
    and ky :: "'k \<Rightarrow> 'd"
    and kvalid :: "'k \<Rightarrow> bool"
    and vvalid :: "'v \<Rightarrow> bool"
    and add :: "'s \<Rightarrow> 'k \<Rightarrow> 'v \<Rightarrow> (c_int \<times> 's) run"
    and rm :: "'s \<Rightarrow> 'k \<Rightarrow> (c_int \<times> 's) run"
    and fnd :: "'s \<Rightarrow> 'k \<Rightarrow> ('v option \<times> 's) run"
  assumes add_new: "inv s \<Longrightarrow> kvalid k \<Longrightarrow> vvalid v \<Longrightarrow> ab s (ky k) = None \<Longrightarrow>
      \<exists>s'. add s k v = Some (Inr (1, s')) \<and> inv s' \<and> ab s' = (ab s)(ky k \<mapsto> v)"
    and add_old: "inv s \<Longrightarrow> kvalid k \<Longrightarrow> vvalid v \<Longrightarrow> ab s (ky k) = Some w \<Longrightarrow> add s k v = Some (Inr (0, s))"
    and rm_ok: "inv s \<Longrightarrow> kvalid k \<Longrightarrow>
      \<exists>s'. rm s k = Some (Inr (case ab s (ky k) of None \<Rightarrow> 0 | Some _ \<Rightarrow> 1, s')) \<and> inv s'
         \<and> ab s' = (ab s)(ky k := None)"
    and fnd_ok: "inv s \<Longrightarrow> kvalid k \<Longrightarrow> fnd s k = Some (Inr (ab s (ky k), s))"
begin

lemma step_refines:
  assumes "inv s" "op_valid kvalid vvalid op"
  shows "\<exists>s'. book_step add rm fnd s op = Some (Inr (fst (book_spec ky (ab s) op), s'))
           \<and> inv s' \<and> ab s' = snd (book_spec ky (ab s) op)"
proof (cases op)
  case (Book_Add k v)
  then show ?thesis
    using assms add_new [of s k v] add_old [of s k v] by (cases "ab s (ky k)") auto
next
  case (Book_Remove k)
  then show ?thesis using assms rm_ok [of s k] by auto
next
  case (Book_Find k)
  then show ?thesis using assms fnd_ok [of s k] by auto
qed

lemma run_refines:
  assumes "inv s" "list_all (op_valid kvalid vvalid) ops"
  shows "\<exists>s'. book_run add rm fnd s ops = Some (Inr (book_spec_run ky (ab s) ops, s')) \<and> inv s'"
  using assms
proof (induction ops arbitrary: s)
  case (Cons op ops)
  obtain s1 where s1: "book_step add rm fnd s op = Some (Inr (fst (book_spec ky (ab s) op), s1))"
    "inv s1" "ab s1 = snd (book_spec ky (ab s) op)"
    using step_refines [of s op] Cons.prems by auto
  obtain s2 where "book_run add rm fnd s1 ops = Some (Inr (book_spec_run ky (ab s1) ops, s2))" "inv s2"
    using Cons.IH [OF s1(2)] Cons.prems by auto
  with s1 show ?case by (simp add: case_prod_beta Let_def)
qed simp

end

text \<open>The table's operations with an address as one argument.\<close>

abbreviation addr_add :: "lookup_table_t option \<Rightarrow> byte list \<times> c_int \<Rightarrow> byte list \<Rightarrow> (c_int \<times> lookup_table_t option) run" where
  "addr_add t a v \<equiv> lookup_table_add True t (Some (fst a)) (snd a) (Some v)"

abbreviation addr_remove :: "lookup_table_t option \<Rightarrow> byte list \<times> c_int \<Rightarrow> (c_int \<times> lookup_table_t option) run" where
  "addr_remove t a \<equiv> lookup_table_remove t (Some (fst a)) (snd a)"

abbreviation addr_find :: "lookup_table_t option \<Rightarrow> byte list \<times> c_int \<Rightarrow> (byte list option \<times> lookup_table_t option) run" where
  "addr_find t a \<equiv> run_bind (lookup_table_find t (Some (fst a)) (snd a))
     (\<lambda>(info, t'). Some (Inr (map_option info_hash info, t')))"

definition opt_inv :: "lookup_table_t option \<Rightarrow> bool" where
  "opt_inv t \<longleftrightarrow> (case t of None \<Rightarrow> False | Some t \<Rightarrow> lt_wf t)"

definition opt_abs :: "lookup_table_t option \<Rightarrow> byte list \<times> c_int \<rightharpoonup> byte list" where
  "opt_abs t = (case t of None \<Rightarrow> Map.empty | Some t \<Rightarrow> lt_abs t)"

definition addr_key :: "byte list \<times> c_int \<Rightarrow> byte list \<times> c_int" where
  "addr_key a = (cstr (fst a), snd a)"

definition addr_valid :: "byte list \<times> c_int \<Rightarrow> bool" where
  "addr_valid a \<longleftrightarrow> length (cstr (fst a)) \<le> 45"

lemma opt_invE: "opt_inv t \<Longrightarrow> (\<And>t'. t = Some t' \<Longrightarrow> lt_wf t' \<Longrightarrow> P) \<Longrightarrow> P"
  by (auto simp: opt_inv_def split: option.splits)

lemma lookup_table_remove_eq:
  assumes "lt_ok t"
  shows "lookup_table_remove (Some t) (Some h) p = Some (Inr (
           if (cstr h, p) \<in> lt_key ` set (lt_head t)
           then (1, Some (t\<lparr>lt_head := remove_first (\<lambda>n. lt_key n = (cstr h, p)) (lt_head t),
                           lt_size := lt_size t - 1\<rparr>))
           else (0, Some t)))"
proof -
  have "(\<exists>n\<in>set (lt_head t). lt_key n = (cstr h, p)) \<longleftrightarrow> (cstr h, p) \<in> lt_key ` set (lt_head t)"
    by (auto simp: image_iff) metis+
  then show ?thesis
    using lt_remove_first_eq [OF assms, of "same_addr h p" "\<lambda>n. lt_key n = (cstr h, p)"]
    by (simp add: lookup_table_remove_def same_addr_key)
qed

lemma lookup_table_find_eq:
  assumes "lt_ok t"
  shows "lookup_table_find (Some t) (Some h) p =
           Some (Inr (find (\<lambda>n. lt_key n = (cstr h, p)) (lt_head t), Some t))"
  using lt_find_first_eq [OF assms, of "same_addr h p" "\<lambda>n. lt_key n = (cstr h, p)"]
  by (simp add: lookup_table_find_def same_addr_key)

interpretation lt: address_book opt_inv opt_abs addr_key addr_valid "\<lambda>h. length h = 20"
  addr_add addr_remove addr_find
proof
  fix s k and v :: "byte list"
  assume "opt_inv s" and k: "addr_valid k" and v: "length v = 20" and none: "opt_abs s (addr_key k) = None"
  from this(1) obtain t where s: "s = Some t" and wf: "lt_wf t" by (rule opt_invE)
  have fresh: "(cstr (fst k), snd k) \<notin> lt_key ` set (lt_head t)"
    using none by (simp add: s opt_abs_def lt_abs_None addr_key_def)
  have key: "lt_key \<lparr>info_host = strncpy (fst k) 45 @ [0], info_port = snd k, info_hash = v\<rparr> = addr_key k"
    using k by (simp add: lt_key_def cstr_strncpy addr_key_def addr_valid_def)
  show "\<exists>s'. addr_add s k v = Some (Inr (1, s')) \<and> opt_inv s' \<and> opt_abs s' = (opt_abs s)(addr_key k \<mapsto> v)"
    using lookup_table_add_eq [of t v True "fst k" "snd k"] lt_wf_add [OF wf v _ fresh] wf v k fresh key
    by (simp add: s lt_wf_def addr_valid_def opt_inv_def opt_abs_def lt_abs_def)
next
  fix s k and v w :: "byte list"
  assume "opt_inv s" and v: "length v = 20" and some: "opt_abs s (addr_key k) = Some w"
  from this(1) obtain t where s: "s = Some t" and wf: "lt_wf t" by (rule opt_invE)
  have "lt_abs t (addr_key k) \<noteq> None" using some by (simp add: s opt_abs_def)
  then show "addr_add s k v = Some (Inr (0, s))"
    using lookup_table_add_eq [of t v True "fst k" "snd k"] wf v
    by (simp add: s lt_wf_def addr_key_def lt_abs_None)
next
  fix s k
  assume "opt_inv s"
  then obtain t where s: "s = Some t" and wf: "lt_wf t" by (rule opt_invE)
  let ?P = "\<lambda>n. lt_key n = addr_key k"
  show "\<exists>s'. addr_remove s k = Some (Inr (case opt_abs s (addr_key k) of None \<Rightarrow> 0 | Some _ \<Rightarrow> 1, s'))
      \<and> opt_inv s' \<and> opt_abs s' = (opt_abs s)(addr_key k := None)"
  proof (cases "lt_abs t (addr_key k)")
    case None
    then show ?thesis
      using wf lookup_table_remove_eq [of t "fst k" "snd k"] lt_abs_None [of t "addr_key k"]
      by (auto simp: s lt_wf_def opt_inv_def opt_abs_def addr_key_def)
  next
    case (Some w)
    then have mem: "addr_key k \<in> lt_key ` set (lt_head t)" using lt_abs_None [of t "addr_key k"] by simp
    then have "\<exists>n \<in> set (lt_head t). ?P n" by (auto simp: image_iff)
    with mem show ?thesis
      using wf Some lookup_table_remove_eq [of t "fst k" "snd k"] lt_wf_remove [OF wf, of ?P]
        map_of_remove_first [of lt_key "lt_head t" info_hash "addr_key k"]
      by (simp add: s lt_wf_def opt_inv_def opt_abs_def lt_abs_def addr_key_def)
  qed
next
  fix s k
  assume "opt_inv s"
  then obtain t where s: "s = Some t" and wf: "lt_wf t" by (rule opt_invE)
  then show "addr_find s k = Some (Inr (opt_abs s (addr_key k), s))"
    using lookup_table_find_eq [of t "fst k" "snd k"] lt_abs_find [of t "addr_key k"]
    by (simp add: lt_wf_def opt_abs_def addr_key_def)
qed

subsection \<open>The flat form, as bytes\<close>

definition node_bytes :: "node_info_t \<Rightarrow> byte list" where
  "node_bytes n = info_host n @ le_bytes 4 (info_port n) @ info_hash n"

lemma node_ok_lengths: "node_ok n \<Longrightarrow> length (info_host n) = 46 \<and> length (info_hash n) = 20"
  unfolding node_ok_def by (auto dest: arg_cong [of _ _ length])

lemma length_node_bytes: "node_ok n \<Longrightarrow> length (node_bytes n) = 70"
  by (simp add: node_bytes_def node_ok_lengths)

lemma length_table_bytes: "list_all node_ok ns \<Longrightarrow> length (concat (map node_bytes ns)) = 70 * length ns"
  by (induction ns) (simp_all add: length_node_bytes)

lemma serialize_nodes_eq:
  "list_all node_ok ns \<Longrightarrow> length wr = offset \<Longrightarrow> 70 * length ns \<le> length rest \<Longrightarrow>
   serialize_nodes (wr @ rest) offset ns =
     Inr (wr @ concat (map node_bytes ns) @ drop (70 * length ns) rest)"
proof (induction ns arbitrary: wr rest offset)
  case (Cons n ns)
  have n: "node_ok n" "length (info_host n) = 46" "length (info_hash n) = 20"
    using Cons.prems node_ok_lengths [of n] by simp_all
  let ?p = "le_bytes 4 (info_port n)"
  have w1: "mem_write (wr @ rest) offset (info_host n) = Inr ((wr @ info_host n) @ drop 46 rest)"
    using Cons.prems n by (simp add: mem_write_extend)
  have w2: "mem_write ((wr @ info_host n) @ drop 46 rest) (offset + 46) ?p =
      Inr ((wr @ info_host n @ ?p) @ drop 50 rest)"
    using Cons.prems n mem_write_extend [of "wr @ info_host n" "offset + 46" ?p "drop 46 rest"] by simp
  have w3: "mem_write ((wr @ info_host n @ ?p) @ drop 50 rest) (offset + 46 + 4) (info_hash n) =
      Inr ((wr @ node_bytes n) @ drop 70 rest)"
    using Cons.prems n mem_write_extend [of "wr @ info_host n @ ?p" "offset + 50" "info_hash n" "drop 50 rest"]
    by (simp add: node_bytes_def add.commute)
  have "serialize_nodes (wr @ rest) offset (n # ns) = serialize_nodes ((wr @ node_bytes n) @ drop 70 rest) (offset + 70) ns"
    using n w1 w2 w3 by (simp add: mem_read_def add.commute [of offset] del: append_assoc)
  also have "\<dots> = Inr ((wr @ node_bytes n) @ concat (map node_bytes ns) @ drop (70 * length ns) (drop 70 rest))"
    using Cons.prems n by (intro Cons.IH) (simp_all add: length_node_bytes)
  finally show ?case by (simp add: add.commute)
qed simp

lemma deserialize_nodes_eq:
  "list_all node_ok ns \<Longrightarrow> length pre = offset \<Longrightarrow>
   deserialize_nodes (\<lambda>_. True) (pre @ concat (map node_bytes ns) @ post) offset i (length ns) t =
     Inr (True, t\<lparr>lt_head := rev ns @ lt_head t, lt_size := lt_size t + word_of_nat (length ns)\<rparr>)"
proof (induction ns arbitrary: pre offset i t)
  case (Cons n ns)
  have n: "node_ok n" "length (info_host n) = 46" "length (info_hash n) = 20"
    using Cons.prems node_ok_lengths [of n] by simp_all
  let ?p = "le_bytes 4 (info_port n)" and ?ts = "concat (map node_bytes ns) @ post"
  have shape: "pre @ concat (map node_bytes (n # ns)) @ post = pre @ info_host n @ ?p @ info_hash n @ ?ts"
    by (simp add: node_bytes_def)
  have r: "mem_read (pre @ info_host n @ ?p @ info_hash n @ ?ts) offset 46 = Inr (info_host n)"
    "mem_read (pre @ info_host n @ ?p @ info_hash n @ ?ts) (offset + 46) 4 = Inr ?p"
    "mem_read (pre @ info_host n @ ?p @ info_hash n @ ?ts) (offset + 46 + 4) 20 = Inr (info_hash n)"
    using Cons.prems n by (simp_all add: mem_read_def)
  have c: "create_node True (info_host n) (info_port n) (info_hash n) = Inr (Some n)"
    using n by (simp add: create_node_def mem_read_def node_ok_def)
  have IH: "deserialize_nodes (\<lambda>_. True) (pre @ info_host n @ ?p @ info_hash n @ ?ts) (offset + 70) (Suc i) (length ns) t' =
      Inr (True, t'\<lparr>lt_head := rev ns @ lt_head t', lt_size := lt_size t' + word_of_nat (length ns)\<rparr>)" for t'
    using Cons.IH [of "pre @ info_host n @ ?p @ info_hash n" "offset + 70" "Suc i" t'] Cons.prems n by simp
  show ?case
    unfolding shape using r c IH by (simp add: le_word_le_bytes add.assoc add.commute)
qed simp

lemma deserialize_nodes_safe:
  "offset + 70 * k \<le> length dat \<Longrightarrow> lt_ok (lt_unlock t) \<Longrightarrow>
   \<exists>complete t'. deserialize_nodes mem_ok dat offset i k t = Inr (complete, t') \<and> lt_ok (lt_unlock t')"
proof (induction k arbitrary: offset i t)
  case (Suc k)
  define host where "host = take 46 (drop offset dat)"
  define port where "port = (le_word (take 4 (drop (offset + 46) dat)) :: c_int)"
  define hash where "hash = take 20 (drop (offset + 50) dat)"
  have hash: "length hash = 20" using Suc.prems by (simp add: hash_def)
  have step: "deserialize_nodes mem_ok dat offset i (Suc k) t =
      fault_bind (create_node (mem_ok i) host port hash) (\<lambda>new_node.
        case new_node of None \<Rightarrow> Inr (False, t)
        | Some n \<Rightarrow> deserialize_nodes mem_ok dat (offset + 70) (Suc i) k
            (t\<lparr>lt_head := n # lt_head t, lt_size := lt_size t + 1\<rparr>))"
    using Suc.prems by (simp add: mem_read_def host_def port_def hash_def add.commute [of offset]
        cong: option.case_cong)
  show ?case
  proof (cases "mem_ok i")
    case True
    obtain n where n: "create_node True host port hash = Inr (Some n)" "node_ok n"
      using create_node_ok [OF hash] by blast
    let ?t = "t\<lparr>lt_head := n # lt_head t, lt_size := lt_size t + 1\<rparr>"
    have "lt_ok (lt_unlock ?t)"
      using Suc.prems n by (simp add: lt_ok_def lt_unlock_def add.commute)
    then show ?thesis
      unfolding step using Suc.IH [of "offset + 70" ?t "Suc i"] Suc.prems n True by simp
  next
    case False
    then show ?thesis unfolding step using Suc.prems by (auto simp: create_node_def)
  qed
qed auto

lemma lt_serialize_roundtrip:
  assumes ok: "lt_ok t" and fits: "8 + 70 * length (lt_head t) < 2 ^ 64"
    and buf: "8 + 70 * length (lt_head t) \<le> length buffer" "length buffer < 2 ^ 64"
  shows "\<exists>b. serialize_body t buffer = Inr b \<and> length b = length buffer \<and>
           lookup_table_deserialize True True (\<lambda>_. True) (Some b) (word_of_nat (length b)) =
             Some (Inr (Some (t\<lparr>lt_head := rev (lt_head t)\<rparr>)))"
proof -
  let ?ns = "lt_head t" and ?c = "le_bytes 8 (lt_size t)"
  have ns: "list_all node_ok ?ns" and size: "lt_size t = word_of_nat (length ?ns)" and free: "\<not> lt_mutex t"
    using ok by (simp_all add: lt_ok_def)
  define rest where "rest = drop (70 * length ?ns) (drop 8 buffer)"
  define b where "b = ?c @ concat (map node_bytes ?ns) @ rest"
  have s: "serialize_body t buffer = Inr b"
    using buf serialize_nodes_eq [OF ns, of ?c 8 "drop 8 buffer"]
    by (simp add: serialize_body_def mem_write_start b_def rest_def)
  have len: "length b = length buffer"
    using buf length_table_bytes [OF ns] by (simp add: b_def rest_def)
  have count: "unat (lt_size t) = length ?ns"
    using fits by (simp add: size unat_of_nat)
  have expected: "8 + lt_size t * 70 = word_of_nat (8 + 70 * length ?ns)"
    by (simp add: size)
  have enough: "\<not> (word_of_nat (length b) :: size_t) < 8 + lt_size t * 70"
    unfolding expected word_less_nat_alt using buf fits len by (simp add: unat_of_nat del: of_nat_add of_nat_mult)
  have enough8: "\<not> (word_of_nat (length b) :: size_t) < 8"
    unfolding word_less_nat_alt using buf len by (simp add: unat_of_nat)
  have "mem_read b 0 8 = Inr ?c" by (simp add: b_def mem_read_def)
  moreover have "t\<lparr>lt_head := rev ?ns\<rparr> = lt_unlock (\<lparr>lt_head = [], lt_mutex = False, lt_size = 0\<rparr>
      \<lparr>lt_mutex := True, lt_head := rev ?ns, lt_size := word_of_nat (length ?ns)\<rparr>)"
    using free size by (simp add: lt_unlock_def)
  ultimately have "lookup_table_deserialize True True (\<lambda>_. True) (Some b) (word_of_nat (length b)) =
      Some (Inr (Some (t\<lparr>lt_head := rev ?ns\<rparr>)))"
    using enough enough8 deserialize_nodes_eq [OF ns, of ?c 8 rest 0] count
    by (simp add: lookup_table_deserialize_def lookup_table_create_def lt_lock_def le_word_le_bytes Let_def
        b_def [symmetric])
  with s len show ?thesis by blast
qed

lemma lt_deserialize_safe:
  assumes "data_size \<le> word_of_nat (length dat)" "length dat < 2 ^ 64"
    and "8 \<le> length dat \<Longrightarrow> 8 + 70 * unat (le_word (take 8 dat) :: size_t) < 2 ^ 64"
  shows "\<exists>r. lookup_table_deserialize mem_table mutex_ok mem_ok (Some dat) data_size = Some (Inr r)
           \<and> (\<forall>t. r = Some t \<longrightarrow> lt_ok t)"
proof (cases "data_size < 8 \<or> \<not> mem_table \<or> \<not> mutex_ok")
  case True
  then show ?thesis by (auto simp: lookup_table_deserialize_def lookup_table_create_def)
next
  case False
  let ?c = "le_word (take 8 dat) :: size_t" and ?t = "\<lparr>lt_head = [], lt_mutex = True, lt_size = 0\<rparr>"
  have size: "unat data_size \<le> length dat"
    using assms(1,2) by (simp add: word_le_nat_alt unat_of_nat)
  then have "8 \<le> length dat"
    using False by (simp add: word_less_nat_alt)
  then have r: "mem_read dat 0 8 = Inr (take 8 dat)" and c: "8 + 70 * unat ?c < 2 ^ 64"
    using assms(3) by (simp_all add: mem_read_def)
  have e: "unat (8 + ?c * 70) = 8 + 70 * unat ?c"
    using c by (simp add: unat_word_ariths)
  show ?thesis
  proof (cases "data_size < 8 + ?c * 70")
    case True
    then show ?thesis
      using False r by (simp add: lookup_table_deserialize_def lookup_table_create_def Let_def
          lookup_table_destroy_def lt_lock_def)
  next
    case F: False
    then have "8 + 70 * unat ?c \<le> length dat"
      using size e by (simp add: word_less_nat_alt)
    then obtain complete t' where d: "deserialize_nodes mem_ok dat 8 0 (unat ?c) ?t = Inr (complete, t')"
      "lt_ok (lt_unlock t')"
      using deserialize_nodes_safe [of 8 "unat ?c" dat ?t mem_ok 0] by (auto simp: lt_ok_def lt_unlock_def)
    then show ?thesis
      using False F r by (auto simp: lookup_table_deserialize_def lookup_table_create_def Let_def
          lookup_table_destroy_def lt_lock_def lt_ok_def)
  qed
qed

subsection \<open>Properties\<close>

text \<open>Inputs for the concrete instances.\<close>

definition host_a :: "byte list" where "host_a = [49, 48, 46, 48, 46, 48, 46, 49]"
definition hash_a :: "byte list" where "hash_a = replicate 20 7"
definition sample_table :: lookup_table_t where
  "sample_table = \<lparr>lt_head = [\<lparr>info_host = strncpy host_a 45 @ [0], info_port = 9000, info_hash = hash_a\<rparr>,
                              \<lparr>info_host = strncpy [97] 45 @ [0], info_port = 1, info_hash = replicate 20 9\<rparr>],
                   lt_mutex = False, lt_size = 2\<rparr>"

lemma sample_table_ok: "lt_wf sample_table"
  by (simp add: sample_table_def lt_wf_def lt_ok_def node_ok_def lt_key_def hash_a_def cstr_strncpy)

text \<open>Any sequence of additions, removals and searches on a new table gives exactly
  the answers of an address book: 1 for a new address, 0 for a known one (whose
  hash is kept), 1 or 0 for a removal, and the stored hash or the null pointer for
  a search. No operation blocks or faults, and the table stays well-formed: no
  address twice, the size field equal to the length of the chain, the mutex free.
  Hosts are strings of at most 45 characters, hashes have 20 bytes.\<close>

lemma lookup_table_is_address_book:
  assumes "list_all (op_valid addr_valid (\<lambda>h. length h = 20)) ops"
  shows "\<exists>t. book_run addr_add addr_remove addr_find (lookup_table_create True True) ops =
             Some (Inr (book_spec_run addr_key Map.empty ops, Some t)) \<and> lt_wf t"
proof -
  obtain t0 where t0: "lookup_table_create True True = Some t0"
    by (simp add: lookup_table_create_def)
  then have "opt_inv (lookup_table_create True True)" "opt_abs (lookup_table_create True True) = Map.empty"
    using lookup_table_create_wf [of t0] by (simp_all add: opt_inv_def opt_abs_def)
  then obtain s where "book_run addr_add addr_remove addr_find (lookup_table_create True True) ops =
      Some (Inr (book_spec_run addr_key Map.empty ops, s))" "opt_inv s"
    using lt.run_refines [of "lookup_table_create True True" ops] assms by auto
  then show ?thesis by (auto elim: opt_invE)
qed

lemma lookup_table_is_address_book_witness:
  "\<exists>t. book_run addr_add addr_remove addr_find (lookup_table_create True True)
       [Book_Add (host_a, 9000) hash_a, Book_Add (host_a, 9000) (replicate 20 1),
        Book_Find (host_a, 9000), Book_Remove (host_a, 9000), Book_Find (host_a, 9000)] =
     Some (Inr ([Code 1, Code 0, Found (Some hash_a), Code 1, Found None], Some t)) \<and> lt_wf t"
  using lookup_table_is_address_book
    [of "[Book_Add (host_a, 9000) hash_a, Book_Add (host_a, 9000) (replicate 20 1),
          Book_Find (host_a, 9000), Book_Remove (host_a, 9000), Book_Find (host_a, 9000)]"]
  by (simp add: addr_valid_def hash_a_def host_a_def cstr_def addr_key_def)

text \<open>\<open>lookup_table_remove_by_hash\<close> unlinks the first node with the hash and no
  other, keeps the order and the invariant, and returns 1; it returns 0 and
  changes nothing when no node has it. \<open>lookup_table_find_by_hash\<close> returns that
  first node.\<close>

lemma lookup_table_by_hash:
  assumes "lt_wf t" and "length hs = 20"
  shows "\<exists>t'. lookup_table_remove_by_hash (Some t) (Some hs) =
               Some (Inr (if hs \<in> info_hash ` set (lt_head t) then 1 else 0, Some t'))
           \<and> lt_wf t' \<and> lt_head t' = remove_first (\<lambda>n. info_hash n = hs) (lt_head t)
           \<and> lookup_table_find_by_hash (Some t) (Some hs) =
               Some (Inr (find (\<lambda>n. info_hash n = hs) (lt_head t), Some t))"
proof -
  have ok: "lt_ok t" using assms(1) by (simp add: lt_wf_def)
  note test = hash_test [OF ok assms(2)]
  have f: "lookup_table_find_by_hash (Some t) (Some hs) =
      Some (Inr (find (\<lambda>n. info_hash n = hs) (lt_head t), Some t))"
    using lt_find_first_eq [OF ok test] by (simp add: lookup_table_find_by_hash_def)
  show ?thesis
  proof (cases "\<exists>n \<in> set (lt_head t). info_hash n = hs")
    case True
    then have "hs \<in> info_hash ` set (lt_head t)" by auto
    with True f show ?thesis
      using lt_remove_first_eq [OF ok test] lt_wf_remove [OF assms(1) True]
      by (simp add: lookup_table_remove_by_hash_def)
  next
    case False
    then have "hs \<notin> info_hash ` set (lt_head t)" "remove_first (\<lambda>n. info_hash n = hs) (lt_head t) = lt_head t"
      by (auto simp: remove_first_def dropWhile_eq_Nil_conv [THEN iffD2] takeWhile_eq_all_conv [THEN iffD2])
    with False f assms(1) show ?thesis
      using lt_remove_first_eq [OF ok test] by (simp add: lookup_table_remove_by_hash_def)
  qed
qed

lemma lookup_table_by_hash_witness:
  "\<exists>t'. lookup_table_remove_by_hash (Some sample_table) (Some hash_a) = Some (Inr (1, Some t'))
     \<and> lt_wf t' \<and> lt_head t' = [\<lparr>info_host = strncpy [97] 45 @ [0], info_port = 1, info_hash = replicate 20 9\<rparr>]"
  using lookup_table_by_hash [OF sample_table_ok, of hash_a]
  by (auto simp: sample_table_def hash_a_def)

text \<open>\<open>lookup_table_serialize\<close> never returns on a table and a buffer: it takes the
  mutex and calls \<open>lookup_table_serialized_size\<close>, which waits for the same mutex.\<close>

lemma lookup_table_serialize_deadlocks:
  "lookup_table_serialize (Some t) (Some buffer) buffer_size = None"
  by (simp add: lookup_table_serialize_def lookup_table_serialized_size_def lt_lock_def)

text \<open>C31. What \<open>lookup_table_serialize\<close> writes behind its size test is a faithful copy of
  the table: the writes stay inside a buffer of the required size, and
  \<open>lookup_table_deserialize\<close> rebuilds the table from them, with the chain in
  reverse order.\<close>

theorem lookup_table_roundtrip:
  assumes "lt_ok t" and "8 + 70 * length (lt_head t) < 2 ^ 64"
    and "8 + 70 * length (lt_head t) \<le> length buffer" and "length buffer < 2 ^ 64"
  shows "\<exists>b. serialize_body t buffer = Inr b \<and> length b = length buffer \<and>
           lookup_table_deserialize True True (\<lambda>_. True) (Some b) (word_of_nat (length b)) =
             Some (Inr (Some (t\<lparr>lt_head := rev (lt_head t)\<rparr>)))"
  by (rule lt_serialize_roundtrip [OF assms])

theorem lookup_table_roundtrip_witness:
  "\<exists>b. serialize_body sample_table (replicate 148 0) = Inr b \<and> length b = 148 \<and>
     lookup_table_deserialize True True (\<lambda>_. True) (Some b) 148 =
       Some (Inr (Some (sample_table\<lparr>lt_head := rev (lt_head sample_table)\<rparr>)))"
proof -
  have "lt_ok sample_table" using sample_table_ok by (simp add: lt_wf_def)
  moreover have "length (lt_head sample_table) = 2" by (simp add: sample_table_def)
  ultimately show ?thesis
    using lookup_table_roundtrip [of sample_table "replicate 148 0"] by auto
qed

text \<open>C32. On a buffer of the size announced, \<open>lookup_table_deserialize\<close> returns without
  reading outside the buffer, whatever the bytes are and whichever allocations
  fail, and any table it returns satisfies the invariant, provided that the size
  computed from the node count of the data does not wrap around.\<close>

theorem lookup_table_deserialize_safe:
  assumes "data_size \<le> word_of_nat (length dat)" and "length dat < 2 ^ 64"
    and "8 + 70 * unat (le_word (take 8 dat) :: size_t) < 2 ^ 64"
  shows "\<exists>r. lookup_table_deserialize mem_table mutex_ok mem_ok (Some dat) data_size = Some (Inr r)
           \<and> (\<forall>t. r = Some t \<longrightarrow> lt_ok t)"
  by (rule lt_deserialize_safe [OF assms])

lemma le_word_zeros: "le_word (replicate k 0) = 0"
  by (induction k) simp_all

theorem lookup_table_deserialize_safe_witness:
  "\<exists>r. lookup_table_deserialize True True (\<lambda>i. i < 1) (Some (2 # replicate 150 0)) 151 = Some (Inr r)
     \<and> (case r of None \<Rightarrow> True | Some t \<Rightarrow> lt_ok t)"
proof -
  have "take 8 (2 # replicate 150 0) = (2 :: byte) # replicate 7 0" by simp
  then have "(le_word (take 8 (2 # replicate 150 0)) :: size_t) = 2" by (simp add: le_word_zeros)
  then show ?thesis
    using lookup_table_deserialize_safe [of 151 "2 # replicate 150 0" True True "\<lambda>i. i < 1"]
    by (auto split: option.splits)
qed

text \<open>C38. The size test of \<open>lookup_table_deserialize\<close> computes in 64 bits and wraps
  around: a node count of \<open>2 ^ 63\<close> asks for 8 bytes only, and the loop then reads
  outside any buffer shorter than one node.\<close>

theorem lookup_table_deserialize_overflow:
  assumes "8 \<le> length dat" and "length dat < 78" and "take 8 dat = le_bytes 8 (2 ^ 63 :: size_t)"
  shows "lookup_table_deserialize True True mem_ok (Some dat) (word_of_nat (length dat)) =
           Some (Inl Out_Of_Bounds)"
proof -
  have "deserialize_nodes mem_ok dat 8 0 k t = Inl Out_Of_Bounds" if "0 < k" for k t
    using that assms(1,2) by (cases k) (auto simp: mem_read_def create_node_def)
  moreover have "\<not> (word_of_nat (length dat) :: size_t) < 8"
    using assms by (simp add: word_less_nat_alt unat_of_nat)
  moreover define c where "c = (2 ^ 63 :: size_t)"
  have "8 + c * 70 = 8" "0 < unat c" "le_word (take 8 dat) = c"
    by (simp_all add: assms(3) le_word_le_bytes c_def)
  ultimately show ?thesis
    using assms(1) by (simp add: lookup_table_deserialize_def lookup_table_create_def mem_read_def
        lt_lock_def)
qed

theorem lookup_table_deserialize_overflow_witness:
  "lookup_table_deserialize True True (\<lambda>_. True) (Some [0, 0, 0, 0, 0, 0, 0, 0x80]) 8 = Some (Inl Out_Of_Bounds)"
proof -
  have "le_bytes 8 (2 ^ 63 :: size_t) = [0, 0, 0, 0, 0, 0, 0, 0x80]" by code_simp
  then show ?thesis
    using lookup_table_deserialize_overflow [of "[0, 0, 0, 0, 0, 0, 0, 0x80]" "\<lambda>_. True"] by simp
qed

text \<open>A host of more than 45 characters is stored cut, while the duplicate test
  compares the whole of it: adding it twice stores two equal nodes, and a search
  for it finds neither.\<close>

lemma lookup_table_long_host:
  assumes "lt_ok t" and "45 < length (cstr host)" and "length hash = 20"
  shows "\<exists>t1 t2 n. lookup_table_add True (Some t) (Some host) port (Some hash) = Some (Inr (1, Some t1))
           \<and> lookup_table_add True (Some t1) (Some host) port (Some hash) = Some (Inr (1, Some t2))
           \<and> lt_head t2 = n # n # lt_head t
           \<and> lookup_table_find (Some t2) (Some host) port = Some (Inr (None, Some t2))"
proof -
  let ?n = "\<lparr>info_host = strncpy host 45 @ [0], info_port = port, info_hash = hash\<rparr>"
  have short: "length (fst (lt_key n)) \<le> 45" if "node_ok n" for n
  proof -
    have "cstr (info_host n) = take 45 (cstr (info_host n))"
      using that cstr_strncpy [of "info_host n" 45] unfolding node_ok_def by metis
    then show ?thesis by (metis fst_conv length_take lt_key_def min.cobounded2 min.commute)
  qed
  have no: "(cstr host, port) \<notin> lt_key ` set (lt_head u)" if "lt_ok u" for u
  proof
    assume "(cstr host, port) \<in> lt_key ` set (lt_head u)"
    then obtain n where "n \<in> set (lt_head u)" "lt_key n = (cstr host, port)" by auto
    with short [of n] that assms(2) show False by (auto simp: lt_ok_def list_all_iff)
  qed
  let ?t1 = "t\<lparr>lt_head := ?n # lt_head t, lt_size := lt_size t + 1\<rparr>"
  let ?t2 = "t\<lparr>lt_head := ?n # ?n # lt_head t, lt_size := lt_size t + 1 + 1\<rparr>"
  have t1: "lt_ok ?t1" and t2: "lt_ok ?t2"
    using assms by (simp_all add: lt_ok_def node_ok_def add.commute)
  have "find (\<lambda>n. lt_key n = (cstr host, port)) (lt_head ?t2) = None"
    using no [OF t2] unfolding find_None_iff by (metis image_eqI)
  then show ?thesis
    using lookup_table_add_eq [OF assms(1,3), of True host port] no [OF assms(1)]
      lookup_table_add_eq [OF t1 assms(3), of True host port] no [OF t1]
      lookup_table_find_eq [OF t2, of host port] by simp
qed

lemma lookup_table_long_host_witness:
  "\<exists>t1 t2 n. lookup_table_add True (lookup_table_create True True) (Some (replicate 46 97)) 80 (Some hash_a) =
       Some (Inr (1, Some t1))
     \<and> lookup_table_add True (Some t1) (Some (replicate 46 97)) 80 (Some hash_a) = Some (Inr (1, Some t2))
     \<and> lt_head t2 = [n, n]
     \<and> lookup_table_find (Some t2) (Some (replicate 46 97)) 80 = Some (Inr (None, Some t2))"
proof -
  let ?t = "\<lparr>lt_head = [], lt_mutex = False, lt_size = 0\<rparr>"
  have "lt_ok ?t" "length (cstr (replicate 46 97)) = 46" "length hash_a = 20"
    by (simp_all add: lt_ok_def cstr_id hash_a_def)
  then show ?thesis
    using lookup_table_long_host [of ?t "replicate 46 97" hash_a 80]
    by (simp add: lookup_table_create_def)
qed

text \<open>\<open>lookup_table_size\<close> is the number of addresses in the book, and
  \<open>lookup_table_serialized_size\<close> the length of its flat form; both release the
  mutex.\<close>

lemma lookup_table_sizes:
  assumes "lt_wf t"
  shows "lookup_table_size (Some t) = Some (Inr (word_of_nat (card (dom (lt_abs t))), Some t))
       \<and> lookup_table_serialized_size (Some t) =
           Some (Inr (word_of_nat (8 + length (concat (map node_bytes (lt_head t)))), Some t))"
proof -
  have ok: "lt_ok t" and d: "distinct (map lt_key (lt_head t))" using assms by (simp_all add: lt_wf_def)
  have "dom (lt_abs t) = set (map lt_key (lt_head t))"
    by (simp add: lt_abs_def dom_map_of_conv_image_fst image_image)
  then have "card (dom (lt_abs t)) = length (lt_head t)"
    using distinct_card [OF d] by simp
  moreover have "lt_size t = word_of_nat (length (lt_head t))"
    "length (concat (map node_bytes (lt_head t))) = 70 * length (lt_head t)"
    using ok length_table_bytes by (simp_all add: lt_ok_def)
  ultimately show ?thesis
    using lt_unlock_locked [OF ok]
    by (simp add: lookup_table_size_def lookup_table_serialized_size_def lt_lock_ok [OF ok])
qed

lemma lookup_table_sizes_witness:
  "lookup_table_size (Some sample_table) = Some (Inr (word_of_nat (card (dom (lt_abs sample_table))), Some sample_table))
   \<and> lookup_table_serialized_size (Some sample_table) = Some (Inr (148, Some sample_table))"
proof -
  have "length (concat (map node_bytes (lt_head sample_table))) = 140"
    by (simp add: sample_table_def node_bytes_def hash_a_def)
  then show ?thesis
    using lookup_table_sizes [OF sample_table_ok] by simp
qed

end
