(* ===== verification/Runtime.thy ===== *)
theory Runtime
  imports Packet
begin

text \<open>
  The small services of the process: the node state and the signal handler
  (\<open>src/src/core/global.c\<close>, \<open>signal.c\<close>), the time stamp (\<open>src/src/helpers/time.c\<close>) and
  the logger (\<open>src/src/helpers/default_logger.c\<close>). The broken-down time and the text
  that \<open>printf\<close> makes of a format are arguments.
\<close>

subsection \<open>Node state and signals\<close>

datatype node_state = NODEST_RUNNING | NODEST_STOPPING

primrec state_code :: "node_state \<Rightarrow> nat" where
  "state_code NODEST_RUNNING = 1"
| "state_code NODEST_STOPPING = 2"

instantiation node_state :: linorder
begin

definition less_eq_node_state :: "node_state \<Rightarrow> node_state \<Rightarrow> bool" where
  "less_eq_node_state a b \<longleftrightarrow> state_code a \<le> state_code b"

definition less_node_state :: "node_state \<Rightarrow> node_state \<Rightarrow> bool" where
  "less_node_state a b \<longleftrightarrow> state_code a < state_code b"

instance
proof
  fix x y :: node_state
  show "x \<le> y \<Longrightarrow> y \<le> x \<Longrightarrow> x = y"
    by (cases x; cases y) (simp_all add: less_eq_node_state_def)
qed (auto simp: less_eq_node_state_def less_node_state_def)

end

definition shutdown_text :: string where
  "shutdown_text = [CHR 0x0A] @ ''Gracefully shutting down node...'' @ [CHR 0x0A]"

text \<open>The new state, what is written, and the exit status when the handler exits.\<close>

definition signal_handler :: "node_state \<Rightarrow> int \<Rightarrow> node_state \<times> string \<times> int option" where
  "signal_handler global_state sig =
     (if global_state = NODEST_STOPPING then (global_state, [], None)
      else (NODEST_STOPPING, shutdown_text, Some sig))"

text \<open>Signals that arrive one after the other; the later ones interrupt the \<open>sleep\<close> of the
  first handler. The exit status is that of the handler that exits.\<close>

fun run_signals :: "node_state \<Rightarrow> int list \<Rightarrow> node_state \<times> string \<times> int option" where
  "run_signals st [] = (st, [], None)"
| "run_signals st (sig # sigs) =
     (let (st1, out1, exit1) = signal_handler st sig; (st2, out2, exit2) = run_signals st1 sigs
      in (st2, out1 @ out2, case exit1 of Some c \<Rightarrow> Some c | None \<Rightarrow> exit2))"

lemma run_signals_stopping: "run_signals NODEST_STOPPING sigs = (NODEST_STOPPING, [], None)"
  by (induction sigs) (simp_all add: signal_handler_def)

subsection \<open>Time and log\<close>

definition fmt_02d :: "int \<Rightarrow> string" where
  "fmt_02d i =
     (if i < 0 then ''-'' @ fmt_u (nat (- i))
      else if i < 10 then ''0'' @ fmt_u (nat i) else fmt_u (nat i))"

text \<open>The nine bytes of the static buffer.\<close>

definition time_now_string :: "(nat \<Rightarrow> char) \<Rightarrow> int \<Rightarrow> int \<Rightarrow> int \<Rightarrow> string faulty" where
  "time_now_string g hour minute sec =
     mem_write (uninit g 9) 0 (fmt_02d hour @ '':'' @ fmt_02d minute @ '':'' @ fmt_02d sec @ [NUL])"

text \<open>What the logger prints. \<open>rendered\<close> is the text of the format and its arguments,
  \<open>None\<close> when \<open>vsnprintf\<close> reports an error; \<open>now\<close> is the time stamp.\<close>

definition default_logger :: "(nat \<Rightarrow> char) \<Rightarrow> bool \<Rightarrow> string \<Rightarrow> string option \<Rightarrow> string faulty" where
  "default_logger g mem_ok now rendered =
     (case rendered of None \<Rightarrow> Inr []
      | Some txt \<Rightarrow>
          if \<not> mem_ok then Inr []
          else fault_bind (mem_write (uninit g (length txt + 1)) 0 (txt @ [NUL])) (\<lambda>content.
               Inr (''(LOG) ['' @ c_text now @ ''] '' @ c_text content @ [CHR 0x0A])))"

lemma length_fmt_02d: "0 \<le> i \<Longrightarrow> i < 100 \<Longrightarrow> length (fmt_02d i) = 2"
proof -
  assume i: "0 \<le> i" "i < 100"
  have two: "length (fmt_u n) = 2" if "10 \<le> n" "n < 100" for n
    using length_fmt_u_le [of n 2] length_fmt_u_ge2 [of n] that by simp
  have one: "length (fmt_u n) = 1" if "n < 10" for n
    using that by (simp add: fmt_u.simps [of n])
  show ?thesis
    using i one [of "nat i"] two [of "nat i"] by (simp add: fmt_02d_def)
qed

subsection \<open>Properties\<close>

text \<open>The first signal stops the node: however many signals follow it, the state goes
  from running to stopping and never back, the message is printed once, and the
  process exits with the number of the first signal.\<close>

lemma first_signal_stops:
  "run_signals NODEST_RUNNING (sig # sigs) = (NODEST_STOPPING, shutdown_text, Some sig)
   \<and> st \<le> fst (run_signals st sigs)"
proof
  show "run_signals NODEST_RUNNING (sig # sigs) = (NODEST_STOPPING, shutdown_text, Some sig)"
    by (simp add: signal_handler_def run_signals_stopping)
  show "st \<le> fst (run_signals st sigs)"
    by (cases st; cases sigs)
      (simp_all add: run_signals_stopping signal_handler_def less_eq_node_state_def)
qed

text \<open>The time stamp fills its nine-byte buffer exactly, for every time of day, leap
  seconds included.\<close>

lemma time_fits:
  assumes "0 \<le> hour" "hour < 24" "0 \<le> minute" "minute < 60" "0 \<le> sec" "sec \<le> 60"
  shows "time_now_string g hour minute sec =
           Inr (fmt_02d hour @ '':'' @ fmt_02d minute @ '':'' @ fmt_02d sec @ [NUL])
       \<and> length (fmt_02d hour @ '':'' @ fmt_02d minute @ '':'' @ fmt_02d sec @ [NUL]) = 9"
proof -
  have "length (fmt_02d hour @ '':'' @ fmt_02d minute @ '':'' @ fmt_02d sec @ [NUL]) = 9"
    using assms length_fmt_02d [of hour] length_fmt_02d [of minute] length_fmt_02d [of sec] by simp
  then show ?thesis
    unfolding time_now_string_def by (simp add: mem_write_def)
qed

lemma time_fits_witness: "time_now_string (\<lambda>_. NUL) 7 5 60 = Inr (''07:05:60'' @ [NUL])"
proof -
  have "fmt_02d 7 = ''07''" "fmt_02d 5 = ''05''" "fmt_02d 60 = ''60''" by code_simp+
  then show ?thesis using time_fits [of 7 5 60 "\<lambda>_. NUL"] by simp
qed

text \<open>The logger never writes outside its buffer and prints the whole text of the
  message, with the time stamp.\<close>

lemma logger_prints:
  assumes "NUL \<notin> set txt"
  shows "default_logger g True now (Some txt) = Inr (''(LOG) ['' @ c_text now @ ''] '' @ txt @ [CHR 0x0A])"
  using assms by (simp add: default_logger_def mem_write_def)

lemma logger_prints_witness:
  "default_logger (\<lambda>_. NUL) True (''07:05:60'' @ [NUL]) (Some ''UDP Server is running'') =
     Inr (''(LOG) [07:05:60] UDP Server is running'' @ [CHR 0x0A])"
  using logger_prints [of "''UDP Server is running''" "\<lambda>_. NUL" "''07:05:60'' @ [NUL]"] by (simp add: c_text_def)

end
