(* ===== verification/Process.thy ===== *)
theory Process
  imports Udp_Server Runtime "HOL-Library.Sublist"
begin

text \<open>
  The running process: the threads of the server (\<open>src/src/transfer/udp.c\<close>) and the signals
  that end it (\<open>src/src/core/signal.c\<close>, installed by \<open>src/src/main.c\<close>). The server loop never
  returns, so the statements of \<open>main\<close> behind \<open>node_start\<close> are not reached and a signal is the
  only way to stop the node.

  A signal interrupts one thread, which runs \<open>signal_handler\<close> statement by statement and does
  nothing else until the handler returns; the other threads go on. While a handler runs for a
  signal, that signal is blocked in its thread. A signal that arrives on a thread whose handler
  is running interrupts the handler.

  The handler calls \<open>write\<close> and \<open>sleep\<close>, which POSIX counts among the async-signal-safe functions, and \<open>exit\<close>, which
  it does not: calling it from a handler that has interrupted a function that is not async-signal-safe is
  undefined, and so is a second call of \<open>exit\<close> during the first one. Both are outcomes of the model. Entering
  \<open>exit\<close> and the end of the process are two steps, between which the other threads go on.
\<close>

subsection \<open>The handler, statement by statement\<close>

datatype sig_pc =
    G_Test int       \<comment> \<open>before the test of \<open>global_state\<close>\<close>
  | G_Set int        \<comment> \<open>before the assignment\<close>
  | G_Newline int    \<comment> \<open>before the first \<open>write\<close>\<close>
  | G_Message int    \<comment> \<open>before the second \<open>write\<close>\<close>
  | G_Sleep int      \<comment> \<open>in \<open>sleep\<close>\<close>
  | G_Exit int       \<comment> \<open>before \<open>exit\<close>\<close>
  | G_Exiting int    \<comment> \<open>in \<open>exit\<close>\<close>

datatype sig_next = Continue sig_pc | Return | Exit_With int

definition shutdown_message :: string where
  "shutdown_message = ''Gracefully shutting down node...'' @ [CHR 0x0A]"

fun sig_step :: "node_state \<Rightarrow> sig_pc \<Rightarrow> node_state \<times> string \<times> sig_next" where
  "sig_step st (G_Test sig) = (if st = NODEST_STOPPING then (st, [], Return) else (st, [], Continue (G_Set sig)))"
| "sig_step st (G_Set sig) = (NODEST_STOPPING, [], Continue (G_Newline sig))"
| "sig_step st (G_Newline sig) = (st, [CHR 0x0A], Continue (G_Message sig))"
| "sig_step st (G_Message sig) = (st, shutdown_message, Continue (G_Sleep sig))"
| "sig_step st (G_Sleep sig) = (st, [], Continue (G_Exit sig))"
| "sig_step st (G_Exit sig) = (st, [], Continue (G_Exiting sig))"
| "sig_step st (G_Exiting sig) = (st, [], Exit_With sig)"

primrec sig_number :: "sig_pc \<Rightarrow> int" where
  "sig_number (G_Test sig) = sig"
| "sig_number (G_Set sig) = sig"
| "sig_number (G_Newline sig) = sig"
| "sig_number (G_Message sig) = sig"
| "sig_number (G_Sleep sig) = sig"
| "sig_number (G_Exit sig) = sig"
| "sig_number (G_Exiting sig) = sig"

primrec sig_rank :: "sig_pc \<Rightarrow> nat" where
  "sig_rank (G_Test sig) = 7"
| "sig_rank (G_Set sig) = 6"
| "sig_rank (G_Newline sig) = 5"
| "sig_rank (G_Message sig) = 4"
| "sig_rank (G_Sleep sig) = 3"
| "sig_rank (G_Exit sig) = 2"
| "sig_rank (G_Exiting sig) = 1"

lemma sig_step_rank: "sig_step st pc = (st', out, Continue pc') \<Longrightarrow> sig_rank pc' < sig_rank pc"
  by (cases pc) (auto split: if_splits)

text \<open>Without interruption these are the statements of \<open>Runtime.signal_handler\<close>.\<close>

function sig_run :: "node_state \<Rightarrow> sig_pc \<Rightarrow> node_state \<times> string \<times> int option" where
  "sig_run st pc =
     (case sig_step st pc of
        (st', out, Return) \<Rightarrow> (st', out, None)
      | (st', out, Exit_With c) \<Rightarrow> (st', out, Some c)
      | (st', out, Continue pc') \<Rightarrow> let (st2, out2, e) = sig_run st' pc' in (st2, out @ out2, e))"
  by pat_completeness auto
termination by (relation "measure (\<lambda>(st, pc). sig_rank pc)") (auto intro: sig_step_rank sym)

lemma sig_run_is_signal_handler: "sig_run st (G_Test sig) = signal_handler st sig"
  by (simp add: signal_handler_def shutdown_text_def shutdown_message_def sig_run.simps [of _ "G_Test sig"]
      sig_run.simps [of _ "G_Set sig"] sig_run.simps [of _ "G_Newline sig"] sig_run.simps [of _ "G_Message sig"]
      sig_run.simps [of _ "G_Sleep sig"] sig_run.simps [of _ "G_Exit sig"] sig_run.simps [of _ "G_Exiting sig"] del: sig_run.simps)

subsection \<open>The process\<close>

text \<open>\<open>SIGINT\<close>, \<open>SIGQUIT\<close>, \<open>SIGTERM\<close>\<close>

definition caught :: "int set" where
  "caught = {2, 3, 15}"

record 'a process =
  pr_server :: "'a server_state"
  pr_state :: node_state
  pr_handlers :: "(thread \<times> sig_pc) list"    \<comment> \<open>the handlers that run, the newest first\<close>
  pr_out :: string
  pr_exit :: "int option"
  pr_signals :: "(thread \<times> int) list"        \<comment> \<open>the signals delivered so far\<close>
  pr_unsafe :: "thread set"    \<comment> \<open>the threads whose handlers have interrupted a function that is not async-signal-safe\<close>
  pr_undefined :: bool         \<comment> \<open>the process has come to undefined behaviour\<close>

definition process_start :: "'a server_state \<Rightarrow> 'a process" where
  "process_start s = \<lparr>pr_server = s, pr_state = NODEST_RUNNING, pr_handlers = [], pr_out = [],
                      pr_exit = None, pr_signals = [], pr_unsafe = {}, pr_undefined = False\<rparr>"

abbreviation interrupted :: "'a process \<Rightarrow> thread set" where
  "interrupted p \<equiv> fst ` set (pr_handlers p)"

abbreviation alive :: "'a process \<Rightarrow> bool" where
  "alive p \<equiv> pr_exit p = None \<and> s_crash (pr_server p) = None \<and> \<not> pr_undefined p"

text \<open>A thread is in \<open>exit\<close>.\<close>

definition exiting :: "(thread \<times> sig_pc) list \<Rightarrow> bool" where
  "exiting hs \<longleftrightarrow> (\<exists>h \<in> set hs. \<exists>sig. snd h = G_Exiting sig)"

lemma exiting_simps [simp]:
  "\<not> exiting []"
  "exiting ((t, pc) # hs) \<longleftrightarrow> (\<exists>sig. pc = G_Exiting sig) \<or> exiting hs"
  "exiting (hs @ hs') \<longleftrightarrow> exiting hs \<or> exiting hs'"
  by (auto simp: exiting_def)

text \<open>The call of \<open>exit\<close> that thread \<open>t\<close> is about to make is undefined.\<close>

definition bad_exit :: "'a process \<Rightarrow> thread \<Rightarrow> sig_pc \<Rightarrow> bool" where
  "bad_exit p t pc \<longleftrightarrow> (\<exists>sig. pc = G_Exit sig) \<and> (t \<in> pr_unsafe p \<or> exiting (pr_handlers p))"

text \<open>A worker that waits for a request is in \<open>pthread_cond_wait\<close>, which is not async-signal-safe. Elsewhere a
  thread may be inside such a function or not: \<open>u\<close> says which.\<close>

definition in_wait :: "'a server_state \<Rightarrow> thread \<Rightarrow> bool" where
  "in_wait s t \<longleftrightarrow> (\<exists>i < length (s_workers s). t = Worker i \<and> s_workers s ! i = W_Wait)"

definition unsafe_after :: "'a process \<Rightarrow> thread \<Rightarrow> bool \<Rightarrow> thread set" where
  "unsafe_after p t u =
     (if t \<in> interrupted p then pr_unsafe p else if u then insert t (pr_unsafe p) else pr_unsafe p - {t})"

inductive handler_step :: "'a process \<Rightarrow> 'a process \<Rightarrow> bool" where
  continue: "alive p \<Longrightarrow> pr_handlers p = newer @ (t, pc) # older \<Longrightarrow> t \<notin> fst ` set newer \<Longrightarrow>
    \<not> bad_exit p t pc \<Longrightarrow> sig_step (pr_state p) pc = (st, out, Continue pc') \<Longrightarrow>
    handler_step p (p\<lparr>pr_state := st, pr_out := pr_out p @ out, pr_handlers := newer @ (t, pc') # older\<rparr>)"
| undefined: "alive p \<Longrightarrow> pr_handlers p = newer @ (t, pc) # older \<Longrightarrow> t \<notin> fst ` set newer \<Longrightarrow>
    bad_exit p t pc \<Longrightarrow> handler_step p (p\<lparr>pr_undefined := True\<rparr>)"
| return: "alive p \<Longrightarrow> pr_handlers p = newer @ (t, pc) # older \<Longrightarrow> t \<notin> fst ` set newer \<Longrightarrow>
    sig_step (pr_state p) pc = (st, out, Return) \<Longrightarrow>
    handler_step p (p\<lparr>pr_state := st, pr_out := pr_out p @ out, pr_handlers := newer @ older\<rparr>)"
| exit: "alive p \<Longrightarrow> pr_handlers p = newer @ (t, pc) # older \<Longrightarrow> t \<notin> fst ` set newer \<Longrightarrow>
    sig_step (pr_state p) pc = (st, out, Exit_With c) \<Longrightarrow>
    handler_step p (p\<lparr>pr_state := st, pr_out := pr_out p @ out, pr_exit := Some c\<rparr>)"

inductive process_step :: "handler option \<Rightarrow> 'a process \<Rightarrow> 'a process \<Rightarrow> bool" for H where
  server: "alive p \<Longrightarrow> inner_step H (pr_server p) s \<Longrightarrow> moved H t (pr_server p) s \<Longrightarrow> t \<notin> interrupted p \<Longrightarrow>
    process_step H p (p\<lparr>pr_server := s\<rparr>)"
| outside: "alive p \<Longrightarrow> outer_step (pr_server p) s \<Longrightarrow>
    s_recv s = s_recv (pr_server p) \<or> Receiver \<notin> interrupted p \<Longrightarrow> process_step H p (p\<lparr>pr_server := s\<rparr>)"
| deliver: "alive p \<Longrightarrow> sig \<in> caught \<Longrightarrow> t = Receiver \<or> (\<exists>i < WORKERS. t = Worker i) \<Longrightarrow>
    (t, sig) \<notin> apsnd sig_number ` set (pr_handlers p) \<Longrightarrow> in_wait (pr_server p) t \<longrightarrow> u \<Longrightarrow>
    process_step H p (p\<lparr>pr_handlers := (t, G_Test sig) # pr_handlers p, pr_signals := pr_signals p @ [(t, sig)],
      pr_unsafe := unsafe_after p t u\<rparr>)"
| handler: "handler_step p p' \<Longrightarrow> process_step H p p'"

inductive process_reach :: "handler option \<Rightarrow> 'a process \<Rightarrow> bool" for H where
  start: "server_reach H s \<Longrightarrow> process_reach H (process_start s)"
| step: "process_reach H p \<Longrightarrow> process_step H p p' \<Longrightarrow> process_reach H p'"

inductive_cases handler_stepE: "handler_step p p'"

declare sig_run.simps [simp del]

lemma handler_keeps:
  "handler_step p p' \<Longrightarrow> pr_server p' = pr_server p \<and> pr_signals p' = pr_signals p \<and> pr_unsafe p' = pr_unsafe p"
  by (erule handler_stepE) simp_all

subsection \<open>Signals are not lost\<close>

text \<open>A handler behind the assignment ends the process; one before it still has to test.\<close>

abbreviation committed :: "sig_pc \<Rightarrow> bool" where
  "committed pc \<equiv> sig_rank pc \<le> 5"

definition sig_inv :: "node_state \<Rightarrow> (thread \<times> sig_pc) list \<Rightarrow> int option \<Rightarrow> (thread \<times> int) list \<Rightarrow> bool" where
  "sig_inv st hs ex sigs \<longleftrightarrow> snd ` set sigs \<subseteq> caught \<and> (sigs = [] \<longrightarrow> st = NODEST_RUNNING) \<and> apsnd sig_number ` set hs \<subseteq> set sigs
     \<and> (\<forall>c. ex = Some c \<longrightarrow> c \<in> snd ` set sigs \<and> st = NODEST_STOPPING)
     \<and> ((\<exists>h \<in> set hs. committed (snd h)) \<longrightarrow> st = NODEST_STOPPING)
     \<and> (ex = None \<and> sigs \<noteq> [] \<longrightarrow> hs \<noteq> [] \<and> (st = NODEST_STOPPING \<longrightarrow> (\<exists>h \<in> set hs. committed (snd h))))"

abbreviation proc_sig_inv :: "'a process \<Rightarrow> bool" where
  "proc_sig_inv p \<equiv> sig_inv (pr_state p) (pr_handlers p) (pr_exit p) (pr_signals p)"

lemma sig_step_cases:
  assumes "sig_step st pc = (st', out, nx)"
  obtains "nx = Return" "st = NODEST_STOPPING" "st' = st" "\<not> committed pc" "out = []"
  | pc' where "nx = Continue pc'" "sig_number pc' = sig_number pc" "sig_rank pc = Suc (sig_rank pc')"
      "st' = (if committed pc' \<and> \<not> committed pc then NODEST_STOPPING else st)"
  | "nx = Exit_With (sig_number pc)" "st' = st" "committed pc" "out = []"
  using assms by (cases pc) (auto split: if_splits)

lemma sig_inv_step:
  assumes inv: "sig_inv st (newer @ (t, pc) # older) None sigs" and step: "sig_step st pc = (st', out, nx)"
  shows "case nx of
           Continue pc' \<Rightarrow> sig_inv st' (newer @ (t, pc') # older) None sigs
         | Return \<Rightarrow> sig_inv st' (newer @ older) None sigs
         | Exit_With c \<Rightarrow> sig_inv st' (newer @ (t, pc) # older) (Some c) sigs"
  using step
proof (cases rule: sig_step_cases)
  case 1
  with inv show ?thesis by (force simp: sig_inv_def)
next
  case (2 pc')
  with inv show ?thesis by (auto simp: sig_inv_def)
next
  case 3
  with inv show ?thesis by (force simp: sig_inv_def)
qed

lemma sig_inv_handler: "handler_step p p' \<Longrightarrow> proc_sig_inv p \<Longrightarrow> proc_sig_inv p'"
proof (induction rule: handler_step.induct)
  case (continue p newer t pc older st out pc')
  then show ?case using sig_inv_step [of "pr_state p" newer t pc older "pr_signals p" st out] by simp
next
  case (return p newer t pc older st out)
  then show ?case using sig_inv_step [of "pr_state p" newer t pc older "pr_signals p" st out] by simp
next
  case (exit p newer t pc older st out c)
  then show ?case using sig_inv_step [of "pr_state p" newer t pc older "pr_signals p" st out] by simp
qed simp

lemma sig_inv_deliver:
  "sig_inv st hs None sigs \<Longrightarrow> sig \<in> caught \<Longrightarrow>
   sig_inv st ((t, G_Test sig) # hs) None (sigs @ [(t, sig)])"
  by (auto simp: sig_inv_def)

lemma process_reach_inv: "process_reach H p \<Longrightarrow> server_reach H (pr_server p) \<and> proc_sig_inv p"
proof (induction rule: process_reach.induct)
  case (start s)
  then show ?case by (simp add: process_start_def sig_inv_def)
next
  case (step p p')
  from step.hyps(2) step.IH show ?case
  proof (cases rule: process_step.cases)
    case (server s t)
    with step.IH show ?thesis by (auto intro: server_reach.inner)
  next
    case (outside s)
    with step.IH show ?thesis by (auto intro: server_reach.outer)
  next
    case (deliver sig t)
    with step.IH show ?thesis by (auto intro: sig_inv_deliver)
  next
    case handler
    with step.IH show ?thesis using sig_inv_handler handler_keeps by metis
  qed
qed

text \<open>The steps the handlers have left.\<close>

definition sig_left :: "'a process \<Rightarrow> nat" where
  "sig_left p = (if alive p then 1 else 0) + sum_list (map (\<lambda>h. sig_rank (snd h)) (pr_handlers p))"

lemma sig_rank_pos: "0 < sig_rank pc"
  by (cases pc) simp_all

lemma sig_left_decreases: "handler_step p p' \<Longrightarrow> sig_left p' < sig_left p"
proof (induction rule: handler_step.induct)
  case (continue p newer t pc older st out pc')
  then show ?case using sig_step_rank [OF continue(5)] by (simp add: sig_left_def)
next
  case (return p newer t pc older st out)
  then show ?case using sig_rank_pos [of pc] by (simp add: sig_left_def)
qed (simp_all add: sig_left_def)

interpretation handler_steps: bounded_steps handler_step "\<lambda>_. True" sig_left
  by unfold_locales (simp_all add: sig_left_decreases)

lemma handler_enabled: "alive p \<Longrightarrow> pr_handlers p \<noteq> [] \<Longrightarrow> \<exists>p'. handler_step p p'"
proof -
  assume p: "alive p" "pr_handlers p \<noteq> []"
  then obtain t pc older where h: "pr_handlers p = [] @ (t, pc) # older" by (cases "pr_handlers p") auto
  obtain st out nx where "sig_step (pr_state p) pc = (st, out, nx)" by (cases "sig_step (pr_state p) pc")
  then show ?thesis
    using handler_step.intros [OF p(1) h] by (cases nx; cases "bad_exit p t pc") auto
qed

lemma handlers_run:
  "handler_step\<^sup>*\<^sup>* p p' \<Longrightarrow> process_reach H p \<Longrightarrow>
   process_reach H p' \<and> pr_server p' = pr_server p \<and> pr_signals p' = pr_signals p \<and> pr_unsafe p' = pr_unsafe p"
proof (induction rule: rtranclp_induct)
  case (step q p')
  then have "process_reach H p'" by (auto intro: process_reach.step process_step.handler)
  with step show ?case using handler_keeps [of q p'] by simp
qed simp

text \<open>A handler that nothing interrupts runs to its end, if it may call \<open>exit\<close>.\<close>

lemma handler_completes:
  "sig_run (pr_state p) pc = (st, out, Some c) \<Longrightarrow> alive p \<Longrightarrow> pr_handlers p = newer @ (t, pc) # older \<Longrightarrow>
   t \<notin> fst ` set newer \<Longrightarrow> t \<notin> pr_unsafe p \<Longrightarrow> \<not> exiting (newer @ older) \<Longrightarrow>
   \<exists>p'. handler_step\<^sup>*\<^sup>* p p' \<and> pr_exit p' = Some c \<and> pr_out p' = pr_out p @ out"
proof (induction "sig_rank pc" arbitrary: p pc out rule: less_induct)
  case less
  obtain st1 out1 nx where s: "sig_step (pr_state p) pc = (st1, out1, nx)" by (cases "sig_step (pr_state p) pc")
  show ?case
  proof (cases nx)
    case (Continue pc')
    let ?q = "p\<lparr>pr_state := st1, pr_out := pr_out p @ out1, pr_handlers := newer @ (t, pc') # older\<rparr>"
    obtain out2 where o: "sig_run st1 pc' = (st, out2, Some c)" "out = out1 @ out2"
      using less.prems(1) s Continue by (subst (asm) sig_run.simps) (auto simp: Let_def split: prod.splits)
    have "\<exists>p'. handler_step\<^sup>*\<^sup>* ?q p' \<and> pr_exit p' = Some c \<and> pr_out p' = pr_out ?q @ out2"
      by (rule less.hyps [of pc']) (use s Continue o less.prems in \<open>auto intro: sig_step_rank\<close>)
    moreover have "\<not> bad_exit p t pc" using less.prems(3,5,6) by (auto simp: bad_exit_def exiting_def)
    then have "handler_step p ?q" using s Continue less.prems by (intro handler_step.continue) auto
    ultimately show ?thesis using o(2) by (auto intro: converse_rtranclp_into_rtranclp)
  next
    case Return
    then show ?thesis using less.prems(1) s by (subst (asm) sig_run.simps) simp
  next
    case (Exit_With c')
    then have "c' = c" "out = out1" using less.prems(1) s by (subst (asm) sig_run.simps; simp)+
    moreover have "handler_step p (p\<lparr>pr_state := st1, pr_out := pr_out p @ out1, pr_exit := Some c'\<rparr>)"
      using s Exit_With less.prems by (intro handler_step.exit) auto
    ultimately show ?thesis
      by (intro exI [of _ "p\<lparr>pr_state := st1, pr_out := pr_out p @ out1, pr_exit := Some c\<rparr>"]) auto
  qed
qed

subsection \<open>Signals on one thread\<close>

primrec printed :: "sig_pc \<Rightarrow> string" where
  "printed (G_Test sig) = []"
| "printed (G_Set sig) = []"
| "printed (G_Newline sig) = []"
| "printed (G_Message sig) = [CHR 0x0A]"
| "printed (G_Sleep sig) = shutdown_text"
| "printed (G_Exit sig) = shutdown_text"
| "printed (G_Exiting sig) = shutdown_text"

text \<open>At most one handler is committed; those that came later only test, those that came
  earlier wait before the assignment.\<close>

definition single_inv :: "node_state \<Rightarrow> sig_pc list \<Rightarrow> int option \<Rightarrow> string \<Rightarrow> bool" where
  "single_inv st pcs ex out \<longleftrightarrow>
     (if ex \<noteq> None then out = shutdown_text
      else if st = NODEST_RUNNING then out = [] \<and> (\<forall>pc \<in> set pcs. \<not> committed pc)
      else \<exists>later pc earlier. pcs = later @ pc # earlier \<and> (\<forall>q \<in> set later. \<exists>sig. q = G_Test sig) \<and> committed pc
             \<and> (\<forall>q \<in> set earlier. \<not> committed q) \<and> out = printed pc)"

lemma single_invI:
  "\<forall>q \<in> set later. \<exists>sig. q = G_Test sig \<Longrightarrow> committed pc \<Longrightarrow> \<forall>q \<in> set earlier. \<not> committed q \<Longrightarrow>
   single_inv NODEST_STOPPING (later @ pc # earlier) None (printed pc)"
  unfolding single_inv_def by auto

lemma single_inv_running:
  "single_inv NODEST_RUNNING pcs None out \<longleftrightarrow> out = [] \<and> (\<forall>pc \<in> set pcs. \<not> committed pc)"
  by (simp add: single_inv_def)

lemma single_inv_exit: "single_inv st pcs (Some c) out \<longleftrightarrow> out = shutdown_text"
  by (simp add: single_inv_def)

lemma single_inv_deliver:
  assumes "single_inv st pcs None out"
  shows "single_inv st (G_Test sig # pcs) None out"
proof (cases st)
  case NODEST_STOPPING
  with assms obtain later pc earlier where "pcs = later @ pc # earlier" "\<forall>q \<in> set later. \<exists>sig. q = G_Test sig"
    "committed pc" "\<forall>q \<in> set earlier. \<not> committed q" "out = printed pc"
    by (auto simp: single_inv_def)
  then show ?thesis using single_invI [of "G_Test sig # later" pc earlier] NODEST_STOPPING by simp
qed (use assms in \<open>auto simp: single_inv_def\<close>)

lemma single_inv_step:
  assumes inv: "single_inv st (pc # pcs) None out" and step: "sig_step st pc = (st', o1, nx)"
  shows "case nx of
           Continue pc' \<Rightarrow> single_inv st' (pc' # pcs) None (out @ o1)
         | Return \<Rightarrow> single_inv st' pcs None (out @ o1)
         | Exit_With c \<Rightarrow> single_inv st' (pc # pcs) (Some c) (out @ o1)"
proof (cases st)
  case NODEST_RUNNING
  with assms show ?thesis
    using single_invI [of "[]" "G_Newline (sig_number pc)" pcs] by (cases pc) (auto simp: single_inv_running)
next
  case NODEST_STOPPING
  with inv obtain later q earlier where l: "pc # pcs = later @ q # earlier" "\<forall>q \<in> set later. \<exists>sig. q = G_Test sig"
    "committed q" "\<forall>q \<in> set earlier. \<not> committed q" "out = printed q"
    by (auto simp: single_inv_def)
  show ?thesis
  proof (cases later)
    case Nil
    with l NODEST_STOPPING step show ?thesis
      using single_invI [of "[]" "G_Message (sig_number pc)" pcs] single_invI [of "[]" "G_Sleep (sig_number pc)" pcs]
        single_invI [of "[]" "G_Exit (sig_number pc)" pcs] single_invI [of "[]" "G_Exiting (sig_number pc)" pcs]
      by (cases pc) (auto simp: single_inv_exit shutdown_text_def shutdown_message_def)
  next
    case (Cons x xs)
    with l NODEST_STOPPING step show ?thesis using single_invI [of xs q earlier] by auto
  qed
qed

lemma single_thread_handlers:
  assumes "hs = newer @ (t', pc) # older" "t' \<notin> fst ` set newer" "fst ` set hs \<subseteq> {t}"
  shows "newer = []"
  using assms by (cases newer) auto

lemma single_reach:
  assumes "process_reach H p" "fst ` set (pr_signals p) \<subseteq> {t}"
  shows "fst ` set (pr_handlers p) \<subseteq> {t} \<and> single_inv (pr_state p) (map snd (pr_handlers p)) (pr_exit p) (pr_out p)"
  using assms
proof (induction rule: process_reach.induct)
  case (start s)
  then show ?case by (simp add: process_start_def single_inv_def)
next
  case (step p p')
  have "fst ` set (pr_signals p) \<subseteq> {t}"
    using step.hyps(2) step.prems by (cases rule: process_step.cases) (auto simp: handler_keeps)
  note IH = step.IH [OF this]
  note head = single_thread_handlers [OF _ _ conjunct1 [OF IH]]
  from step.hyps(2) show ?case
  proof (cases rule: process_step.cases)
    case (deliver sig t')
    with IH step.prems show ?thesis by (auto intro: single_inv_deliver)
  next
    case handler
    then show ?thesis
    proof (cases rule: handler_step.cases)
      case (continue newer u pc older st out pc')
      with head have "newer = []" by blast
      with continue IH single_inv_step [of "pr_state p" pc "map snd older" "pr_out p" st out] show ?thesis by simp
    next
      case (return newer u pc older st out)
      with head have "newer = []" by blast
      with return IH single_inv_step [of "pr_state p" pc "map snd older" "pr_out p" st out] show ?thesis by simp
    next
      case (exit newer u pc older st out c)
      with head have "newer = []" by blast
      with exit IH single_inv_step [of "pr_state p" pc "map snd older" "pr_out p" st out] show ?thesis by simp
    next
      case undefined
      then show ?thesis using IH by simp
    qed
  qed (use IH in auto)
qed

text \<open>Undefined behaviour comes from a committed handler, and on one thread only from an unsafe place.\<close>

definition undefined_inv :: "'a process \<Rightarrow> bool" where
  "undefined_inv p \<longleftrightarrow> (pr_undefined p \<longrightarrow> (\<exists>h \<in> set (pr_handlers p). committed (snd h)) \<and> pr_state p = NODEST_STOPPING)"

lemma undefined_reach: "process_reach H p \<Longrightarrow> undefined_inv p"
proof (induction rule: process_reach.induct)
  case (start s)
  show ?case by (simp add: process_start_def undefined_inv_def)
next
  case (step p p')
  from step.hyps(2) show ?case
  proof (cases rule: process_step.cases)
    case handler
    then show ?thesis
    proof (cases rule: handler_step.cases)
      case (undefined newer t pc older)
      then have "\<exists>h \<in> set (pr_handlers p). committed (snd h)" by (auto simp: bad_exit_def)
      then show ?thesis
        using undefined(1) process_reach_inv [OF step.hyps(1)] by (simp add: undefined_inv_def sig_inv_def)
    qed (auto simp: undefined_inv_def)
  qed (auto simp: undefined_inv_def)
qed

lemma single_exit: "single_inv st (G_Exit sig # pcs) None out \<Longrightarrow> q \<in> set pcs \<Longrightarrow> \<not> committed q"
proof (cases st)
  case NODEST_STOPPING
  assume q: "single_inv st (G_Exit sig # pcs) None out" "q \<in> set pcs"
  then obtain later pc earlier where "G_Exit sig # pcs = later @ pc # earlier" "\<forall>q \<in> set later. \<exists>sig. q = G_Test sig"
    "\<forall>q \<in> set earlier. \<not> committed q"
    using NODEST_STOPPING by (auto simp: single_inv_def)
  with q(2) show ?thesis by (cases later) auto
qed (auto simp: single_inv_def)

lemma single_defined:
  assumes "process_reach H p" "fst ` set (pr_signals p) \<subseteq> {t}"
  shows "pr_undefined p \<longrightarrow> pr_unsafe p \<noteq> {}"
  using assms
proof (induction rule: process_reach.induct)
  case (start s)
  show ?case by (simp add: process_start_def)
next
  case (step p p')
  have one: "fst ` set (pr_signals p) \<subseteq> {t}"
    using step.hyps(2) step.prems by (cases rule: process_step.cases) (auto simp: handler_keeps)
  note single = single_reach [OF step.hyps(1) one] and IH = step.IH [OF one]
  from step.hyps(2) show ?case
  proof (cases rule: process_step.cases)
    case handler
    then show ?thesis
    proof (cases rule: handler_step.cases)
      case (undefined newer u pc older)
      then obtain sig where pc: "pc = G_Exit sig" by (auto simp: bad_exit_def)
      have new: "newer = []" by (rule single_thread_handlers [OF undefined(3,4) conjunct1 [OF single]])
      have "single_inv (pr_state p) (G_Exit sig # map snd older) None (pr_out p)"
        using single undefined(2,3) pc new by simp
      note early = single_exit [OF this]
      have "\<not> exiting older"
      proof
        assume "exiting older"
        then obtain h c where h: "h \<in> set older" "snd h = G_Exiting c" by (auto simp: exiting_def)
        then have "G_Exiting c \<in> set (map snd older)" by force
        then show False using early [of "G_Exiting c"] by simp
      qed
      then have "\<not> exiting (pr_handlers p)" using undefined(3) pc new by simp
      then show ?thesis using undefined(1,5) by (auto simp: bad_exit_def)
    qed (use IH in simp_all)
  qed (use IH in simp_all)
qed

subsection \<open>Properties\<close>

lemma deliver_reach:
  "process_reach H p \<Longrightarrow> alive p \<Longrightarrow> sig \<in> caught \<Longrightarrow> t = Receiver \<or> (\<exists>i < WORKERS. t = Worker i) \<Longrightarrow>
   t \<notin> interrupted p \<Longrightarrow> in_wait (pr_server p) t \<longrightarrow> u \<Longrightarrow>
   process_reach H (p\<lparr>pr_handlers := (t, G_Test sig) # pr_handlers p, pr_signals := pr_signals p @ [(t, sig)],
     pr_unsafe := unsafe_after p t u\<rparr>)"
  by (rule process_reach.step, assumption, rule process_step.deliver) force+

lemma continue_reach:
  "process_reach H p \<Longrightarrow> alive p \<Longrightarrow> pr_handlers p = newer @ (t, pc) # older \<Longrightarrow> t \<notin> fst ` set newer \<Longrightarrow>
   \<not> bad_exit p t pc \<Longrightarrow> sig_step (pr_state p) pc = (st, out, Continue pc') \<Longrightarrow>
   process_reach H (p\<lparr>pr_state := st, pr_out := pr_out p @ out, pr_handlers := newer @ (t, pc') # older\<rparr>)"
  by (rule process_reach.step, assumption, rule process_step.handler, rule handler_step.continue)

text \<open>Once a signal was delivered the handlers come to an end, and with it the process.\<close>

lemma process_ends:
  assumes "process_reach H p" and "s_crash (pr_server p) = None" and "\<not> pr_undefined p" and "pr_signals p \<noteq> []"
  shows "(\<forall>n p'. (handler_step ^^ n) p p' \<longrightarrow> n \<le> sig_left p)
       \<and> (\<forall>p'. handler_step\<^sup>*\<^sup>* p p' \<and> (\<nexists>p''. handler_step p' p'') \<longrightarrow>
            pr_state p' = NODEST_STOPPING \<and> pr_server p' = pr_server p
            \<and> (if pr_undefined p' then pr_unsafe p \<noteq> {} \<or> (\<nexists>t. fst ` set (pr_signals p) \<subseteq> {t})
               else \<exists>c \<in> caught. pr_exit p' = Some c \<and> c \<in> snd ` set (pr_signals p)))"
proof (intro conjI allI impI)
  show "n \<le> sig_left p" if "(handler_step ^^ n) p p'" for n p'
    using handler_steps.run_bounded [OF that] by simp
next
  fix p'
  assume run: "handler_step\<^sup>*\<^sup>* p p' \<and> (\<nexists>p''. handler_step p' p'')"
  have keep: "process_reach H p'" "pr_server p' = pr_server p" "pr_signals p' = pr_signals p" "pr_unsafe p' = pr_unsafe p"
    using handlers_run [OF _ assms(1)] run by blast+
  have inv: "proc_sig_inv p'" "undefined_inv p'" using process_reach_inv [OF keep(1)] undefined_reach [OF keep(1)] by simp_all
  show "pr_server p' = pr_server p" by (rule keep(2))
  have ends: "pr_undefined p' \<or> pr_exit p' \<noteq> None"
  proof (rule ccontr)
    assume a: "\<not> (pr_undefined p' \<or> pr_exit p' \<noteq> None)"
    then have "pr_handlers p' \<noteq> []" using inv(1) keep(3) assms(4) by (simp add: sig_inv_def)
    then show False using handler_enabled [of p'] a keep(2) assms(2) run by auto
  qed
  then show "pr_state p' = NODEST_STOPPING" using inv by (auto simp: sig_inv_def undefined_inv_def)
  show "if pr_undefined p' then pr_unsafe p \<noteq> {} \<or> (\<nexists>t. fst ` set (pr_signals p) \<subseteq> {t})
      else \<exists>c \<in> caught. pr_exit p' = Some c \<and> c \<in> snd ` set (pr_signals p)"
  proof (cases "pr_undefined p'")
    case True
    then show ?thesis using single_defined [OF keep(1)] keep(3,4) by auto
  next
    case False
    then obtain c where c: "pr_exit p' = Some c" using ends by blast
    then have "c \<in> snd ` set (pr_signals p)" "snd ` set (pr_signals p) \<subseteq> caught"
      using inv(1) keep(3) by (simp_all add: sig_inv_def)
    with c False show ?thesis by auto
  qed
qed

text \<open>C12. A signal ends the process, wherever its threads are: once one was delivered, the
  handlers alone make boundedly many steps, and when they can make no more the process has
  exited with the number of a delivered signal, or the call of \<open>exit\<close> was undefined. The latter is so only
  when a handler has interrupted a function that is not async-signal-safe or signals were delivered to two
  threads. A thread interrupted while it holds the queue's mutex does not keep the process from ending.\<close>

theorem process_shuts_down:
  assumes "process_reach H p" and "s_crash (pr_server p) = None" and "\<not> pr_undefined p" and "pr_signals p \<noteq> []"
  shows "(\<forall>n p'. (handler_step ^^ n) p p' \<longrightarrow> n \<le> sig_left p)
       \<and> (\<forall>p'. handler_step\<^sup>*\<^sup>* p p' \<and> (\<nexists>p''. handler_step p' p'') \<longrightarrow>
            pr_state p' = NODEST_STOPPING \<and> pr_server p' = pr_server p
            \<and> (if pr_undefined p' then pr_unsafe p \<noteq> {} \<or> (\<nexists>t. fst ` set (pr_signals p) \<subseteq> {t})
               else \<exists>c \<in> caught. pr_exit p' = Some c \<and> c \<in> snd ` set (pr_signals p)))"
  using assms by (rule process_ends)

text \<open>A server in its first state and a termination signal for the receiving thread, outside of unsafe functions.\<close>

definition signalled :: "nat process" where
  "signalled = (process_start (server_start Map.empty 0))
     \<lparr>pr_handlers := [(Receiver, G_Test 15)], pr_signals := [(Receiver, 15)]\<rparr>"

lemma signalled_reach: "process_reach H signalled"
  using deliver_reach [OF process_reach.start [OF fresh_server_reach], of 15 Receiver False]
  by (simp add: signalled_def process_start_def server_start_def caught_def in_wait_def unsafe_after_def)

lemma signalled_exits: "\<exists>p. handler_step\<^sup>*\<^sup>* signalled p \<and> pr_exit p = Some 15"
  using handler_completes [of signalled "G_Test 15" NODEST_STOPPING shutdown_text 15 "[]" Receiver "[]"]
  by (auto simp: sig_run_is_signal_handler signal_handler_def signalled_def process_start_def server_start_def exiting_def)

theorem process_shuts_down_witness:
  "\<exists>p. handler_step\<^sup>*\<^sup>* signalled p \<and> pr_exit p = Some 15 \<and> \<not> pr_undefined p"
proof -
  obtain p where p: "handler_step\<^sup>*\<^sup>* signalled p" "pr_exit p = Some 15" using signalled_exits by blast
  then have stuck: "\<nexists>p'. handler_step p p'" by (auto elim: handler_stepE)
  have s: "pr_signals signalled = [(Receiver, 15)]" "pr_unsafe signalled = {}" "\<not> pr_undefined signalled"
    "s_crash (pr_server signalled) = None"
    by (simp_all add: signalled_def process_start_def server_start_def)
  have "pr_signals signalled \<noteq> []" using s(1) by simp
  from process_shuts_down [OF signalled_reach [of None] s(4,3) this, THEN conjunct2, THEN spec, of p]
  have "if pr_undefined p then pr_unsafe signalled \<noteq> {} \<or> (\<nexists>t. fst ` set (pr_signals signalled) \<subseteq> {t})
      else \<exists>c \<in> caught. pr_exit p = Some c \<and> c \<in> snd ` set (pr_signals signalled)"
    using p(1) stuck by blast
  then have "\<not> pr_undefined p" using s(1,2) by (simp split: if_splits)
  with p show ?thesis by blast
qed

text \<open>After the first signal, on a thread that waits for a request: until another one comes, its handler does not
  get into \<open>exit\<close>.\<close>

definition caught_in_wait :: "thread \<times> int \<Rightarrow> 'a process \<Rightarrow> bool" where
  "caught_in_wait ts p \<longleftrightarrow> (\<exists>sigs. pr_signals p = ts # sigs \<and> (sigs = [] \<longrightarrow> pr_exit p = None \<and> fst ts \<in> pr_unsafe p
     \<and> fst ` set (pr_handlers p) \<subseteq> {fst ts} \<and> \<not> exiting (pr_handlers p)))"

lemma caught_in_wait_handler: "handler_step p p' \<Longrightarrow> caught_in_wait ts p \<Longrightarrow> caught_in_wait ts p'"
proof (induction rule: handler_step.induct)
  case (continue p newer t pc older st out pc')
  then show ?case by (cases pc) (auto simp: caught_in_wait_def bad_exit_def split: if_splits)
next
  case (exit p newer t pc older st out c)
  then show ?case by (cases pc) (auto simp: caught_in_wait_def split: if_splits)
qed (auto simp: caught_in_wait_def)

lemma caught_in_wait_step: "process_step H p p' \<Longrightarrow> caught_in_wait ts p \<Longrightarrow> caught_in_wait ts p'"
proof (induction rule: process_step.induct)
  case (handler p p')
  then show ?case by (rule caught_in_wait_handler)
qed (auto simp: caught_in_wait_def)

lemma caught_in_wait_run: "(process_step H)\<^sup>*\<^sup>* p p' \<Longrightarrow> caught_in_wait ts p \<Longrightarrow> caught_in_wait ts p'"
  by (induction rule: rtranclp_induct) (auto intro: caught_in_wait_step)

lemma caught_in_wait_runs: "handler_step\<^sup>*\<^sup>* p p' \<Longrightarrow> caught_in_wait ts p \<Longrightarrow> caught_in_wait ts p'"
  by (induction rule: rtranclp_induct) (auto intro: caught_in_wait_handler)

lemma first_signal:
  assumes "process_reach H p" and "in_wait (pr_server p) t" and "pr_signals p = []"
    and "process_step H p q" and "pr_signals q = [(t, sig)]"
  shows "caught_in_wait (t, sig) q \<and> s_crash (pr_server q) = None \<and> \<not> pr_undefined q \<and> pr_handlers q = [(t, G_Test sig)]"
proof -
  have "proc_sig_inv p" using process_reach_inv [OF assms(1)] by simp
  then have hs: "pr_handlers p = []" using assms(3) by (simp add: sig_inv_def)
  from assms(4) show ?thesis
  proof (cases rule: process_step.cases)
    case (deliver sig' t' u)
    then have "u" "t' = t" "sig' = sig" using assms(2,3,5) by simp_all
    then show ?thesis using deliver assms(3) hs by (simp add: caught_in_wait_def unsafe_after_def)
  next
    case handler
    then show ?thesis using handler_keeps [OF handler] assms(3,5) by simp
  qed (use assms(3,5) in simp_all)
qed

text \<open>C23. A signal that interrupts a worker while it waits for a request does not shut the node down in a defined
  way: if it is the first one, then as long as no other signal arrives the process does not exit, whatever the
  threads do; its handler makes at most eight steps, and when it can make no more it has called \<open>exit\<close>, which
  is undefined there.\<close>

theorem signal_exit_undefined:
  assumes "process_reach H p" and "i < length (s_workers (pr_server p))" and "s_workers (pr_server p) ! i = W_Wait"
    and "pr_signals p = []" and "process_step H p q" and "pr_signals q = [(Worker i, sig)]"
  shows "(\<forall>q'. (process_step H)\<^sup>*\<^sup>* q q' \<and> pr_signals q' = [(Worker i, sig)] \<longrightarrow> pr_exit q' = None)
       \<and> (\<forall>n q'. (handler_step ^^ n) q q' \<longrightarrow> n \<le> 8)
       \<and> (\<forall>q'. handler_step\<^sup>*\<^sup>* q q' \<and> (\<nexists>q''. handler_step q' q'') \<longrightarrow> pr_undefined q' \<and> pr_server q' = pr_server p)"
proof (intro conjI allI impI)
  have q: "caught_in_wait (Worker i, sig) q" "s_crash (pr_server q) = None" "\<not> pr_undefined q" "pr_handlers q = [(Worker i, G_Test sig)]"
    using first_signal [OF assms(1) _ assms(4-6), unfolded in_wait_def] assms(2,3) by auto
  have r: "process_reach H q" using assms(1,5) by (rule process_reach.step)
  have s: "pr_signals q \<noteq> []" using assms(6) by simp
  show "pr_exit q' = None" if "(process_step H)\<^sup>*\<^sup>* q q' \<and> pr_signals q' = [(Worker i, sig)]" for q'
    using caught_in_wait_run [of H q q', OF _ q(1)] that by (simp add: caught_in_wait_def)
  show "n \<le> 8" if "(handler_step ^^ n) q q'" for n q'
    using handler_steps.run_bounded [OF that] q(4) by (simp add: sig_left_def split: if_splits)
  fix q'
  assume run: "handler_step\<^sup>*\<^sup>* q q' \<and> (\<nexists>q''. handler_step q' q'')"
  then have "pr_signals q' = [(Worker i, sig)]" "caught_in_wait (Worker i, sig) q'"
    using handlers_run [OF _ r] assms(6) caught_in_wait_runs [OF _ q(1)] by auto
  then have e: "pr_exit q' = None" by (simp add: caught_in_wait_def)
  note fin = process_ends [OF r q(2,3) s, THEN conjunct2, THEN spec, of q', THEN mp, OF run]
  then show "pr_undefined q'" using e by (auto split: if_splits)
  have "pr_server q = pr_server p"
    using assms(5) by (cases rule: process_step.cases) (use assms(4,6) in \<open>auto simp: handler_keeps\<close>)
  then show "pr_server q' = pr_server p" using fin by simp
qed

text \<open>A server at rest, all of whose workers wait, and a termination signal for the first worker.\<close>

lemma waiting_server: "\<exists>s :: nat server_state. server_reach None s \<and> s_crash s = None \<and> s_workers s = replicate WORKERS W_Wait"
proof -
  obtain s :: "nat server_state" where s: "server_reach None s" "\<nexists>s'. inner_step None s s'"
    using server_steps.comes_to_rest [OF fresh_server_reach] by blast
  moreover have "s_crash s = None" by (rule no_crash [OF s(1)]) (simp add: worker_serve_def)
  ultimately show ?thesis using stuck_state [OF server_reach_inv] by blast
qed

theorem signal_exit_undefined_witness:
  "\<exists>q :: nat process. process_reach None q \<and> pr_signals q = [(Worker 0, 15)] \<and> pr_undefined q"
proof -
  obtain s :: "nat server_state" where s: "server_reach None s" "s_crash s = None" "s_workers s = replicate WORKERS W_Wait"
    using waiting_server by blast
  let ?p = "process_start s"
  let ?q = "?p\<lparr>pr_handlers := (Worker 0, G_Test 15) # pr_handlers ?p, pr_signals := pr_signals ?p @ [(Worker 0, 15)],
    pr_unsafe := unsafe_after ?p (Worker 0) True\<rparr>"
  have p: "process_reach None ?p" using s(1) by (rule process_reach.start)
  have w: "0 < length (s_workers (pr_server ?p))" "s_workers (pr_server ?p) ! 0 = W_Wait"
    using s(3) by (simp_all add: process_start_def)
  have step: "process_step None ?p ?q"
    by (rule process_step.deliver) (simp_all add: process_start_def caught_def s(2))
  then have r: "process_reach None ?q" by (rule process_reach.step [OF p])
  obtain q' where q': "handler_step\<^sup>*\<^sup>* ?q q'" "\<nexists>q''. handler_step q' q''"
    using handler_steps.comes_to_rest [of ?q] by blast
  then have "pr_undefined q'"
    using signal_exit_undefined [OF p w _ step, of 15] by (simp add: process_start_def)
  then show ?thesis using handlers_run [OF q'(1) r] by (auto simp: process_start_def)
qed

text \<open>As long as all signals go to one thread, the shutdown message is printed once: what
  was written is a beginning of it, the whole of it when the process has exited, however many
  signals interrupt the handler and each other.\<close>

lemma shutdown_message_once:
  assumes "process_reach H p" and "fst ` set (pr_signals p) \<subseteq> {t}"
  shows "prefix (pr_out p) shutdown_text \<and> (pr_exit p \<noteq> None \<longrightarrow> pr_out p = shutdown_text)"
proof -
  have inv: "single_inv (pr_state p) (map snd (pr_handlers p)) (pr_exit p) (pr_out p)"
    using single_reach [OF assms] by simp
  have "prefix (printed pc) shutdown_text" for pc by (cases pc) (simp_all add: shutdown_text_def)
  with inv show ?thesis by (auto simp: single_inv_def split: if_splits)
qed

lemma shutdown_message_once_witness:
  "\<exists>p :: nat process. process_reach None p \<and> pr_exit p = Some 15 \<and> pr_out p = shutdown_text
     \<and> pr_signals p = pr_signals signalled"
proof -
  obtain p where p: "handler_step\<^sup>*\<^sup>* signalled p" "pr_exit p = Some 15" using signalled_exits by blast
  then have k: "process_reach None p" "pr_signals p = pr_signals signalled"
    using handlers_run [OF p(1) signalled_reach] by auto
  then show ?thesis
    using shutdown_message_once [OF k(1), of Receiver] p(2) by (auto simp: signalled_def)
qed

text \<open>The test and the assignment of \<open>global_state\<close> are two statements: signals on two
  threads can both pass the test. Then the message is printed twice, and \<open>exit\<close> can be called twice.\<close>

definition two_at :: "sig_pc \<Rightarrow> sig_pc \<Rightarrow> node_state \<Rightarrow> string \<Rightarrow> nat process" where
  "two_at q1 q2 st out = signalled\<lparr>pr_handlers := [(Worker 0, q1), (Receiver, q2)], pr_signals := [(Receiver, 15), (Worker 0, 2)],
     pr_state := st, pr_out := out\<rparr>"

lemmas two_at_defs = two_at_def signalled_def process_start_def server_start_def

lemma two_step1:
  assumes "process_reach H (two_at q1 q2 st out)" "sig_step st q1 = (st', o1, Continue q1')" "\<forall>sig. q2 \<noteq> G_Exiting sig"
  shows "process_reach H (two_at q1' q2 st' (out @ o1))"
proof (cases "\<exists>sig. q1 = G_Exiting sig")
  case False
  then show ?thesis
    using continue_reach [OF assms(1), of "[]" "Worker 0" q1 "[(Receiver, q2)]"] assms(2,3)
    by (auto simp: two_at_defs bad_exit_def)
qed (use assms(2) in auto)

lemma two_step2:
  assumes "process_reach H (two_at q1 q2 st out)" "sig_step st q2 = (st', o1, Continue q2')" "\<forall>sig. q1 \<noteq> G_Exiting sig"
  shows "process_reach H (two_at q1 q2' st' (out @ o1))"
proof (cases "\<exists>sig. q2 = G_Exiting sig")
  case False
  then show ?thesis
    using continue_reach [OF assms(1), of "[(Worker 0, q1)]" Receiver q2 "[]"] assms(2,3)
    by (auto simp: two_at_defs bad_exit_def)
qed (use assms(2) in auto)

lemma two_asleep: "process_reach H (two_at (G_Set 2) (G_Sleep 15) NODEST_STOPPING shutdown_text)"
proof -
  have s0: "process_reach H (two_at (G_Test 2) (G_Test 15) NODEST_RUNNING [])"
    using deliver_reach [OF signalled_reach, of 2 "Worker 0" False]
    by (simp add: two_at_defs caught_def in_wait_def unsafe_after_def)
  have s1: "process_reach H (two_at (G_Set 2) (G_Test 15) NODEST_RUNNING [])"
    using two_step1 [OF s0, of _ "[]"] by simp
  have s2: "process_reach H (two_at (G_Set 2) (G_Set 15) NODEST_RUNNING [])"
    using two_step2 [OF s1, of _ "[]"] by simp
  have s3: "process_reach H (two_at (G_Set 2) (G_Newline 15) NODEST_STOPPING [])"
    using two_step2 [OF s2, of _ "[]"] by simp
  have s4: "process_reach H (two_at (G_Set 2) (G_Message 15) NODEST_STOPPING [CHR 0x0A])"
    using two_step2 [OF s3, of _ "[CHR 0x0A]"] by simp
  show ?thesis
    using two_step2 [OF s4, of _ shutdown_message] by (simp add: shutdown_text_def shutdown_message_def)
qed

lemma shutdown_message_twice:
  "\<exists>p :: nat process. process_reach H p \<and> pr_exit p = Some 2 \<and> pr_out p = shutdown_text @ shutdown_text"
proof -
  let ?p = "two_at (G_Set 2) (G_Sleep 15) NODEST_STOPPING shutdown_text"
  have "sig_run NODEST_STOPPING (G_Set 2) = (NODEST_STOPPING, shutdown_text, Some 2)"
    using sig_run_is_signal_handler [of NODEST_RUNNING 2]
    by (simp add: sig_run.simps [of _ "G_Test _"] sig_run.simps [of _ "G_Set _"] signal_handler_def split: prod.splits)
  then obtain p where "handler_step\<^sup>*\<^sup>* ?p p" "pr_exit p = Some 2" "pr_out p = shutdown_text @ shutdown_text"
    using handler_completes [of ?p "G_Set 2" NODEST_STOPPING shutdown_text 2 "[]" "Worker 0" "[(Receiver, G_Sleep 15)]"]
    by (auto simp: two_at_defs)
  with handlers_run [OF _ two_asleep] show ?thesis by blast
qed

lemma exit_twice: "\<exists>p :: nat process. process_reach H p \<and> pr_unsafe p = {} \<and> pr_undefined p"
proof -
  let ?out = "(shutdown_text @ [CHR 0x0A]) @ shutdown_message"
  have s1: "process_reach H (two_at (G_Set 2) (G_Exit 15) NODEST_STOPPING shutdown_text)"
    using two_step2 [OF two_asleep, of _ "[]"] by simp
  have s2: "process_reach H (two_at (G_Newline 2) (G_Exit 15) NODEST_STOPPING shutdown_text)"
    using two_step1 [OF s1, of _ "[]"] by simp
  have s3: "process_reach H (two_at (G_Message 2) (G_Exit 15) NODEST_STOPPING (shutdown_text @ [CHR 0x0A]))"
    using two_step1 [OF s2, of _ "[CHR 0x0A]"] by simp
  have s4: "process_reach H (two_at (G_Sleep 2) (G_Exit 15) NODEST_STOPPING ?out)"
    using two_step1 [OF s3, of _ shutdown_message] by simp
  have s5: "process_reach H (two_at (G_Exit 2) (G_Exit 15) NODEST_STOPPING ?out)"
    using two_step1 [OF s4, of _ "[]"] by simp
  have s6: "process_reach H (two_at (G_Exit 2) (G_Exiting 15) NODEST_STOPPING ?out)"
    using two_step2 [OF s5, of _ "[]"] by simp
  let ?p = "two_at (G_Exit 2) (G_Exiting 15) NODEST_STOPPING ?out"
  have "handler_step ?p (?p\<lparr>pr_undefined := True\<rparr>)"
    by (rule handler_step.undefined [of _ "[]" "Worker 0" "G_Exit 2" "[(Receiver, G_Exiting 15)]"])
      (simp_all add: two_at_defs bad_exit_def)
  then have "process_reach H (?p\<lparr>pr_undefined := True\<rparr>)" by (intro process_reach.step [OF s6] process_step.handler)
  then show ?thesis by (intro exI conjI) (assumption, simp_all add: two_at_defs)
qed

text \<open>The shutdown does not wait for the requests: in whatever state the server is, with
  requests queued or in the hands of workers, a signal can end the process in that state.\<close>

lemma shutdown_drops_requests:
  assumes "server_reach H s" and "s_crash s = None"
  shows "\<exists>p. process_reach H p \<and> pr_server p = s \<and> pr_exit p = Some 15 \<and> pr_out p = shutdown_text"
proof -
  let ?p = "(process_start s)\<lparr>pr_handlers := [(Receiver, G_Test 15)], pr_signals := [(Receiver, 15)]\<rparr>"
  have r: "process_reach H ?p"
    using deliver_reach [OF process_reach.start [OF assms(1)], of 15 Receiver False] assms(2)
    by (simp add: process_start_def caught_def in_wait_def unsafe_after_def)
  obtain p where "handler_step\<^sup>*\<^sup>* ?p p" "pr_exit p = Some 15" "pr_out p = shutdown_text"
    using handler_completes [of ?p "G_Test 15" NODEST_STOPPING shutdown_text 15 "[]" Receiver "[]"] assms(2)
    by (auto simp: sig_run_is_signal_handler signal_handler_def process_start_def)
  with handlers_run [OF _ r] show ?thesis by (auto simp: process_start_def)
qed

lemma shutdown_drops_requests_witness:
  "\<exists>p :: nat process. process_reach None p \<and> s_accepted (pr_server p) = [poison] \<and> s_recv (pr_server p) = P_Unlock
     \<and> pr_exit p = Some 15"
proof -
  have "length (wire large_packet) = 111"
    using length_wire [of large_packet] by (simp add: large_packet_def packet_wf_def)
  then obtain s where s: "server_reach None s" "s_accepted s = [poison]" "s_recv s = P_Unlock"
    using accept_one [of poison None] by (auto simp: poison_def)
  moreover have "s_crash s = None" by (rule no_crash [OF s(1)]) (simp add: worker_serve_def)
  ultimately show ?thesis using shutdown_drops_requests [of None s] by metis
qed

end
