(* ===== verification/Main_Program.thy ===== *)
theory Main_Program
  imports Node Lookup_Table Process
begin

text \<open>
  \<open>src/src/main.c\<close>: the configuration, the lookup table, the node and the handshake with the
  seeds, up to the server loop, the loop itself (\<open>node_start\<close>), and the statements behind it, which are not reached:
  the process ends as theory \<open>Process\<close> says. What the outside gives is one record;
  \<open>g\<close>, \<open>gs\<close> and \<open>m_seed_garbage\<close> are the initial contents of allocated blocks.
\<close>

record main_env =
  m_argc :: nat
  m_config :: "string option"
  m_seed_garbage :: "nat \<Rightarrow> node_addr_t"
  m_lookup_mem :: bool
  m_lookup_mutex :: bool
  m_node :: node_env
  m_seed :: "node_addr_t \<Rightarrow> seed_env"

datatype main_outcome =
    Main_Exit nat
  | Serving node_t "lookup_table_t option" "command option list" "nat option"

definition main_start :: "(nat \<Rightarrow> byte) \<Rightarrow> (nat \<Rightarrow> char) \<Rightarrow> main_env \<Rightarrow> main_outcome run" where
  "main_start g gs env =
     run_bind (process_args (m_seed_garbage env) (m_argc env) (m_config env)) (\<lambda>args.
     case args of Exit code \<Rightarrow> Some (Inr (Main_Exit code))
     | Config cfg \<Rightarrow>
         let global_lookup = lookup_table_create (m_lookup_mem env) (m_lookup_mutex env) in
         run_bind (node_new gs (m_node env) \<lparr>node_port = cfg_port cfg\<rparr> initial_dispatcher) (\<lambda>(node, dispatcher, idfile).
         run_bind (Some (handshake g (Some (node_hash node)) (m_seed env) 0
                     (take (seed_nodes_count cfg) (seed_nodes cfg)))) (\<lambda>connected.
         Some (Inr (Serving node global_lookup dispatcher connected)))))"

text \<open>The handler behind the pointer of a node's server, run on the global command table and
  the global node.\<close>

definition installed_handler ::
    "node_t \<Rightarrow> command option list \<Rightarrow> (nat \<Rightarrow> byte) \<Rightarrow> (nat \<Rightarrow> char) \<Rightarrow> Udp_Server.handler option" where
  "installed_handler node dispatcher g gs =
     map_option (\<lambda>p. call_handler p dispatcher (Some (node_hash node)) g gs) (srv_handler (node_server node))"

text \<open>\<open>node_start\<close> runs the server of the node: the states it comes to.\<close>

definition node_start ::
    "node_t \<Rightarrow> command option list \<Rightarrow> (nat \<Rightarrow> byte) \<Rightarrow> (nat \<Rightarrow> char) \<Rightarrow> nat server_state \<Rightarrow> bool" where
  "node_start node dispatcher g gs =
     udp_server_run (installed_handler node dispatcher g gs) (srv_state (node_server node))"

text \<open>What the statements behind \<open>node_start\<close> can end in, with the status that \<open>main\<close> would return.\<close>

definition main_finish :: "Udp_Server.handler option \<Rightarrow> node_t \<Rightarrow> lookup_table_t option \<Rightarrow> nat run \<Rightarrow> bool" where
  "main_finish H node global_lookup r \<longleftrightarrow>
     (\<exists>r1. node_destroy H node r1 \<and>
       r = run_bind (Some r1) (\<lambda>_. run_bind (lookup_table_destroy global_lookup) (\<lambda>_. Some (Inr 0))))"

text \<open>They would not be safe: with a worker outside the request handler they can come to undefined behaviour.\<close>

lemma main_finish_faults:
  assumes "server_reach H (srv_state (node_server node))" "s_crash (srv_state (node_server node)) = None"
    and "s_lock (srv_state (node_server node)) = None"
    and "i < WORKERS" "\<forall>r. s_workers (srv_state (node_server node)) ! i \<noteq> W_Serve r"
  shows "main_finish H node lookup (Some (Inl Sync_Misuse))"
  unfolding main_finish_def node_destroy_def using destroy_faults [OF assms] by force

lemma handshake_total:
  assumes "length hash = 20" "\<forall>s \<in> set ss. seed_ready (env s) \<and> (seed_offline (env s) \<or> seed_online (env s))"
  shows "\<exists>r. handshake g (Some hash) env i ss = Inr r
           \<and> (\<forall>j. r = Some j \<longrightarrow> i \<le> j \<and> j < i + length ss \<and> seed_online (env (ss ! (j - i))))"
  using assms(2)
proof (induction ss arbitrary: i)
  case (Cons s ss)
  show ?case
  proof (cases "seed_online (env s)")
    case True
    then show ?thesis using Cons.prems handshake_one_online [OF assms(1), of "env s" g] by simp
  next
    case False
    then have "handshake_one g (Some hash) s (env s) = Inr False"
      using Cons.prems handshake_one_offline [OF assms(1), of "env s" g] by simp
    moreover obtain r where "handshake g (Some hash) env (Suc i) ss = Inr r"
      "\<forall>j. r = Some j \<longrightarrow> Suc i \<le> j \<and> j < Suc i + length ss \<and> seed_online (env (ss ! (j - Suc i)))"
      using Cons.IH [of "Suc i"] Cons.prems by auto
    ultimately show ?thesis by (auto simp: nth_Cons' Suc_diff_le)
  qed
qed simp

text \<open>What a run that comes to the server loop has established, whatever the outside gave.\<close>

lemma main_start_serving:
  assumes "main_start g gs env = Some (Inr (Serving node lookup dispatcher connected))"
  shows "dispatcher = load_commands initial_dispatcher \<and> length (node_hash node) = 20
           \<and> srv_handler (node_server node) = Some Node_Request_Handler
           \<and> srv_state (node_server node) = server_start Map.empty (queue_addr (m_node env))"
proof -
  obtain args where args: "process_args (m_seed_garbage env) (m_argc env) (m_config env) = Some (Inr args)"
    using assms by (auto simp: main_start_def run_bind_eq_Some_Inr)
  with assms obtain cfg where cfg: "args = Config cfg" by (cases args) (auto simp: main_start_def)
  obtain idfile where "node_new gs (m_node env) \<lparr>node_port = cfg_port cfg\<rparr> initial_dispatcher = Some (Inr (node, dispatcher, idfile))"
    using assms args cfg by (auto simp: main_start_def run_bind_eq_Some_Inr)
  then show ?thesis
    by (auto simp: node_new_def Let_def run_bind_eq_Some_Inr mem_read_def udp_server_set_request_handler_def
        udp_server_new_def split: prod.splits if_splits)
qed

lemma node_start_reach:
  assumes "main_start g gs env = Some (Inr (Serving node lookup dispatcher connected))" "node_start node dispatcher g gs s"
  shows "server_reach (installed_handler node dispatcher g gs) s"
proof (rule udp_server_run_reach [OF assms(2) [unfolded node_start_def]])
  show "server_reach (installed_handler node dispatcher g gs) (srv_state (node_server node))"
    using main_start_serving [OF assms(1)] server_reach.start [of Map.empty] by simp
qed

subsection \<open>Properties\<close>

definition sample_main :: main_env where
  "sample_main = \<lparr>m_argc = 2, m_config = Some (ini_print [(''SERVER'', [(''PORT'', fmt_u 2001)])]),
     m_seed_garbage = (\<lambda>_. \<lparr>addr_host = [], addr_port = 0\<rparr>), m_lookup_mem = True, m_lookup_mutex = True,
     m_node = sample_env, m_seed = (\<lambda>_. pong_env)\<rparr>"

text \<open>The identity that \<open>load_or_generate_node_id\<close> leaves in its array.\<close>

definition node_identity :: "node_env \<Rightarrow> byte list" where
  "node_identity env = fst (snd (load_or_generate_node_id (id_garbage env) (id_file env) (id_random env) (id_writable env)))"

lemma main_start_total:
  assumes "m_argc env \<noteq> 1" and "m_config env = Some content"
    and "length content \<le> INT_MAX" and "length (id_garbage (m_node env)) = 20" and "\<forall>r. id_random (m_node env) = Some r \<longrightarrow> length r = 20"
    and "\<forall>s. seed_ready (m_seed env s) \<and> (seed_offline (m_seed env s) \<or> seed_online (m_seed env s))"
  shows "\<exists>node lookup connected cfg.
           main_start g gs env = Some (Inr (Serving node lookup (load_commands initial_dispatcher) connected))
           \<and> kv_wf (node_storage node) \<and> kv_abs (node_storage node) = Map.empty
           \<and> node_hash node = fips_sha1 (node_identity (m_node env)) \<and> length (node_hash node) = 20
           \<and> process_args (m_seed_garbage env) (m_argc env) (m_config env) = Some (Inr (Config cfg))
           \<and> srv_port (node_server node) = cfg_port cfg \<and> srv_handler (node_server node) = Some Node_Request_Handler
           \<and> (\<forall>H. server_reach H (srv_state (node_server node)))
           \<and> (\<forall>i. connected = Some i \<longrightarrow> i < seed_nodes_count cfg \<and> seed_online (m_seed env (seed_nodes cfg ! i)))"
proof -
  obtain cfg where args: "process_args (m_seed_garbage env) (m_argc env) (m_config env) = Some (Inr (Config cfg))"
    and bound: "seed_nodes_count cfg \<le> length (seed_nodes cfg)"
    using process_args_total [of "m_seed_garbage env" "m_argc env" "m_config env"] assms(1-3) by auto
  obtain node idfile where node: "node_new gs (m_node env) \<lparr>node_port = cfg_port cfg\<rparr> initial_dispatcher = Some (Inr (node, load_commands initial_dispatcher, idfile))"
    "node_storage node = kv_store_new 1024" "length (node_hash node) = 20"
    "node_hash node = fips_sha1 (node_identity (m_node env))"
    "srv_port (node_server node) = cfg_port cfg" "srv_handler (node_server node) = Some Node_Request_Handler"
    "srv_state (node_server node) = server_start Map.empty (queue_addr (m_node env))"
    using node_new_eq [OF assms(4,5), of gs "\<lparr>node_port = cfg_port cfg\<rparr>" initial_dispatcher]
    by (auto simp: node_identity_def)
  let ?ss = "take (seed_nodes_count cfg) (seed_nodes cfg)"
  obtain r where r: "handshake g (Some (node_hash node)) (m_seed env) 0 ?ss = Inr r"
    "\<forall>j. r = Some j \<longrightarrow> j < length ?ss \<and> seed_online (m_seed env (?ss ! j))"
    using handshake_total [OF node(3), of ?ss "m_seed env" g 0] assms(6) by auto
  have "\<forall>i. r = Some i \<longrightarrow> i < seed_nodes_count cfg \<and> seed_online (m_seed env (seed_nodes cfg ! i))"
    using r(2) by auto
  moreover have "main_start g gs env = Some (Inr (Serving node
      (lookup_table_create (m_lookup_mem env) (m_lookup_mutex env)) (load_commands initial_dispatcher) r))"
    using args node(1) r(1) by (simp add: main_start_def)
  ultimately show ?thesis
    using args node(2-7) kv_store_new_wf [of 1024] kv_store_new_abs [of 1024]
      server_reach.start [of Map.empty _ "queue_addr (m_node env)"] by auto
qed

lemma sample_main_size: "length (ini_print [(''SERVER'', [(''PORT'', fmt_u 2001)])]) \<le> INT_MAX"
  using length_fmt_u_le [of 2001 4] by (simp add: ini_print_def print_section_def print_entry_def)

lemma sample_main_serving:
  "\<exists>node lookup dispatcher connected. main_start (\<lambda>_. 0) (\<lambda>_. NUL) sample_main = Some (Inr (Serving node lookup dispatcher connected))"
  using main_start_total [of sample_main "ini_print [(''SERVER'', [(''PORT'', fmt_u 2001)])]" "\<lambda>_. 0" "\<lambda>_. NUL"]
    sample_main_size pong_env_online by (auto simp: sample_main_def sample_env_def)

text \<open>C34. The program starts, whatever the configuration file contains, if the file is there, the program has an argument
  and these conditions hold: the file has less than \<open>2 ^ 31\<close> bytes, \<open>RAND_bytes\<close> gives twenty bytes or fails, and for each address
  a client can be made whose descriptor is below \<open>FD_SETSIZE\<close>, the network reports lengths within the
  buffer, and no packet comes back or one whose payload has at least four bytes. Then \<open>main\<close> comes to
  the server loop without a fault, with an empty well-formed store, every command slot
  set, the SHA-1 digest of the node's identity as its hash, a server in its initial state
  with the port of the configuration and the node's request handler, and, if it is
  connected, with a seed of the configuration that answered \<open>PONG\<close>.\<close>

theorem main_reaches_server:
  assumes "m_argc env \<noteq> 1" and "m_config env = Some content"
    and "length content \<le> INT_MAX" and "length (id_garbage (m_node env)) = 20" and "\<forall>r. id_random (m_node env) = Some r \<longrightarrow> length r = 20"
    and "\<forall>s. seed_ready (m_seed env s) \<and> (seed_offline (m_seed env s) \<or> seed_online (m_seed env s))"
  shows "\<exists>node lookup connected cfg.
           main_start g gs env = Some (Inr (Serving node lookup (load_commands initial_dispatcher) connected))
           \<and> kv_wf (node_storage node) \<and> kv_abs (node_storage node) = Map.empty
           \<and> node_hash node = fips_sha1 (node_identity (m_node env)) \<and> length (node_hash node) = 20
           \<and> process_args (m_seed_garbage env) (m_argc env) (m_config env) = Some (Inr (Config cfg))
           \<and> srv_port (node_server node) = cfg_port cfg \<and> srv_handler (node_server node) = Some Node_Request_Handler
           \<and> (\<forall>H. server_reach H (srv_state (node_server node)))
           \<and> (\<forall>i. connected = Some i \<longrightarrow> i < seed_nodes_count cfg \<and> seed_online (m_seed env (seed_nodes cfg ! i)))"
  using assms by (rule main_start_total)

theorem main_reaches_server_witness:
  "\<exists>node lookup connected. main_start (\<lambda>_. 0) (\<lambda>_. NUL) sample_main =
     Some (Inr (Serving node lookup (load_commands initial_dispatcher) connected)) \<and> kv_wf (node_storage node)"
  using main_reaches_server [of sample_main "ini_print [(''SERVER'', [(''PORT'', fmt_u 2001)])]" "\<lambda>_. 0" "\<lambda>_. NUL"]
    sample_main_size pong_env_online by (auto simp: sample_main_def sample_env_def)

end
