(* ===== verification/Network.thy ===== *)
theory Network
  imports Main_Program
begin

text \<open>
  Several nodes of the program on one network: the servers of \<open>src/src/transfer/udp.c\<close> with the
  request handler their nodes install, joined by the datagrams in flight. A server's \<open>sendto\<close> puts
  a datagram into flight and its \<open>recvfrom\<close> takes one out; the network reorders and
  loses datagrams, and the outside may send anything to anyone under any source address. A
  duplicate is a datagram sent by the outside once more. An address without a server is that of a
  client.

  The history of the network is kept as multisets, and the main lemma is that nothing is made up:
  what was sent, by the outside or by the servers, is in flight, has arrived or was lost. From it
  follow what clients get, and what happens when a source address is that of another server.
\<close>

subsection \<open>Requests that are packets\<close>

text \<open>The bytes parse as a packet that the debug printer can print.\<close>

definition printable :: "byte list \<Rightarrow> bool" where
  "printable bs \<longleftrightarrow>
     (case packet_from_bytes bs (length bs) of Inr (Some pk) \<Rightarrow> unat (payload_len pk) \<le> 82 | _ \<Rightarrow> False)"

definition packet_of :: "byte list \<Rightarrow> packet_t" where
  "packet_of bs = (case packet_from_bytes bs (length bs) of Inr (Some pk) \<Rightarrow> pk)"

definition printable_request :: "'a udp_request_t \<Rightarrow> bool" where
  "printable_request r \<longleftrightarrow> req_length r = int (length (req_data r)) \<and> printable (req_data r)"

abbreviation request_packet :: "'a udp_request_t \<Rightarrow> packet_t" where
  "request_packet r \<equiv> packet_of (req_data r)"

lemma printableE:
  assumes "printable bs"
  obtains pk where "packet_from_bytes bs (length bs) = Inr (Some pk)" "unat (payload_len pk) \<le> 82" "packet_of bs = pk"
  using assms by (auto simp: printable_def packet_of_def split: sum.splits option.splits)

lemma printable_nonempty: "printable bs \<Longrightarrow> bs \<noteq> []"
  by (auto simp: printable_def packet_from_bytes_def split: sum.splits option.splits if_splits)

lemma serve_printable:
  assumes "printable_request r" "length hash = 20"
  shows "worker_serve (Some (node_request_handler (load_commands initial_dispatcher) (Some hash) g gs)) (Some r) =
           Inr [(req_addr r, wire (answer hash (request_packet r)))]"
proof -
  from assms(1) obtain pk where pk: "packet_from_bytes (req_data r) (length (req_data r)) = Inr (Some pk)"
    "unat (payload_len pk) \<le> 82" "request_packet r = pk" and len: "req_length r = int (length (req_data r))"
    by (auto simp: printable_request_def elim: printableE)
  have "packet_wf pk" using packet_from_bytes_inv [OF pk(1) order_refl] by simp
  then obtain s where "packet_to_string gs pk = Inr s" using packet_print_ok [OF _ pk(2)] by blast
  note h = handler_answers [OF assms(2) pk(1) this, of g]
  show ?thesis by (simp add: worker_serve_def len pk(3) h ptr_read_def mem_read_def)
qed

lemma server_answers:
  assumes "server_reach (Some (node_request_handler (load_commands initial_dispatcher) (Some hash) g gs)) s"
    and "length hash = 20" and "\<forall>r \<in> set (s_accepted s). printable_request r"
  shows "s_crash s = None \<and>
         ((\<nexists>s'. inner_step (Some (node_request_handler (load_commands initial_dispatcher) (Some hash) g gs)) s s') \<longrightarrow>
            mset (s_sent s) = image_mset (\<lambda>r. (req_addr r, wire (answer hash (request_packet r)))) (mset (s_accepted s)))"
proof -
  let ?H = "Some (node_request_handler (load_commands initial_dispatcher) (Some hash) g gs)"
  have serve: "worker_serve ?H (Some r) = Inr [(req_addr r, wire (answer hash (request_packet r)))]"
    if "r \<in> set (s_accepted s)" for r
    using serve_printable assms(2,3) that by blast
  have live: "s_crash s = None" by (rule no_crash [OF assms(1)]) (simp add: serve)
  have "mset (s_sent s) = image_mset (\<lambda>r. (req_addr r, wire (answer hash (request_packet r)))) (mset (s_accepted s))"
    if stuck: "\<nexists>s'. inner_step ?H s s'"
  proof -
    have "mset (s_sent s) = (\<Sum>r \<in># mset (s_accepted s). mset (answers ?H (Some r)))"
      by (rule rest_sent [OF server_reach_inv [OF assms(1)] live stuck])
    also have "\<dots> = (\<Sum>r \<in># mset (s_accepted s). {#(req_addr r, wire (answer hash (request_packet r)))#})"
      by (intro arg_cong [where f = sum_mset] image_mset_cong) (simp add: answers_def serve)
    finally show ?thesis by (simp add: sum_mset_singleton_mset image_mset.compositionality comp_def)
  qed
  with live show ?thesis by blast
qed

text \<open>The answers are packets that the other nodes can print.\<close>

lemma answer_printable: "length hash = 20 \<Longrightarrow> printable (wire (answer hash pk))"
  using parse_wire [OF answer_wf, of hash pk]
  by (simp add: printable_def packet_norm_def answer_def pong_packet_def error_packet_def)

subsection \<open>The network\<close>

record 'a datagram =
  dg_from :: 'a
  dg_to :: 'a
  dg_bytes :: "byte list"

record 'a network =
  nw_servers :: "'a \<rightharpoonup> 'a server_state"
  nw_flight :: "'a datagram multiset"
  nw_outside :: "'a datagram multiset"     \<comment> \<open>sent by the outside\<close>
  nw_received :: "'a datagram multiset"    \<comment> \<open>arrived at clients\<close>
  nw_ignored :: "'a datagram multiset"     \<comment> \<open>arrived at a server that did not take them\<close>
  nw_lost :: "'a datagram multiset"

text \<open>The datagram that a server at \<open>a\<close> sends, and the one that a request came in.\<close>

definition sent_by :: "'a \<Rightarrow> 'a \<times> byte list \<Rightarrow> 'a datagram" where
  "sent_by a m = \<lparr>dg_from = a, dg_to = fst m, dg_bytes = snd m\<rparr>"

definition came_in :: "'a \<Rightarrow> 'a udp_request_t \<Rightarrow> 'a datagram" where
  "came_in a r = \<lparr>dg_from = req_addr r, dg_to = a, dg_bytes = req_data r\<rparr>"

text \<open>What the buffer holds after \<open>recvfrom\<close> has copied a datagram into it.\<close>

definition received_into :: "byte list \<Rightarrow> 'a datagram \<Rightarrow> bool" where
  "received_into buffer d \<longleftrightarrow> length buffer = 65536 \<and> length (dg_bytes d) \<le> 65536
     \<and> take (length (dg_bytes d)) buffer = dg_bytes d"

inductive net_inner :: "('a \<Rightarrow> handler option) \<Rightarrow> 'a network \<Rightarrow> 'a network \<Rightarrow> bool" for H where
  work: "nw_servers N a = Some s \<Longrightarrow> inner_step (H a) s s' \<Longrightarrow>
    net_inner H N (N\<lparr>nw_servers := (nw_servers N)(a \<mapsto> s'),
      nw_flight := nw_flight N + image_mset (sent_by a) (mset (drop (length (s_sent s)) (s_sent s')))\<rparr>)"
| arrive: "d \<in># nw_flight N \<Longrightarrow> nw_servers N (dg_to d) = Some s \<Longrightarrow> s_crash s = None \<Longrightarrow> s_recv s = P_Recv \<Longrightarrow>
    received_into buffer d \<Longrightarrow> udp_receive (dg_from d) buffer (int (length (dg_bytes d))) = Inr (Some r) \<Longrightarrow>
    net_inner H N (N\<lparr>nw_servers := (nw_servers N)(dg_to d \<mapsto> s\<lparr>s_recv := P_Lock r\<rparr>), nw_flight := nw_flight N - {#d#}\<rparr>)"
| ignore: "d \<in># nw_flight N \<Longrightarrow> nw_servers N (dg_to d) = Some s \<Longrightarrow> s_crash s = None \<Longrightarrow> s_recv s = P_Recv \<Longrightarrow>
    received_into buffer d \<Longrightarrow> udp_receive (dg_from d) buffer (int (length (dg_bytes d))) = Inr None \<Longrightarrow>
    net_inner H N (N\<lparr>nw_flight := nw_flight N - {#d#}, nw_ignored := nw_ignored N + {#d#}\<rparr>)"
| client: "d \<in># nw_flight N \<Longrightarrow> nw_servers N (dg_to d) = None \<Longrightarrow>
    net_inner H N (N\<lparr>nw_flight := nw_flight N - {#d#}, nw_received := nw_received N + {#d#}\<rparr>)"

inductive net_outer :: "'a network \<Rightarrow> 'a network \<Rightarrow> bool" where
  send: "length (dg_bytes d) \<le> 65507 \<Longrightarrow>
    net_outer N (N\<lparr>nw_flight := nw_flight N + {#d#}, nw_outside := nw_outside N + {#d#}\<rparr>)"
| lose: "d \<in># nw_flight N \<Longrightarrow>
    net_outer N (N\<lparr>nw_flight := nw_flight N - {#d#}, nw_lost := nw_lost N + {#d#}\<rparr>)"
| spurious: "nw_servers N a = Some s \<Longrightarrow> s_crash s = None \<Longrightarrow> i < length (s_workers s) \<Longrightarrow> s_workers s ! i = W_Wait \<Longrightarrow>
    net_outer N (N\<lparr>nw_servers := (nw_servers N)(a \<mapsto> s\<lparr>s_workers := (s_workers s)[i := W_Woken]\<rparr>)\<rparr>)"

definition network_start :: "('a \<rightharpoonup> 'a server_state) \<Rightarrow> 'a network" where
  "network_start S = \<lparr>nw_servers = S, nw_flight = {#}, nw_outside = {#}, nw_received = {#}, nw_ignored = {#}, nw_lost = {#}\<rparr>"

inductive net_reach :: "('a \<Rightarrow> handler option) \<Rightarrow> 'a network \<Rightarrow> bool" for H where
  start: "finite (dom S) \<Longrightarrow> (\<And>a s. S a = Some s \<Longrightarrow> \<exists>h x. finite (dom h) \<and> s = server_start h x) \<Longrightarrow>
    net_reach H (network_start S)"
| inner: "net_reach H N \<Longrightarrow> net_inner H N N' \<Longrightarrow> net_reach H N'"
| outer: "net_reach H N \<Longrightarrow> net_outer N N' \<Longrightarrow> net_reach H N'"

inductive_cases net_innerE: "net_inner H N N'"
inductive_cases net_outerE: "net_outer N N'"

subsection \<open>Every server behaves as a server alone\<close>

lemma dom_update_same: "S a = Some s \<Longrightarrow> dom (S(a \<mapsto> s')) = dom S"
  by auto

lemma net_inner_dom: "net_inner H N N' \<Longrightarrow> dom (nw_servers N') = dom (nw_servers N)"
  by (erule net_innerE) (simp_all add: dom_update_same del: dom_fun_upd)

lemma net_outer_dom: "net_outer N N' \<Longrightarrow> dom (nw_servers N') = dom (nw_servers N)"
  by (erule net_outerE) (simp_all add: dom_update_same del: dom_fun_upd)

lemma net_reach_finite: "net_reach H N \<Longrightarrow> finite (dom (nw_servers N))"
  by (induction rule: net_reach.induct) (simp_all add: network_start_def net_inner_dom net_outer_dom)

lemma net_servers_reach: "net_reach H N \<Longrightarrow> nw_servers N a = Some s \<Longrightarrow> server_reach (H a) s"
proof (induction arbitrary: a s rule: net_reach.induct)
  case (start S)
  then show ?case by (auto simp: network_start_def intro: server_reach.start)
next
  case (inner N N')
  from inner.hyps(2) show ?case
  proof cases
    case (work b t t')
    with inner show ?thesis by (auto intro: server_reach.inner split: if_splits)
  next
    case (arrive d t buffer r)
    then have "outer_step t (t\<lparr>s_recv := P_Lock r\<rparr>)" by (intro outer_step.receive) (auto simp: received_into_def)
    with arrive inner show ?thesis by (auto intro: server_reach.outer split: if_splits)
  qed (use inner in auto)
next
  case (outer N N')
  from outer.hyps(2) show ?case
  proof cases
    case (spurious b t i)
    with outer show ?thesis by (auto intro: server_reach.outer outer_step.spurious split: if_splits)
  qed (use outer in auto)
qed

subsection \<open>Conservation\<close>

definition over :: "('a \<Rightarrow> 's \<Rightarrow> 'm) \<Rightarrow> ('a \<rightharpoonup> 's) \<Rightarrow> 'm::comm_monoid_add" where
  "over f S = (\<Sum>a \<in> dom S. f a (the (S a)))"

lemma over_update:
  assumes "finite (dom S)" "S a = Some s"
  shows "over f (S(a \<mapsto> s')) + f a s = over f S + f a s'"
proof -
  have a: "a \<in> dom S" using assms(2) by auto
  have "(\<Sum>x \<in> dom S - {a}. f x (the ((S(a \<mapsto> s')) x))) = (\<Sum>x \<in> dom S - {a}. f x (the (S x)))"
    by (rule sum.cong) auto
  then have "(\<Sum>x \<in> dom S. f x (the ((S(a \<mapsto> s')) x))) = f a s' + (\<Sum>x \<in> dom S - {a}. f x (the (S x)))"
    using sum.remove [OF assms(1) a, of "\<lambda>x. f x (the ((S(a \<mapsto> s')) x))"] by simp
  moreover have "over f S = f a s + (\<Sum>x \<in> dom S - {a}. f x (the (S x)))"
    using sum.remove [OF assms(1) a, of "\<lambda>x. f x (the (S x))"] assms(2) by (simp add: over_def)
  ultimately show ?thesis
    unfolding over_def dom_update_same [of S a s s', OF assms(2)] by (simp add: add_ac)
qed

lemma over_same: "finite (dom S) \<Longrightarrow> S a = Some s \<Longrightarrow> f a s' = f a s \<Longrightarrow>
   over f (S(a \<mapsto> s')) = (over f S :: 'm::cancel_comm_monoid_add)"
  using over_update [of S a s f s'] by simp

fun in_recv :: "'a receiver_pc \<Rightarrow> 'a udp_request_t multiset" where
  "in_recv (P_Lock r) = {#r#}"
| "in_recv (P_Link r) = {#r#}"
| "in_recv _ = {#}"

text \<open>The requests that a server has taken from the network, as datagrams, and what it has sent.\<close>

definition requests :: "'a server_state \<Rightarrow> 'a udp_request_t multiset" where
  "requests s = mset (s_accepted s) + in_recv (s_recv s)"

definition taken_in :: "'a \<Rightarrow> 'a server_state \<Rightarrow> 'a datagram multiset" where
  "taken_in a s = image_mset (came_in a) (requests s)"

definition sent_out :: "'a \<Rightarrow> 'a server_state \<Rightarrow> 'a datagram multiset" where
  "sent_out a s = image_mset (sent_by a) (mset (s_sent s))"

lemma inner_requests: "inner_step H s s' \<Longrightarrow> requests s' = requests s"
  by (erule inner_stepE) (simp_all add: requests_def)

lemma inner_sent: "inner_step H s s' \<Longrightarrow> \<exists>out. s_sent s' = s_sent s @ out"
  by (erule inner_stepE) auto

lemma arrived:
  assumes "received_into buffer d" "udp_receive (dg_from d) buffer (int (length (dg_bytes d))) = Inr (Some r)"
  shows "came_in (dg_to d) r = d" "req_length r = int (length (req_data r))"
  using assms by (auto simp: received_into_def udp_receive_def came_in_def mem_read_def split: if_splits)

definition balanced :: "'a network \<Rightarrow> bool" where
  "balanced N \<longleftrightarrow> nw_outside N + over sent_out (nw_servers N) =
     nw_flight N + nw_received N + nw_ignored N + nw_lost N + over taken_in (nw_servers N)"

lemma over_replicate: "(\<And>a s. S a = Some s \<Longrightarrow> f a s = 0) \<Longrightarrow> over f S = 0"
  unfolding over_def by (rule sum.neutral) auto

lemma balanced_inner:
  assumes "net_inner H N N'" "finite (dom (nw_servers N))" "balanced N"
  shows "balanced N'"
  using assms(1)
proof cases
  case (work a s s')
  obtain out where out: "s_sent s' = s_sent s @ out" using inner_sent [OF work(3)] by blast
  have "taken_in a s' = taken_in a s" using inner_requests [OF work(3)] by (simp add: taken_in_def)
  then have "over taken_in ((nw_servers N)(a \<mapsto> s')) = over taken_in (nw_servers N)"
    by (rule over_same [OF assms(2) work(2)])
  moreover have "over sent_out ((nw_servers N)(a \<mapsto> s')) = over sent_out (nw_servers N) + image_mset (sent_by a) (mset out)"
    using over_update [OF assms(2) work(2), of sent_out s'] out by (simp add: sent_out_def add.assoc [symmetric])
  ultimately show ?thesis using assms(3) out unfolding work(1) balanced_def by (simp add: ac_simps)
next
  case (arrive d s buffer r)
  let ?S = "(nw_servers N)(dg_to d \<mapsto> s\<lparr>s_recv := P_Lock r\<rparr>)"
  have "over sent_out ?S = over sent_out (nw_servers N)"
    by (rule over_same [OF assms(2) arrive(3)]) (simp add: sent_out_def)
  moreover have "over taken_in ?S = over taken_in (nw_servers N) + {#d#}"
    using over_update [OF assms(2) arrive(3), of taken_in "s\<lparr>s_recv := P_Lock r\<rparr>"] arrived(1) [OF arrive(6,7)] arrive(5)
    by (simp add: taken_in_def requests_def add.assoc [symmetric])
  moreover obtain F where "nw_flight N = F + {#d#}" using arrive(2) by (metis add_mset_add_single insert_DiffM)
  ultimately show ?thesis using assms(3) unfolding arrive(1) balanced_def by (simp add: ac_simps)
next
  case (ignore d s buffer)
  obtain F where "nw_flight N = F + {#d#}" using ignore(2) by (metis add_mset_add_single insert_DiffM)
  then show ?thesis using assms(3) unfolding ignore(1) balanced_def by (simp add: ac_simps)
next
  case (client d)
  obtain F where "nw_flight N = F + {#d#}" using client(2) by (metis add_mset_add_single insert_DiffM)
  then show ?thesis using assms(3) unfolding client(1) balanced_def by (simp add: ac_simps)
qed

lemma balanced_outer:
  assumes "net_outer N N'" "finite (dom (nw_servers N))" "balanced N"
  shows "balanced N'"
  using assms(1)
proof cases
  case (send d)
  then show ?thesis using assms(3) by (simp add: balanced_def ac_simps)
next
  case (lose d)
  obtain F where "nw_flight N = F + {#d#}" using lose(2) by (metis add_mset_add_single insert_DiffM)
  then show ?thesis using assms(3) unfolding lose(1) balanced_def by (simp add: ac_simps)
next
  case (spurious a s i)
  let ?s = "s\<lparr>s_workers := (s_workers s)[i := W_Woken]\<rparr>"
  have "over sent_out ((nw_servers N)(a \<mapsto> ?s)) = over sent_out (nw_servers N)"
    by (rule over_same [OF assms(2) spurious(2)]) (simp add: sent_out_def)
  moreover have "over taken_in ((nw_servers N)(a \<mapsto> ?s)) = over taken_in (nw_servers N)"
    by (rule over_same [OF assms(2) spurious(2)]) (simp add: taken_in_def requests_def)
  ultimately show ?thesis using assms(3) unfolding spurious(1) balanced_def by simp
qed

lemma net_reach_balanced: "net_reach H N \<Longrightarrow> balanced N"
proof (induction rule: net_reach.induct)
  case (start S)
  then have "over sent_out S = {#}" "over taken_in S = {#}"
    by (intro over_replicate, force simp: sent_out_def taken_in_def requests_def server_start_def)+
  then show ?case by (simp add: balanced_def network_start_def)
qed (auto intro: balanced_inner balanced_outer net_reach_finite)

subsection \<open>Kinds of datagrams\<close>

lemma sent_answers:
  assumes "server_reach H s" "m \<in> set (s_sent s)"
  shows "\<exists>r \<in> set (s_accepted s). m \<in> set (answers H (Some r))"
proof -
  note inv = server_reach_inv [OF assms(1)]
  obtain d where d: "d \<in> set (s_served s)" "m \<in> set (answers H d)"
    using assms(2) inv by (auto simp: server_inv_def hist_inv_def)
  then have "d \<in># mset (s_taken s)" using inv by (simp add: server_inv_def hist_inv_def)
  moreover have "set (s_taken s) \<subseteq> Some ` set (s_accepted s)"
    using inv unfolding server_inv_def queue_inv_def by (metis set_map image_mono set_take_subset)
  ultimately show ?thesis using d(2) by auto
qed

lemma net_arrived:
  "net_reach H N \<Longrightarrow> (\<forall>d \<in># nw_received N. nw_servers N (dg_to d) = None)
     \<and> (\<forall>d \<in># nw_ignored N. nw_servers N (dg_to d) \<noteq> None \<and> dg_bytes d = [])"
proof (induction rule: net_reach.induct)
  case (start S)
  then show ?case by (simp add: network_start_def)
next
  case (inner N N')
  from inner.hyps(2) inner.IH show ?case
    by cases (auto simp: udp_receive_def fault_bind_def split: if_splits sum.splits)
next
  case (outer N N')
  from outer.hyps(2) outer.IH show ?case by cases auto
qed

text \<open>A property of all the datagrams from outside that the answers of the servers inherit is one of
  all datagrams.\<close>

definition all_of_kind :: "('a datagram \<Rightarrow> bool) \<Rightarrow> 'a network \<Rightarrow> bool" where
  "all_of_kind P N \<longleftrightarrow> (\<forall>d \<in># nw_flight N + nw_received N + nw_ignored N + nw_lost N. P d)
     \<and> (\<forall>a s. nw_servers N a = Some s \<longrightarrow> (\<forall>r \<in># requests s. P (came_in a r) \<and> req_length r = int (length (req_data r))))"

lemma all_of_kindD:
  "all_of_kind P N \<Longrightarrow> nw_servers N a = Some s \<Longrightarrow> r \<in># requests s \<Longrightarrow> P (came_in a r) \<and> req_length r = int (length (req_data r))"
  "all_of_kind P N \<Longrightarrow> d \<in># nw_flight N + nw_received N + nw_ignored N + nw_lost N \<Longrightarrow> P d"
  by (auto simp: all_of_kind_def)

definition inherited :: "('a \<Rightarrow> handler option) \<Rightarrow> 'a set \<Rightarrow> ('a datagram \<Rightarrow> bool) \<Rightarrow> bool" where
  "inherited H A P \<longleftrightarrow> (\<forall>a r m. a \<in> A \<longrightarrow> P (came_in a r) \<longrightarrow> req_length r = int (length (req_data r)) \<longrightarrow>
     m \<in> set (answers (H a) (Some r)) \<longrightarrow> P (sent_by a m))"

lemma kind_work:
  assumes "net_reach H N" "inherited H (dom (nw_servers N)) P" "all_of_kind P N"
    and s: "nw_servers N a = Some s" "inner_step (H a) s s'"
  shows "all_of_kind P (N\<lparr>nw_servers := (nw_servers N)(a \<mapsto> s'),
      nw_flight := nw_flight N + image_mset (sent_by a) (mset (drop (length (s_sent s)) (s_sent s')))\<rparr>)"
proof -
  have reach: "server_reach (H a) s'" using server_reach.inner [OF net_servers_reach [OF assms(1) s(1)] s(2)] .
  have "P (sent_by a m)" if m: "m \<in> set (drop (length (s_sent s)) (s_sent s'))" for m
  proof -
    obtain r where r: "r \<in> set (s_accepted s')" "m \<in> set (answers (H a) (Some r))"
      using sent_answers [OF reach] in_set_dropD [OF m] by blast
    then have "r \<in># requests s'" by (simp add: requests_def)
    then have "r \<in># requests s" using inner_requests [OF s(2)] by simp
    moreover have "a \<in> dom (nw_servers N)" using s(1) by auto
    ultimately show ?thesis using all_of_kindD(1) [OF assms(3) s(1)] r(2) assms(2) unfolding inherited_def by blast
  qed
  then show ?thesis
    using assms(3) s(1) inner_requests [OF s(2)] by (auto simp: all_of_kind_def split: if_splits)
qed

lemma kind_outer:
  assumes "net_outer N N'" "all_of_kind P N" "\<forall>d \<in># nw_outside N'. P d"
  shows "all_of_kind P N'"
  using assms(1)
proof cases
  case (lose d)
  with assms(2) show ?thesis by (auto simp: all_of_kind_def dest: in_diffD)
qed (use assms in \<open>auto simp: all_of_kind_def requests_def split: if_splits\<close>)

lemma net_kind:
  assumes "net_reach H N" "\<forall>d \<in># nw_outside N. P d" "inherited H (dom (nw_servers N)) P"
  shows "all_of_kind P N"
  using assms
proof (induction rule: net_reach.induct)
  case (start S)
  then show ?case by (force simp: all_of_kind_def network_start_def requests_def server_start_def)
next
  case (inner N N')
  have "nw_outside N' = nw_outside N" using inner.hyps(2) by cases simp_all
  moreover have hereditary: "inherited H (dom (nw_servers N)) P"
    using inner.prems(2) unfolding net_inner_dom [OF inner.hyps(2)] .
  ultimately have IH: "all_of_kind P N" using inner by simp
  from inner.hyps(2) show ?case
  proof cases
    case (work a s s')
    then show ?thesis using kind_work [OF inner.hyps(1) hereditary IH work(2,3)] by simp
  next
    case (arrive d s buffer r)
    then show ?thesis
      using IH arrived [OF arrive(6,7)] by (auto simp: all_of_kind_def requests_def dest: in_diffD split: if_splits)
  qed (use IH in \<open>auto simp: all_of_kind_def dest: in_diffD\<close>)
next
  case (outer N N')
  have "set_mset (nw_outside N) \<subseteq> set_mset (nw_outside N')" using outer.hyps(2) by cases auto
  then have "all_of_kind P N" using outer net_outer_dom [OF outer.hyps(2)] by auto
  then show ?case using kind_outer [OF outer.hyps(2)] outer.prems(1) by blast
qed

lemma net_outside_size: "net_reach H N \<Longrightarrow> \<forall>d \<in># nw_outside N. length (dg_bytes d) \<le> 65507"
proof (induction rule: net_reach.induct)
  case (start S)
  then show ?case by (simp add: network_start_def)
next
  case (inner N N')
  from inner.hyps(2) inner.IH show ?case by cases simp_all
next
  case (outer N N')
  from outer.hyps(2) outer.IH show ?case by cases auto
qed

subsection \<open>The network at rest\<close>

definition at_rest :: "('a \<Rightarrow> handler option) \<Rightarrow> 'a network \<Rightarrow> bool" where
  "at_rest H N \<longleftrightarrow> (\<nexists>N'. net_inner H N N')"

lemma rest_server: "at_rest H N \<Longrightarrow> nw_servers N a = Some s \<Longrightarrow> \<nexists>s'. inner_step (H a) s s'"
  unfolding at_rest_def by (blast intro: net_inner.work)

lemma rest_flight:
  assumes "net_reach H N" "at_rest H N" "\<And>a s. nw_servers N a = Some s \<Longrightarrow> s_crash s = None"
    and "\<forall>d \<in># nw_flight N. nw_servers N (dg_to d) \<noteq> None \<longrightarrow> length (dg_bytes d) \<le> 65536"
  shows "nw_flight N = {#}"
proof (rule ccontr)
  assume "nw_flight N \<noteq> {#}"
  then obtain d where d: "d \<in># nw_flight N" by blast
  show False
  proof (cases "nw_servers N (dg_to d)")
    case None
    then show False using assms(2) net_inner.client [OF d] unfolding at_rest_def by blast
  next
    case (Some s)
    have "s_recv s = P_Recv"
      using stuck_state [OF server_reach_inv [OF net_servers_reach [OF assms(1) Some]] assms(3) [OF Some] rest_server [OF assms(2) Some]]
      by simp
    note here = d Some assms(3) [OF Some] this
    let ?b = "dg_bytes d @ replicate (65536 - length (dg_bytes d)) 0"
    have len: "length (dg_bytes d) \<le> 65536" using assms(4) d Some by simp
    then have b: "received_into ?b d" by (simp add: received_into_def)
    have "\<exists>r. udp_receive (dg_from d) ?b (int (length (dg_bytes d))) = Inr r"
      using len by (simp add: udp_receive_def mem_read_def)
    then obtain r where r: "udp_receive (dg_from d) ?b (int (length (dg_bytes d))) = Inr r" by blast
    show False
      using assms(2) net_inner.arrive [OF here b] net_inner.ignore [OF here b] r unfolding at_rest_def by (cases r) blast+
  qed
qed

text \<open>All nodes run the program's request handler, each with its own hash.\<close>

definition node_handlers :: "('a \<Rightarrow> byte list) \<Rightarrow> (nat \<Rightarrow> byte) \<Rightarrow> (nat \<Rightarrow> char) \<Rightarrow> 'a \<Rightarrow> handler option" where
  "node_handlers hash g gs a = Some (node_request_handler (load_commands initial_dispatcher) (Some (hash a)) g gs)"

text \<open>The answer to a datagram.\<close>

definition reply :: "('a \<Rightarrow> byte list) \<Rightarrow> 'a datagram \<Rightarrow> 'a datagram" where
  "reply hash d = \<lparr>dg_from = dg_to d, dg_to = dg_from d, dg_bytes = wire (answer (hash (dg_to d)) (packet_of (dg_bytes d)))\<rparr>"

lemma node_answers:
  assumes "length (hash a) = 20" "printable_request r"
  shows "answers (node_handlers hash g gs a) (Some r) = [(req_addr r, wire (answer (hash a) (request_packet r)))]"
  using serve_printable [OF assms(2,1), of g gs] by (simp add: answers_def node_handlers_def)

lemma reply_request: "sent_by a (req_addr r, wire (answer (hash a) (request_packet r))) = reply hash (came_in a r)"
  by (simp add: sent_by_def reply_def came_in_def)

lemma rest_replies:
  assumes "net_reach (node_handlers hash g gs) N" "at_rest (node_handlers hash g gs) N" "nw_servers N a = Some s"
    and "length (hash a) = 20" "\<forall>r \<in># requests s. printable_request r"
  shows "sent_out a s = image_mset (reply hash) (taken_in a s)"
proof -
  note reach = net_servers_reach [OF assms(1,3)] and stuck = rest_server [OF assms(2,3)]
  have acc: "\<forall>r \<in> set (s_accepted s). printable_request r" using assms(5) by (simp add: requests_def)
  note ans = server_answers [OF reach [unfolded node_handlers_def] assms(4) acc]
  have "s_recv s = P_Recv"
    using stuck_state [OF server_reach_inv [OF reach] conjunct1 [OF ans] stuck] by simp
  then have "requests s = mset (s_accepted s)" by (simp add: requests_def)
  moreover have "mset (s_sent s) = image_mset (\<lambda>r. (req_addr r, wire (answer (hash a) (request_packet r)))) (mset (s_accepted s))"
    using ans stuck by (simp add: node_handlers_def)
  ultimately show ?thesis
    by (simp add: sent_out_def taken_in_def image_mset.compositionality comp_def reply_request)
qed

lemma over_image: "over (\<lambda>a s. image_mset f (g a s)) S = image_mset f (over g S)"
proof (cases "finite (dom S)")
  case True
  have "finite B \<Longrightarrow> (\<Sum>a \<in> B. image_mset f (g a (the (S a)))) = image_mset f (\<Sum>a \<in> B. g a (the (S a)))" for B
    by (induction rule: finite_induct) simp_all
  with True show ?thesis by (simp add: over_def)
qed (simp add: over_def)

lemma over_cong: "(\<And>a s. S a = Some s \<Longrightarrow> f a s = g a s) \<Longrightarrow> over f S = over g S"
  unfolding over_def by (rule sum.cong) auto

lemma over_member:
  assumes "d \<in># over f S" "finite (dom S)"
  shows "\<exists>a s. S a = Some s \<and> d \<in># f a s"
proof -
  have "finite B \<Longrightarrow> d \<in># (\<Sum>a \<in> B. f a (the (S a))) \<Longrightarrow> \<exists>a \<in> B. d \<in># f a (the (S a))" for B
    by (induction rule: finite_induct) auto
  then show ?thesis using assms by (force simp: over_def)
qed

lemma member_over:
  assumes "d \<in># f a s" "finite (dom S)" "S a = Some s"
  shows "d \<in># over f S"
proof -
  have "over f S = f a s + (\<Sum>x \<in> dom S - {a}. f x (the (S x)))"
    using sum.remove [OF assms(2), of a "\<lambda>x. f x (the (S x))"] assms(3) by (auto simp: over_def)
  with assms(1) show ?thesis by simp
qed

text \<open>When all requests are packets, the servers have sent the answers to what they have taken.\<close>

lemma rest_conserved:
  assumes reach: "net_reach (node_handlers hash g gs) N" and rest: "at_rest (node_handlers hash g gs) N"
    and hash: "\<forall>a \<in> dom (nw_servers N). length (hash a) = 20" and kind: "all_of_kind P N"
    and P: "\<And>d. P d \<Longrightarrow> nw_servers N (dg_to d) \<noteq> None \<Longrightarrow> printable (dg_bytes d) \<and> length (dg_bytes d) \<le> 65536"
  shows "nw_flight N = {#}" "nw_ignored N = {#}"
    "over sent_out (nw_servers N) = image_mset (reply hash) (over taken_in (nw_servers N))"
    "nw_outside N + over sent_out (nw_servers N) = nw_received N + nw_lost N + over taken_in (nw_servers N)"
proof -
  have ok: "printable_request r" if "nw_servers N a = Some s" "r \<in># requests s" for a s r
    using all_of_kindD(1) [OF kind that] P [of "came_in a r"] that(1) by (auto simp: printable_request_def came_in_def)
  have live: "s_crash s = None" if "nw_servers N a = Some s" for a s
  proof -
    have "length (hash a) = 20" using hash that by auto
    then show ?thesis
      using server_answers [OF net_servers_reach [OF reach that, unfolded node_handlers_def]] ok [OF that]
      by (simp add: requests_def)
  qed
  show flight: "nw_flight N = {#}"
    using all_of_kindD(2) [OF kind] P by (intro rest_flight [OF reach rest live]) auto
  have "d \<notin># nw_ignored N" for d
    using net_arrived [OF reach] all_of_kindD(2) [OF kind, of d] P [of d] printable_nonempty by auto
  then show "nw_ignored N = {#}" by (metis multiset_eqI count_empty not_in_iff)
  with flight show "nw_outside N + over sent_out (nw_servers N) = nw_received N + nw_lost N + over taken_in (nw_servers N)"
    using net_reach_balanced [OF reach] by (simp add: balanced_def)
  have "over sent_out (nw_servers N) = over (\<lambda>a s. image_mset (reply hash) (taken_in a s)) (nw_servers N)"
    by (rule over_cong, rule rest_replies [OF reach rest]) (use hash ok in auto)
  then show "over sent_out (nw_servers N) = image_mset (reply hash) (over taken_in (nw_servers N))"
    by (simp add: over_image)
qed

subsection \<open>Counting the steps\<close>

lemma serve_one: "worker_serve H d = Inr out \<Longrightarrow> length out \<le> 1"
  by (auto simp: worker_serve_def fault_bind_def split: option.splits sum.splits prod.splits)

lemma inner_sends:
  assumes "inner_step H s s'"
  obtains out where "s_sent s' = s_sent s @ out" "length out \<le> 1"
  using assms by (elim inner_stepE) (auto dest: serve_one)

lemma answers_addr: "m \<in> set (answers H (Some r)) \<Longrightarrow> fst m = req_addr r"
  by (auto simp: answers_def worker_serve_def fault_bind_def split: option.splits sum.splits prod.splits)

definition weight :: "'a set \<Rightarrow> 'a datagram \<Rightarrow> nat" where
  "weight A d = (if dg_to d \<in> A then 20 else 1)"

definition net_work :: "'a set \<Rightarrow> 'a network \<Rightarrow> nat" where
  "net_work A N = 2 * over (\<lambda>a. work_left) (nw_servers N) + (\<Sum>d \<in># nw_flight N. weight A d)"

lemma weight_pos: "0 < weight A d"
  by (simp add: weight_def)

lemma flight_minus: "d \<in># F \<Longrightarrow> (\<Sum>x \<in># F - {#d#}. weight A x) + weight A d = (\<Sum>x \<in># F. weight A x)"
  by (metis add.commute image_mset_add_mset insert_DiffM sum_mset.add_mset)

text \<open>A step makes the work smaller, but for one that sends a datagram to a server.\<close>

lemma net_work_step:
  assumes "net_reach H N" "net_inner H N N'" "dom (nw_servers N) = A"
  shows "net_work A N' < net_work A N \<and> over sent_out (nw_servers N') = over sent_out (nw_servers N) \<or>
    (\<exists>d. over sent_out (nw_servers N') = over sent_out (nw_servers N) + {#d#} \<and> dg_from d \<in> A \<and> d \<in># nw_flight N'
       \<and> (dg_to d \<notin> A \<longrightarrow> net_work A N' < net_work A N))"
  using assms(2)
proof cases
  case (work a s s')
  note fin = net_reach_finite [OF assms(1)]
  have "queue_inv s" using server_reach_inv [OF net_servers_reach [OF assms(1) work(2)]] by (simp add: server_inv_def)
  then have "work_left s' < work_left s" by (rule work_left_decreases [OF work(3)])
  then have less: "over (\<lambda>a. work_left) (nw_servers N') < over (\<lambda>a. work_left) (nw_servers N)"
    using over_update [OF fin work(2), of "\<lambda>a. work_left" s'] work(1) by simp
  obtain out where out: "s_sent s' = s_sent s @ out" "length out \<le> 1" by (rule inner_sends [OF work(3)])
  then consider "out = []" | m where "out = [m]" by (cases out) auto
  then show ?thesis
  proof cases
    case 1
    then have "over sent_out (nw_servers N') = over sent_out (nw_servers N)"
      using over_same [OF fin work(2), of sent_out s'] work(1) out by (simp add: sent_out_def)
    then show ?thesis using 1 less work(1) out by (simp add: net_work_def)
  next
    case (2 m)
    have "over sent_out (nw_servers N') = over sent_out (nw_servers N) + {#sent_by a m#}"
      using over_update [OF fin work(2), of sent_out s'] work(1) out(1) 2 by (simp add: sent_out_def)
    moreover have "sent_by a m \<in># nw_flight N'" "dg_from (sent_by a m) \<in> A"
      using work(1,2) out(1) 2 assms(3) by (auto simp: sent_by_def)
    moreover have "net_work A N' < net_work A N" if "dg_to (sent_by a m) \<notin> A"
      using less that work(1) out(1) 2 by (simp add: net_work_def weight_def)
    ultimately show ?thesis by blast
  qed
next
  case (arrive d s buffer r)
  have "over (\<lambda>a. work_left) (nw_servers N') = over (\<lambda>a. work_left) (nw_servers N) + 9"
    using over_update [OF net_reach_finite [OF assms(1)] arrive(3), of "\<lambda>a. work_left" "s\<lparr>s_recv := P_Lock r\<rparr>"] arrive(1,5)
    by (simp add: work_left_def)
  moreover have "over sent_out (nw_servers N') = over sent_out (nw_servers N)"
    using over_same [OF net_reach_finite [OF assms(1)] arrive(3), of sent_out "s\<lparr>s_recv := P_Lock r\<rparr>"] arrive(1)
    by (simp add: sent_out_def)
  moreover have "dg_to d \<in> A" using arrive(3) assms(3) by auto
  ultimately show ?thesis
    using flight_minus [OF arrive(2), of A] arrive(1) by (simp add: net_work_def weight_def)
next
  case (ignore d s buffer)
  then show ?thesis using flight_minus [OF ignore(2), of A] weight_pos [of A d] by (simp add: net_work_def)
next
  case (client d)
  then show ?thesis using flight_minus [OF client(2), of A] weight_pos [of A d] by (simp add: net_work_def)
qed

lemma inner_run_reach:
  "(net_inner H)\<^sup>*\<^sup>* N N' \<Longrightarrow> net_reach H N \<Longrightarrow>
   net_reach H N' \<and> nw_outside N' = nw_outside N \<and> nw_lost N' = nw_lost N \<and> dom (nw_servers N') = dom (nw_servers N)"
proof (induction rule: rtranclp_induct)
  case (step M N')
  then have "net_reach H M" "nw_outside M = nw_outside N" "nw_lost M = nw_lost N" "dom (nw_servers M) = dom (nw_servers N)"
    by simp_all
  moreover have "nw_outside N' = nw_outside M \<and> nw_lost N' = nw_lost M" using step.hyps(2) by cases simp_all
  ultimately show ?case using step.hyps(2) net_inner_dom [OF step.hyps(2)] by (auto intro: net_reach.inner)
qed simp

subsection \<open>Requests of clients\<close>

text \<open>\<open>A\<close> are the addresses of the servers. One end of the datagram is not a server.\<close>

definition with_client :: "'a set \<Rightarrow> 'a datagram \<Rightarrow> bool" where
  "with_client A d \<longleftrightarrow> dg_from d \<notin> A \<or> dg_to d \<notin> A"

lemma with_client_inherited: "inherited H A (with_client A)"
  by (auto simp: inherited_def with_client_def came_in_def sent_by_def dest: answers_addr)

definition only_clients :: "('a \<Rightarrow> handler option) \<Rightarrow> 'a set \<Rightarrow> 'a network \<Rightarrow> bool" where
  "only_clients H A N \<longleftrightarrow> net_reach H N \<and> dom (nw_servers N) = A \<and> (\<forall>d \<in># nw_outside N. with_client A d)"

interpretation client_steps: bounded_steps "net_inner H" "only_clients H A" "net_work A" for H A
proof
  fix N N'
  assume N: "only_clients H A N" and step: "net_inner H N N'"
  note keep = inner_run_reach [OF r_into_rtranclp [of "net_inner H", OF step]]
  then show N': "only_clients H A N'" using N by (simp add: only_clients_def)
  then have "all_of_kind (with_client A) N'"
    using with_client_inherited by (intro net_kind) (auto simp: only_clients_def)
  then have "d \<in># nw_flight N' \<Longrightarrow> dg_from d \<in> A \<Longrightarrow> dg_to d \<notin> A" for d
    using all_of_kindD(2) [of "with_client A" N' d] by (auto simp: with_client_def)
  then show "net_work A N' < net_work A N"
    using net_work_step [OF _ step, of A] N by (auto simp: only_clients_def)
qed

definition client_request :: "'a set \<Rightarrow> 'a datagram \<Rightarrow> bool" where
  "client_request A d \<longleftrightarrow> dg_from d \<notin> A \<and> dg_to d \<in> A \<and> printable (dg_bytes d)"

lemma filter_none: "\<forall>x \<in># M. \<not> P x \<Longrightarrow> filter_mset P M = {#}"
  by (induction M) auto

lemma client_rest:
  assumes reach: "net_reach (node_handlers hash g gs) N" and rest: "at_rest (node_handlers hash g gs) N"
    and A: "dom (nw_servers N) = A" and hash: "\<forall>a \<in> A. length (hash a) = 20"
    and out: "\<forall>d \<in># nw_outside N. client_request A d" and "nw_lost N = {#}"
  shows "nw_flight N = {#} \<and> nw_received N = image_mset (reply hash) (nw_outside N)"
proof -
  let ?P = "\<lambda>d. client_request A d \<and> length (dg_bytes d) \<le> 65536 \<or> dg_from d \<in> A \<and> dg_to d \<notin> A"
  have "inherited (node_handlers hash g gs) A ?P"
    by (auto simp: inherited_def client_request_def came_in_def sent_by_def dest: answers_addr)
  then have kind: "all_of_kind ?P N" using out net_outside_size [OF reach] A by (intro net_kind [OF reach]) force+
  have P: "?P d \<Longrightarrow> nw_servers N (dg_to d) \<noteq> None \<Longrightarrow> printable (dg_bytes d) \<and> length (dg_bytes d) \<le> 65536" for d
    using A by (auto simp: client_request_def)
  note con = rest_conserved [OF reach rest hash [folded A] kind P]
  let ?in = "\<lambda>d. dg_to d \<in> A"
  have taken: "dg_to d \<in> A \<and> dg_from d \<notin> A" if d: "d \<in># over taken_in (nw_servers N)" for d
  proof -
    obtain a s r where "nw_servers N a = Some s" "r \<in># requests s" "d = came_in a r"
      using over_member [OF d net_reach_finite [OF reach]] by (auto simp: taken_in_def)
    then show ?thesis using all_of_kindD(1) [OF kind, of a s r] A by (auto simp: client_request_def came_in_def)
  qed
  have f: "filter_mset ?in (nw_outside N) = nw_outside N" using out by (simp add: filter_mset_eq_conv client_request_def)
  have g: "filter_mset ?in (over sent_out (nw_servers N)) = {#}"
    using taken by (intro filter_none) (simp add: con(3) reply_def)
  have h: "filter_mset ?in (nw_received N) = {#}" using net_arrived [OF reach] A by (intro filter_none) auto
  have i: "filter_mset ?in (over taken_in (nw_servers N)) = over taken_in (nw_servers N)"
    using taken by (simp add: filter_mset_eq_conv)
  have "nw_outside N = over taken_in (nw_servers N)"
    using arg_cong [OF con(4), of "filter_mset ?in"] unfolding assms(6) filter_union_mset f g h i by simp
  with con(1,3,4) assms(6) show ?thesis by simp
qed

subsection \<open>Requests in the name of a server\<close>

definition server_request :: "'a set \<Rightarrow> 'a datagram \<Rightarrow> bool" where
  "server_request A d \<longleftrightarrow> dg_from d \<in> A \<and> dg_to d \<in> A \<and> printable (dg_bytes d)"

lemma storm_inherited:
  assumes "\<forall>a \<in> A. length (hash a) = 20"
  shows "inherited (node_handlers hash g gs) A (\<lambda>d. server_request A d \<and> length (dg_bytes d) \<le> 65536)"
  unfolding inherited_def
proof (intro allI impI)
  fix a r m
  assume a: "a \<in> A" and r: "server_request A (came_in a r) \<and> length (dg_bytes (came_in a r)) \<le> 65536"
    and len: "req_length r = int (length (req_data r))" and m: "m \<in> set (answers (node_handlers hash g gs a) (Some r))"
  have h: "length (hash a) = 20" using assms a by blast
  have "printable_request r" using r len by (simp add: server_request_def came_in_def printable_request_def)
  then have "m = (req_addr r, wire (answer (hash a) (request_packet r)))" using m node_answers [of hash a r] h by simp
  moreover have "length (wire (answer (hash a) pk)) \<le> 65536" for pk
    using length_wire [OF answer_wf [OF h], of pk] by (simp add: answer_def pong_packet_def error_packet_def)
  ultimately show "server_request A (sent_by a m) \<and> length (dg_bytes (sent_by a m)) \<le> 65536"
    using a r answer_printable [OF h] by (auto simp: server_request_def came_in_def sent_by_def)
qed

text \<open>A network in which one such datagram goes round.\<close>

definition storm :: "('a \<Rightarrow> byte list) \<Rightarrow> (nat \<Rightarrow> byte) \<Rightarrow> (nat \<Rightarrow> char) \<Rightarrow> 'a set \<Rightarrow> 'a network \<Rightarrow> bool" where
  "storm hash g gs A N \<longleftrightarrow> net_reach (node_handlers hash g gs) N \<and> dom (nw_servers N) = A \<and> (\<forall>a \<in> A. length (hash a) = 20)
     \<and> (\<forall>d \<in># nw_outside N. server_request A d) \<and> nw_outside N \<noteq> {#} \<and> nw_lost N = {#}"

lemma storm_run: "storm hash g gs A N \<Longrightarrow> (net_inner (node_handlers hash g gs))\<^sup>*\<^sup>* N N' \<Longrightarrow> storm hash g gs A N'"
  using inner_run_reach [of "node_handlers hash g gs" N N'] by (simp add: storm_def)

lemma storm_goes_on:
  assumes "storm hash g gs A N"
  shows "\<exists>N'. net_inner (node_handlers hash g gs) N N'"
proof (rule ccontr)
  assume "\<nexists>N'. net_inner (node_handlers hash g gs) N N'"
  then have rest: "at_rest (node_handlers hash g gs) N" by (simp add: at_rest_def)
  have st: "net_reach (node_handlers hash g gs) N" "dom (nw_servers N) = A" "\<forall>a \<in> A. length (hash a) = 20"
    "\<forall>d \<in># nw_outside N. server_request A d" "nw_outside N \<noteq> {#}" "nw_lost N = {#}"
    using assms by (simp_all add: storm_def)
  have kind: "all_of_kind (\<lambda>d. server_request A d \<and> length (dg_bytes d) \<le> 65536) N"
    using st(2,4) net_outside_size [OF st(1)] storm_inherited [OF st(3)] by (intro net_kind [OF st(1)]) force+
  have P: "printable (dg_bytes d) \<and> length (dg_bytes d) \<le> 65536"
    if "server_request A d \<and> length (dg_bytes d) \<le> 65536" for d
    using that by (simp add: server_request_def)
  note con = rest_conserved [OF st(1) rest st(3) [folded st(2)] kind P]
  have "d \<notin># nw_received N" for d
    using net_arrived [OF st(1)] all_of_kindD(2) [OF kind, of d] st(2) by (auto simp: server_request_def)
  then have "nw_received N = {#}" by (metis multiset_eqI count_empty not_in_iff)
  then have "size (nw_outside N) + size (over sent_out (nw_servers N)) = size (over taken_in (nw_servers N))"
    "size (over sent_out (nw_servers N)) = size (over taken_in (nw_servers N))"
    using con(3) arg_cong [OF con(4), of size] st(6) by simp_all
  then show False using st(5) by simp
qed

lemma storm_sends:
  "storm hash g gs A N \<Longrightarrow> \<exists>N'. (net_inner (node_handlers hash g gs))\<^sup>*\<^sup>* N N'
     \<and> size (over sent_out (nw_servers N')) = Suc (size (over sent_out (nw_servers N)))"
proof (induction "net_work A N" arbitrary: N rule: less_induct)
  case less
  let ?H = "node_handlers hash g gs" and ?n = "\<lambda>N. size (over sent_out (nw_servers N))"
  obtain M where M: "net_inner ?H N M" using storm_goes_on [OF less.prems] by blast
  have "net_reach ?H N" "dom (nw_servers N) = A" using less.prems by (simp_all add: storm_def)
  from net_work_step [OF this(1) M this(2)] consider "net_work A M < net_work A N" "?n M = ?n N" | "?n M = Suc (?n N)"
    by fastforce
  then show ?case
  proof cases
    case 1
    then obtain N' where "(net_inner ?H)\<^sup>*\<^sup>* M N'" "?n N' = Suc (?n N)"
      using less.hyps [OF 1(1) storm_run [OF less.prems]] M by auto
    then show ?thesis using M by (meson converse_rtranclp_into_rtranclp)
  qed (use M in blast)
qed

lemma storm_unbounded:
  assumes "storm hash g gs A N"
  shows "\<exists>N'. (net_inner (node_handlers hash g gs))\<^sup>*\<^sup>* N N' \<and> k \<le> size (over sent_out (nw_servers N'))"
proof (induction k)
  case (Suc k)
  then obtain M where M: "(net_inner (node_handlers hash g gs))\<^sup>*\<^sup>* N M" "k \<le> size (over sent_out (nw_servers M))" by blast
  obtain N' where "(net_inner (node_handlers hash g gs))\<^sup>*\<^sup>* M N'"
    "size (over sent_out (nw_servers N')) = Suc (size (over sent_out (nw_servers M)))"
    using storm_sends [OF storm_run [OF assms M(1)]] by blast
  with M have "(net_inner (node_handlers hash g gs))\<^sup>*\<^sup>* N N'" "Suc k \<le> size (over sent_out (nw_servers N'))"
    by simp_all
  then show ?case by blast
qed auto

subsection \<open>Properties\<close>

lemma clients_run_to_rest:
  assumes "net_reach H N" "dom (nw_servers N) = A" "\<forall>d \<in># nw_outside N. with_client A d"
  shows "\<exists>N'. (net_inner H)\<^sup>*\<^sup>* N N' \<and> at_rest H N'"
  using client_steps.comes_to_rest [of H A N] assms by (auto simp: only_clients_def at_rest_def)

text \<open>Two nodes, at the addresses 1 and 2.\<close>

definition sample_network :: "nat network" where
  "sample_network = network_start [1 \<mapsto> server_start Map.empty 0, 2 \<mapsto> server_start Map.empty 0]"

abbreviation sample_handlers :: "nat \<Rightarrow> handler option" where
  "sample_handlers \<equiv> node_handlers (\<lambda>a. replicate 20 (word_of_nat a)) (\<lambda>_. 0) (\<lambda>_. NUL)"

lemma sample_packet_parse:
  "length (wire sample_packet) = 30" "packet_from_bytes (wire sample_packet) (length (wire sample_packet)) = Inr (Some sample_packet)"
proof -
  show "length (wire sample_packet) = 30" using length_wire [OF sample_packet_wf] by (simp add: sample_packet_def)
  have "packet_norm sample_packet = sample_packet" by (simp add: packet_norm_def sample_packet_def)
  then show "packet_from_bytes (wire sample_packet) (length (wire sample_packet)) = Inr (Some sample_packet)"
    using parse_wire [OF sample_packet_wf] by simp
qed

lemma sample_printable: "printable (wire sample_packet)"
  by (simp add: printable_def sample_packet_parse(2)) (simp add: sample_packet_def)

text \<open>The network after a datagram from \<open>a\<close> to the node at address 1.\<close>

lemma sample_send:
  assumes "length bs \<le> 65507"
  shows "\<exists>N. net_reach sample_handlers N \<and> dom (nw_servers N) = {1, 2} \<and> nw_lost N = {#}
     \<and> nw_outside N = {#\<lparr>dg_from = a, dg_to = 1, dg_bytes = bs\<rparr>#}"
proof -
  let ?d = "\<lparr>dg_from = a, dg_to = 1, dg_bytes = bs\<rparr>"
  have "net_reach sample_handlers sample_network"
    unfolding sample_network_def
    by (rule net_reach.start) (auto intro!: exI [of _ Map.empty] exI [of _ 0] split: if_splits)
  then have "net_reach sample_handlers (sample_network\<lparr>nw_flight := nw_flight sample_network + {#?d#},
      nw_outside := nw_outside sample_network + {#?d#}\<rparr>)"
    using assms by (intro net_reach.outer [OF _ net_outer.send]) simp_all
  then show ?thesis by (intro exI conjI) (assumption, auto simp: sample_network_def network_start_def split: if_splits)
qed

lemma sample_ping:
  "\<exists>N. net_reach sample_handlers N \<and> dom (nw_servers N) = {1, 2} \<and> nw_lost N = {#}
     \<and> nw_outside N = {#\<lparr>dg_from = a, dg_to = 1, dg_bytes = wire sample_packet\<rparr>#}"
  using sample_packet_parse(1) by (intro sample_send) simp

text \<open>C18. Nothing is forged inside the network: a datagram that is in flight or has come to a client was
  sent by the outside, or it is the answer that the handler of the node with its source
  address gives to a request which that node has accepted, and which is itself such a datagram.\<close>

theorem network_origin:
  assumes "net_reach H N" and "d \<in># nw_flight N + nw_received N"
  shows "d \<in># nw_outside N \<or>
    (\<exists>s r. nw_servers N (dg_from d) = Some s \<and> r \<in> set (s_accepted s)
       \<and> (dg_to d, dg_bytes d) \<in> set (answers (H (dg_from d)) (Some r))
       \<and> came_in (dg_from d) r \<in># nw_outside N + over sent_out (nw_servers N))"
proof -
  have bal: "nw_outside N + over sent_out (nw_servers N) =
      nw_flight N + nw_received N + nw_ignored N + nw_lost N + over taken_in (nw_servers N)"
    using net_reach_balanced [OF assms(1)] by (simp add: balanced_def)
  have "d \<in># nw_outside N + over sent_out (nw_servers N)" unfolding bal using assms(2) by auto
  then consider "d \<in># nw_outside N" | "d \<in># over sent_out (nw_servers N)" by auto
  then show ?thesis
  proof cases
    case 2
    then obtain a s m where s: "nw_servers N a = Some s" "m \<in> set (s_sent s)" "d = sent_by a m"
      using over_member [OF 2 net_reach_finite [OF assms(1)]] by (auto simp: sent_out_def)
    obtain r where r: "r \<in> set (s_accepted s)" "m \<in> set (answers (H a) (Some r))"
      using sent_answers [OF net_servers_reach [OF assms(1) s(1)] s(2)] by blast
    have "came_in a r \<in># taken_in a s" using r(1) by (simp add: taken_in_def requests_def)
    then have "came_in a r \<in># over taken_in (nw_servers N)"
      by (rule member_over [OF _ net_reach_finite [OF assms(1)] s(1)])
    then have "came_in a r \<in># nw_outside N + over sent_out (nw_servers N)"
      unfolding bal by simp
    then show ?thesis using s r by (auto simp: sent_by_def)
  qed simp
qed

text \<open>The request of a client at address 9, answered.\<close>

lemma sample_answered:
  "\<exists>N. net_reach sample_handlers N \<and> at_rest sample_handlers N \<and> dom (nw_servers N) = {1, 2} \<and> nw_lost N = {#}
     \<and> nw_outside N = {#\<lparr>dg_from = 9, dg_to = 1, dg_bytes = wire sample_packet\<rparr>#}"
proof -
  let ?d = "\<lparr>dg_from = 9, dg_to = 1, dg_bytes = wire sample_packet\<rparr> :: nat datagram"
  obtain N where N: "net_reach sample_handlers N" "dom (nw_servers N) = {1, 2}" "nw_lost N = {#}" "nw_outside N = {#?d#}"
    using sample_ping [of 9] by blast
  obtain N' where "(net_inner sample_handlers)\<^sup>*\<^sup>* N N'" "at_rest sample_handlers N'"
    using clients_run_to_rest [OF N(1,2)] N(4) by (auto simp: with_client_def)
  then show ?thesis using inner_run_reach [of sample_handlers N N'] N by auto
qed

definition sample_reply :: "nat datagram" where
  "sample_reply = \<lparr>dg_from = 1, dg_to = 9, dg_bytes = wire (pong_packet (replicate 20 1) 0x1234)\<rparr>"

lemma sample_reply_eq:
  "reply (\<lambda>a. replicate 20 (word_of_nat a)) \<lparr>dg_from = 9, dg_to = 1, dg_bytes = wire sample_packet\<rparr> = sample_reply"
  unfolding reply_def sample_reply_def
  by (simp add: packet_of_def sample_packet_parse(2)) (simp add: answer_def sample_packet_def)

theorem network_origin_witness:
  "\<exists>N s r. net_reach sample_handlers N \<and> nw_servers N 1 = Some s \<and> r \<in> set (s_accepted s) \<and> nw_received N = {#sample_reply#}
     \<and> (9, dg_bytes sample_reply) \<in> set (answers (sample_handlers 1) (Some r))"
proof -
  obtain N where N: "net_reach sample_handlers N" "at_rest sample_handlers N" "dom (nw_servers N) = {1, 2}" "nw_lost N = {#}"
    "nw_outside N = {#\<lparr>dg_from = 9, dg_to = 1, dg_bytes = wire sample_packet\<rparr>#}"
    using sample_answered by blast
  have "nw_received N = {#sample_reply#}"
    using client_rest [OF N(1-3)] N(4,5) sample_printable sample_reply_eq by (simp add: client_request_def)
  moreover from this obtain s r where "nw_servers N 1 = Some s" "r \<in> set (s_accepted s)"
    "(9, dg_bytes sample_reply) \<in> set (answers (sample_handlers 1) (Some r))"
    using network_origin [OF N(1), of sample_reply] N(5) by (auto simp: sample_reply_def)
  ultimately show ?thesis using N(1) by blast
qed

text \<open>C11. Clients of a network of nodes are answered exactly once. If everything the outside sends comes from
  addresses without a server, and goes to a server as a packet of at most 82 payload bytes, then the
  network makes only boundedly many steps on its own, whatever it loses; and when it comes to rest and
  nothing was lost, what the clients have received are exactly the answers to the requests sent:
  one for each, from the node it was sent to, with that node's hash.\<close>

theorem network_answers_clients:
  assumes "net_reach (node_handlers hash g gs) N" and "dom (nw_servers N) = A" and "\<forall>a \<in> A. length (hash a) = 20"
    and "\<forall>d \<in># nw_outside N. client_request A d"
  shows "(\<forall>n N'. (net_inner (node_handlers hash g gs) ^^ n) N N' \<longrightarrow> n \<le> net_work A N)
       \<and> (at_rest (node_handlers hash g gs) N \<and> nw_lost N = {#} \<longrightarrow>
            nw_flight N = {#} \<and> nw_received N = image_mset (reply hash) (nw_outside N))"
proof (intro conjI allI impI)
  have "\<forall>d \<in># nw_outside N. with_client A d" using assms(4) by (simp add: client_request_def with_client_def)
  then show "n \<le> net_work A N" if "(net_inner (node_handlers hash g gs) ^^ n) N N'" for n N'
    using client_steps.run_bounded [OF that] assms(1,2) by (simp add: only_clients_def)
qed (use client_rest [OF assms(1) _ assms(2-4)] in blast)+

theorem network_answers_clients_witness:
  "\<exists>N. net_reach sample_handlers N \<and> nw_received N = {#sample_reply#}
     \<and> nw_outside N = {#\<lparr>dg_from = 9, dg_to = 1, dg_bytes = wire sample_packet\<rparr>#}"
proof -
  obtain N where N: "net_reach sample_handlers N" "at_rest sample_handlers N" "dom (nw_servers N) = {1, 2}" "nw_lost N = {#}"
    "nw_outside N = {#\<lparr>dg_from = 9, dg_to = 1, dg_bytes = wire sample_packet\<rparr>#}"
    using sample_answered by blast
  have "nw_received N = {#sample_reply#}"
    using network_answers_clients [OF N(1,3)] N(2,4,5) sample_printable sample_reply_eq by (simp add: client_request_def)
  with N(1,5) show ?thesis by blast
qed

text \<open>C35. Two nodes can be made to answer each other for ever: the answer to a ping is of the type of a ping, and
  the answer to any other packet is a packet, so that one packet whose source address is that of
  another node, or of the node itself, is answered, the answer is answered, and so on. As long as
  nothing is lost the network never comes to rest, and sends more datagrams than any bound.\<close>

theorem network_storm:
  assumes "net_reach (node_handlers hash g gs) N" and "dom (nw_servers N) = A" and "\<forall>a \<in> A. length (hash a) = 20"
    and "\<forall>d \<in># nw_outside N. server_request A d" and "nw_outside N \<noteq> {#}" and "nw_lost N = {#}"
  shows "(\<forall>N'. (net_inner (node_handlers hash g gs))\<^sup>*\<^sup>* N N' \<longrightarrow> \<not> at_rest (node_handlers hash g gs) N')
       \<and> (\<forall>k. \<exists>N'. (net_inner (node_handlers hash g gs))\<^sup>*\<^sup>* N N' \<and> k \<le> size (over sent_out (nw_servers N')))"
proof -
  have "storm hash g gs A N" using assms by (simp add: storm_def)
  then show ?thesis using storm_goes_on [OF storm_run] storm_unbounded unfolding at_rest_def by blast
qed

theorem network_storm_witness:
  "\<exists>N. net_reach sample_handlers N \<and> nw_outside N = {#\<lparr>dg_from = 2, dg_to = 1, dg_bytes = wire sample_packet\<rparr>#}
     \<and> (\<exists>N'. (net_inner sample_handlers)\<^sup>*\<^sup>* N N' \<and> 1000 \<le> size (over sent_out (nw_servers N')))"
proof -
  obtain N where N: "net_reach sample_handlers N" "dom (nw_servers N) = {1, 2}" "nw_lost N = {#}"
    "nw_outside N = {#\<lparr>dg_from = 2, dg_to = 1, dg_bytes = wire sample_packet\<rparr>#}"
    using sample_ping [of 2] by blast
  then show ?thesis
    using network_storm [OF N(1,2)] sample_printable by (auto simp: server_request_def)
qed

end
