(* ===== verification/Startup.thy ===== *)
theory Startup
  imports Main_Program
begin

text \<open>
  The start of the process, statement by statement: \<open>main\<close> (\<open>src/src/main.c\<close>) and \<open>node_new\<close>
  (\<open>src/src/node/node.c\<close>) on the main thread, while the worker threads that
  \<open>udp_server_new\<close> has created are running already, and signals arrive.

  The workers are created before the request handler is set, before the command table is filled and
  before \<open>global_node\<close> points to the node, all of which a request would need. Until its handler is
  installed a signal has its default action, which ends the process.

  The results: no worker gets as far as a request before \<open>main\<close> is in the server loop, whatever the
  interleaving; the interleaved start computes what \<open>main_start\<close> computes in one go, and hands over to the
  running process of theory \<open>Process\<close>; and a signal ends the process during the start too.
\<close>

subsection \<open>The main thread\<close>

datatype main_pc =
    M_Args                    \<comment> \<open>before \<open>process_args\<close>\<close>
  | M_Signals "int list"      \<comment> \<open>before the calls of \<open>signal\<close> for these signals\<close>
  | M_Lookup                  \<comment> \<open>before \<open>lookup_table_create\<close>\<close>
  | M_Server                  \<comment> \<open>in \<open>udp_server_new\<close>, before the threads\<close>
  | M_Threads nat             \<comment> \<open>in \<open>udp_server_new\<close>, so many threads created\<close>
  | M_Handler                 \<comment> \<open>before \<open>udp_server_set_request_handler\<close>\<close>
  | M_Client                  \<comment> \<open>before \<open>udp_client_new\<close>\<close>
  | M_Identity                \<comment> \<open>before \<open>load_or_generate_node_id\<close>\<close>
  | M_Hash                    \<comment> \<open>before \<open>SHA1\<close> and the hexadecimal string\<close>
  | M_Store                   \<comment> \<open>before \<open>kv_store_new\<close>\<close>
  | M_Commands                \<comment> \<open>before \<open>load_commands\<close>\<close>
  | M_Global                  \<comment> \<open>back in \<open>main\<close>, before the assignment of \<open>global_node\<close>\<close>
  | M_Seed nat                \<comment> \<open>in the loop over the seeds, at that index\<close>
  | M_Run "nat option"        \<comment> \<open>in the server loop; the seed that answered\<close>
  | M_Exit nat                \<comment> \<open>has called \<open>exit\<close>\<close>

text \<open>The variables of \<open>main\<close> and \<open>node_new\<close> with the globals they set. \<open>v_installed\<close> are the signals with a
  handler, \<open>v_created\<close> the number of worker threads.\<close>

record main_state =
  v_pc :: main_pc
  v_config :: config_t
  v_installed :: "int set"
  v_lookup :: "lookup_table_t option"
  v_server :: "(nat, handler_ptr) udp_server_t"
  v_created :: nat
  v_client :: client_ptr
  v_id :: "byte list"
  v_hash :: "byte list"
  v_hex :: string
  v_node :: node_t
  v_dispatcher :: "command option list"
  v_global :: "byte list option"      \<comment> \<open>the hash of the node \<open>global_node\<close> points to\<close>

text \<open>What the variables hold before they are assigned is that of any state \<open>v\<close>.\<close>

definition main_init :: "main_state \<Rightarrow> main_state" where
  "main_init v = v\<lparr>v_pc := M_Args, v_installed := {}, v_created := 0, v_dispatcher := initial_dispatcher, v_global := None\<rparr>"

definition main_advance :: "(nat \<Rightarrow> byte) \<Rightarrow> (nat \<Rightarrow> char) \<Rightarrow> main_env \<Rightarrow> main_state \<Rightarrow> main_state run" where
  "main_advance g gs env m =
     (case v_pc m of
        M_Args \<Rightarrow>
          run_bind (process_args (m_seed_garbage env) (m_argc env) (m_config env)) (\<lambda>args.
          case args of Exit code \<Rightarrow> Some (Inr (m\<lparr>v_pc := M_Exit code\<rparr>))
          | Config cfg \<Rightarrow> Some (Inr (m\<lparr>v_config := cfg, v_pc := M_Signals [2, 3, 15]\<rparr>)))
      | M_Signals [] \<Rightarrow> Some (Inr (m\<lparr>v_pc := M_Lookup\<rparr>))
      | M_Signals (sig # sigs) \<Rightarrow> Some (Inr (m\<lparr>v_installed := insert sig (v_installed m), v_pc := M_Signals sigs\<rparr>))
      | M_Lookup \<Rightarrow>
          Some (Inr (m\<lparr>v_lookup := lookup_table_create (m_lookup_mem env) (m_lookup_mutex env), v_pc := M_Server\<rparr>))
      | M_Server \<Rightarrow>
          Some (Inr (m\<lparr>v_server := udp_server_new Map.empty (queue_addr (m_node env)) (server_socket (m_node env)) (cfg_port (v_config m)),
                       v_pc := M_Threads 0\<rparr>))
      | M_Threads k \<Rightarrow>
          Some (Inr (if k < WORKERS then m\<lparr>v_created := k + 1, v_pc := M_Threads (k + 1)\<rparr> else m\<lparr>v_pc := M_Handler\<rparr>))
      | M_Handler \<Rightarrow>
          Some (Inr (m\<lparr>v_server := udp_server_set_request_handler (v_server m) (Some Node_Request_Handler), v_pc := M_Client\<rparr>))
      | M_Client \<Rightarrow>
          Some (Inr (m\<lparr>v_client := snd (udp_client_new (client_mem (m_node env)) (client_socket (m_node env)) 1500),
                       v_pc := M_Identity\<rparr>))
      | M_Identity \<Rightarrow>
          Some (Inr (m\<lparr>v_id := fst (snd (load_or_generate_node_id (id_garbage (m_node env)) (id_file (m_node env))
                                           (id_random (m_node env)) (id_writable (m_node env)))),
                       v_pc := M_Hash\<rparr>))
      | M_Hash \<Rightarrow>
          run_bind (SHA1 (v_id m) 20) (\<lambda>result.
          run_bind (Some (mem_read result 0 20)) (\<lambda>hash.
          run_bind (Some (cvt_sha1_to_string gs result)) (\<lambda>string_hash.
          run_bind (Some (mem_write (uninit gs 41) 0 (c_text string_hash @ [NUL]))) (\<lambda>hex.
          Some (Inr (m\<lparr>v_hash := hash, v_hex := hex, v_pc := M_Store\<rparr>))))))
      | M_Store \<Rightarrow>
          Some (Inr (m\<lparr>v_node := \<lparr>node_server = v_server m, node_client = v_client m, node_hash = v_hash m,
                                   hash_hex_string = v_hex m, node_storage = kv_store_new BUCKETS\<rparr>, v_pc := M_Commands\<rparr>))
      | M_Commands \<Rightarrow> Some (Inr (m\<lparr>v_dispatcher := load_commands (v_dispatcher m), v_pc := M_Global\<rparr>))
      | M_Global \<Rightarrow> Some (Inr (m\<lparr>v_global := Some (node_hash (v_node m)), v_pc := M_Seed 0\<rparr>))
      | M_Seed i \<Rightarrow>
          if i < seed_nodes_count (v_config m)
          then if i < length (seed_nodes (v_config m))
               then run_bind (Some (handshake_one g (v_global m) (seed_nodes (v_config m) ! i) (m_seed env (seed_nodes (v_config m) ! i))))
                      (\<lambda>online. Some (Inr (m\<lparr>v_pc := if online then M_Run (Some i) else M_Seed (i + 1)\<rparr>)))
               else Some (Inl Out_Of_Bounds)
          else Some (Inr (m\<lparr>v_pc := M_Run None\<rparr>))
      | M_Run c \<Rightarrow> None
      | M_Exit code \<Rightarrow> None)"

fun main_done :: "main_pc \<Rightarrow> bool" where
  "main_done (M_Run c) = True"
| "main_done (M_Exit code) = True"
| "main_done _ = False"

text \<open>The statements that are left, and the rounds of the loop the thread is in.\<close>

fun main_stage :: "main_pc \<Rightarrow> nat" where
  "main_stage M_Args = 13"
| "main_stage (M_Signals sigs) = 12"
| "main_stage M_Lookup = 11"
| "main_stage M_Server = 10"
| "main_stage (M_Threads k) = 9"
| "main_stage M_Handler = 8"
| "main_stage M_Client = 7"
| "main_stage M_Identity = 6"
| "main_stage M_Hash = 5"
| "main_stage M_Store = 4"
| "main_stage M_Commands = 3"
| "main_stage M_Global = 2"
| "main_stage (M_Seed i) = 1"
| "main_stage (M_Run c) = 0"
| "main_stage (M_Exit code) = 0"

fun main_rounds :: "main_state \<Rightarrow> main_pc \<Rightarrow> nat" where
  "main_rounds m (M_Signals sigs) = length sigs"
| "main_rounds m (M_Threads k) = WORKERS - k"
| "main_rounds m (M_Seed i) = seed_nodes_count (v_config m) - i"
| "main_rounds m _ = 0"

lemmas main_splits = main_pc.split_asm list.split_asm args_outcome.split_asm if_split_asm

lemma main_advance_decreases:
  "main_advance g gs env m = Some (Inr m') \<Longrightarrow>
   (m', m) \<in> measures [\<lambda>m. main_stage (v_pc m), \<lambda>m. main_rounds m (v_pc m)]"
  by (auto simp: main_advance_def run_bind_eq_Some_Inr split: main_splits) (case_tac x; auto)

text \<open>The main thread alone, to the server loop or an \<open>exit\<close>.\<close>

function main_run :: "(nat \<Rightarrow> byte) \<Rightarrow> (nat \<Rightarrow> char) \<Rightarrow> main_env \<Rightarrow> main_state \<Rightarrow> main_state run" where
  "main_run g gs env m =
     (if main_done (v_pc m) then Some (Inr m) else run_bind (main_advance g gs env m) (main_run g gs env))"
  by pat_completeness auto

termination
  by (relation "inv_image (measures [\<lambda>m. main_stage (v_pc m), \<lambda>m. main_rounds m (v_pc m)]) (\<lambda>(g, gs, env, m). m)")
    (use main_advance_decreases in fastforce)+

declare main_run.simps [simp del]


subsection \<open>The main thread alone computes \<open>main_start\<close>\<close>

definition main_result :: "main_state \<Rightarrow> main_outcome" where
  "main_result m =
     (case v_pc m of M_Exit code \<Rightarrow> Main_Exit code
      | M_Run c \<Rightarrow> Serving (v_node m) (v_lookup m) (v_dispatcher m) c)"

abbreviation main_finishes :: "(nat \<Rightarrow> byte) \<Rightarrow> (nat \<Rightarrow> char) \<Rightarrow> main_env \<Rightarrow> main_state \<Rightarrow> main_outcome run" where
  "main_finishes g gs env m \<equiv> run_bind (main_run g gs env m) (\<lambda>m'. Some (Inr (main_result m')))"

lemma main_run_done: "main_done (v_pc m) \<Longrightarrow> main_run g gs env m = Some (Inr m)"
  by (simp add: main_run.simps [of g gs env m])

lemma main_run_step: "\<not> main_done (v_pc m) \<Longrightarrow> main_run g gs env m = run_bind (main_advance g gs env m) (main_run g gs env)"
  by (simp add: main_run.simps [of g gs env m])

lemma main_run_ends: "main_run g gs env m = Some (Inr m') \<Longrightarrow> main_done (v_pc m')"
proof (induction g gs env m rule: main_run.induct)
  case (1 g gs env m)
  then show ?case
    by (cases "main_done (v_pc m)") (auto simp: main_run_done main_run_step run_bind_eq_Some_Inr)
qed

lemma signals_run:
  "v_pc m = M_Signals sigs \<Longrightarrow>
   main_run g gs env m = main_run g gs env (m\<lparr>v_installed := set sigs \<union> v_installed m, v_pc := M_Lookup\<rparr>)"
  by (induction sigs arbitrary: m) (simp_all add: main_run_step main_advance_def)

lemma threads_run:
  "v_pc m = M_Threads k \<Longrightarrow> k \<le> WORKERS \<Longrightarrow> v_created m = k \<Longrightarrow>
   main_run g gs env m = main_run g gs env (m\<lparr>v_created := WORKERS, v_pc := M_Handler\<rparr>)"
proof (induction "WORKERS - k" arbitrary: k m)
  case 0
  then have e: "m\<lparr>v_created := WORKERS, v_pc := M_Handler\<rparr> = m\<lparr>v_pc := M_Handler\<rparr>" by (cases m) simp
  show ?case unfolding e using 0 by (simp add: main_run_step [of m] main_advance_def)
next
  case (Suc n)
  then have "n = WORKERS - (k + 1)" "k < WORKERS" by simp_all
  with Suc.hyps(1) [of "k + 1" "m\<lparr>v_created := k + 1, v_pc := M_Threads (k + 1)\<rparr>"] Suc.prems show ?case
    by (simp add: main_run_step [of m] main_advance_def)
qed

lemma seeds_run:
  assumes "v_pc m = M_Seed i" "i \<le> seed_nodes_count (v_config m)" "seed_nodes_count (v_config m) \<le> length (seed_nodes (v_config m))"
  shows "main_finishes g gs env m =
     run_bind (Some (handshake g (v_global m) (m_seed env) i (drop i (take (seed_nodes_count (v_config m)) (seed_nodes (v_config m))))))
       (\<lambda>c. Some (Inr (Serving (v_node m) (v_lookup m) (v_dispatcher m) c)))"
  using assms
proof (induction "seed_nodes_count (v_config m) - i" arbitrary: i m)
  case 0
  then show ?case by (simp add: main_run_step [of m] main_advance_def main_run_done main_result_def)
next
  case (Suc n)
  let ?c = "seed_nodes_count (v_config m)" and ?ss = "seed_nodes (v_config m)"
  have i: "i < ?c" "i < length ?ss" "n = ?c - (i + 1)" using Suc.hyps(2) Suc.prems(3) by simp_all
  have d: "drop i (take ?c ?ss) = ?ss ! i # drop (Suc i) (take ?c ?ss)"
    using i Suc.prems(3) Cons_nth_drop_Suc [of i "take ?c ?ss"] by simp
  note IH = Suc.hyps(1) [of "m\<lparr>v_pc := M_Seed (i + 1)\<rparr>" "i + 1"]
  show ?case
  proof (cases "handshake_one g (v_global m) (?ss ! i) (m_seed env (?ss ! i))")
    case (Inr online)
    with IH i Suc.prems show ?thesis
      by (cases online) (simp_all add: main_run_step [of m] main_advance_def main_run_done main_result_def d)
  qed (use i Suc.prems in \<open>simp add: main_run_step [of m] main_advance_def d\<close>)
qed

lemma process_args_bounded:
  assumes "process_args garbage argc config = Some (Inr (Config cfg))"
  shows "seed_nodes_count cfg \<le> length (seed_nodes cfg)"
proof -
  obtain content where "config = Some content" "argc \<noteq> 1"
    using assms by (auto simp: process_args_def split: if_splits option.splits)
  then show ?thesis using process_args_total [of garbage argc config] assms by auto
qed


text \<open>The statements of \<open>node_new\<close> one by one.\<close>

lemma straight_run:
  "v_pc m = M_Lookup \<Longrightarrow> main_run g gs env m =
     main_run g gs env (m\<lparr>v_lookup := lookup_table_create (m_lookup_mem env) (m_lookup_mutex env), v_pc := M_Server\<rparr>)"
  "v_pc m = M_Server \<Longrightarrow> main_run g gs env m =
     main_run g gs env (m\<lparr>v_server := udp_server_new Map.empty (queue_addr (m_node env)) (server_socket (m_node env)) (cfg_port (v_config m)),
       v_pc := M_Threads 0\<rparr>)"
  "v_pc m = M_Handler \<Longrightarrow> main_run g gs env m =
     main_run g gs env (m\<lparr>v_server := udp_server_set_request_handler (v_server m) (Some Node_Request_Handler), v_pc := M_Client\<rparr>)"
  "v_pc m = M_Client \<Longrightarrow> main_run g gs env m =
     main_run g gs env (m\<lparr>v_client := snd (udp_client_new (client_mem (m_node env)) (client_socket (m_node env)) 1500),
       v_pc := M_Identity\<rparr>)"
  "v_pc m = M_Identity \<Longrightarrow> main_run g gs env m =
     main_run g gs env (m\<lparr>v_id := node_identity (m_node env), v_pc := M_Hash\<rparr>)"
  "v_pc m = M_Store \<Longrightarrow> main_run g gs env m =
     main_run g gs env (m\<lparr>v_node := \<lparr>node_server = v_server m, node_client = v_client m, node_hash = v_hash m,
       hash_hex_string = v_hex m, node_storage = kv_store_new BUCKETS\<rparr>, v_pc := M_Commands\<rparr>)"
  "v_pc m = M_Commands \<Longrightarrow> main_run g gs env m =
     main_run g gs env (m\<lparr>v_dispatcher := load_commands (v_dispatcher m), v_pc := M_Global\<rparr>)"
  "v_pc m = M_Global \<Longrightarrow> main_run g gs env m =
     main_run g gs env (m\<lparr>v_global := Some (node_hash (v_node m)), v_pc := M_Seed 0\<rparr>)"
  by (simp_all add: main_run_step [of m] main_advance_def node_identity_def)

lemma hash_run:
  "v_pc m = M_Hash \<Longrightarrow> main_run g gs env m =
     run_bind (SHA1 (v_id m) 20) (\<lambda>result.
     run_bind (Some (mem_read result 0 20)) (\<lambda>hash.
     run_bind (Some (cvt_sha1_to_string gs result)) (\<lambda>string_hash.
     run_bind (Some (mem_write (uninit gs 41) 0 (c_text string_hash @ [NUL]))) (\<lambda>hex.
     main_run g gs env (m\<lparr>v_hash := hash, v_hex := hex, v_pc := M_Store\<rparr>)))))"
  by (simp add: main_run_step [of m] main_advance_def run_bind_assoc)

lemma config_run:
  assumes "v_pc m = M_Lookup" "v_created m = 0" "v_dispatcher m = initial_dispatcher"
    and "seed_nodes_count (v_config m) \<le> length (seed_nodes (v_config m))"
  shows "main_finishes g gs env m =
     run_bind (node_new gs (m_node env) \<lparr>node_port = cfg_port (v_config m)\<rparr> initial_dispatcher) (\<lambda>(node, dispatcher, idfile).
     run_bind (Some (handshake g (Some (node_hash node)) (m_seed env) 0
                 (take (seed_nodes_count (v_config m)) (seed_nodes (v_config m))))) (\<lambda>connected.
     Some (Inr (Serving node (lookup_table_create (m_lookup_mem env) (m_lookup_mutex env)) dispatcher connected))))"
  using assms
  by (simp add: straight_run threads_run hash_run run_bind_assoc seeds_run)
    (simp add: node_new_def node_identity_def Let_def run_bind_assoc split: prod.split)


lemma args_run:
  "v_pc m = M_Args \<Longrightarrow> main_run g gs env m =
     run_bind (process_args (m_seed_garbage env) (m_argc env) (m_config env)) (\<lambda>args.
     main_run g gs env (case args of Exit code \<Rightarrow> m\<lparr>v_pc := M_Exit code\<rparr>
       | Config cfg \<Rightarrow> m\<lparr>v_config := cfg, v_pc := M_Signals [2, 3, 15]\<rparr>))"
  by (simp add: main_run_step [of m] main_advance_def run_bind_assoc)
    (intro run_bind_cong, auto split: args_outcome.split)

lemma main_run_start: "main_finishes g gs env (main_init v) = main_start g gs env"
proof -
  have "main_finishes g gs env (main_init v) =
      run_bind (process_args (m_seed_garbage env) (m_argc env) (m_config env)) (\<lambda>args.
      main_finishes g gs env (case args of Exit code \<Rightarrow> (main_init v)\<lparr>v_pc := M_Exit code\<rparr>
        | Config cfg \<Rightarrow> (main_init v)\<lparr>v_config := cfg, v_pc := M_Signals [2, 3, 15]\<rparr>))"
    using args_run [of "main_init v"] by (simp add: main_init_def run_bind_assoc)
  also have "\<dots> = main_start g gs env"
    unfolding main_start_def
  proof (rule run_bind_cong [OF refl])
    fix args
    assume a: "process_args (m_seed_garbage env) (m_argc env) (m_config env) = Some (Inr args)"
    show "main_finishes g gs env (case args of Exit code \<Rightarrow> (main_init v)\<lparr>v_pc := M_Exit code\<rparr>
        | Config cfg \<Rightarrow> (main_init v)\<lparr>v_config := cfg, v_pc := M_Signals [2, 3, 15]\<rparr>) =
      (case args of Exit code \<Rightarrow> Some (Inr (Main_Exit code))
       | Config cfg \<Rightarrow>
           let global_lookup = lookup_table_create (m_lookup_mem env) (m_lookup_mutex env) in
           run_bind (node_new gs (m_node env) \<lparr>node_port = cfg_port cfg\<rparr> initial_dispatcher) (\<lambda>(node, dispatcher, idfile).
           run_bind (Some (handshake g (Some (node_hash node)) (m_seed env) 0
                       (take (seed_nodes_count cfg) (seed_nodes cfg)))) (\<lambda>connected.
           Some (Inr (Serving node global_lookup dispatcher connected)))))"
    proof (cases args)
      case (Config cfg)
      with a have "seed_nodes_count cfg \<le> length (seed_nodes cfg)" using process_args_bounded by blast
      with Config show ?thesis
        by (simp add: signals_run config_run main_init_def Let_def)
    qed (simp add: main_run_done main_result_def)
  qed
  finally show ?thesis .
qed

subsection \<open>The process during the start\<close>

record boot =
  bt_main :: main_state
  bt_proc :: "nat process"          \<comment> \<open>the server's state, the signal handlers, the exit status\<close>
  bt_fault :: "c_fault option"      \<comment> \<open>a fault of the main thread\<close>
  bt_killed :: "int option"         \<comment> \<open>ended by the default action of a signal\<close>

abbreviation live :: "boot \<Rightarrow> bool" where
  "live b \<equiv> alive (bt_proc b) \<and> bt_fault b = None \<and> bt_killed b = None \<and> (\<forall>code. v_pc (bt_main b) \<noteq> M_Exit code)"

text \<open>What a worker would call for a request now: the handler behind the pointer as it is set now, on
  the command table and the global node as they are now.\<close>

definition worker_handler :: "(nat \<Rightarrow> byte) \<Rightarrow> (nat \<Rightarrow> char) \<Rightarrow> main_state \<Rightarrow> Udp_Server.handler option" where
  "worker_handler g gs m =
     map_option (\<lambda>p. call_handler p (v_dispatcher m) (v_global m) g gs) (srv_handler (v_server m))"

text \<open>\<open>udp_server_new\<close> puts the server's shared state in place.\<close>

definition shared_after :: "main_state \<Rightarrow> main_state \<Rightarrow> nat process \<Rightarrow> nat process" where
  "shared_after m m' p = (if v_pc m = M_Server then p\<lparr>pr_server := srv_state (v_server m')\<rparr> else p)"

inductive boot_step :: "(nat \<Rightarrow> byte) \<Rightarrow> (nat \<Rightarrow> char) \<Rightarrow> main_env \<Rightarrow> boot \<Rightarrow> boot \<Rightarrow> bool" for g gs env where
  main: "live b \<Longrightarrow> Receiver \<notin> interrupted (bt_proc b) \<Longrightarrow> main_advance g gs env (bt_main b) = Some (Inr m) \<Longrightarrow>
    boot_step g gs env b (b\<lparr>bt_main := m, bt_proc := shared_after (bt_main b) m (bt_proc b)\<rparr>)"
| fault: "live b \<Longrightarrow> Receiver \<notin> interrupted (bt_proc b) \<Longrightarrow> main_advance g gs env (bt_main b) = Some (Inl f) \<Longrightarrow>
    boot_step g gs env b (b\<lparr>bt_fault := Some f\<rparr>)"
| work: "live b \<Longrightarrow> i < v_created (bt_main b) \<Longrightarrow> Worker i \<notin> interrupted (bt_proc b) \<Longrightarrow>
    inner_step (worker_handler g gs (bt_main b)) (pr_server (bt_proc b)) s \<Longrightarrow>
    moved (worker_handler g gs (bt_main b)) (Worker i) (pr_server (bt_proc b)) s \<Longrightarrow>
    boot_step g gs env b (b\<lparr>bt_proc := (bt_proc b)\<lparr>pr_server := s\<rparr>\<rparr>)"
| spurious: "live b \<Longrightarrow> outer_step (pr_server (bt_proc b)) s \<Longrightarrow> s_recv s = s_recv (pr_server (bt_proc b)) \<Longrightarrow>
    boot_step g gs env b (b\<lparr>bt_proc := (bt_proc b)\<lparr>pr_server := s\<rparr>\<rparr>)"
| deliver: "live b \<Longrightarrow> sig \<in> v_installed (bt_main b) \<Longrightarrow> t = Receiver \<or> (\<exists>i < v_created (bt_main b). t = Worker i) \<Longrightarrow>
    (t, sig) \<notin> apsnd sig_number ` set (pr_handlers (bt_proc b)) \<Longrightarrow> in_wait (pr_server (bt_proc b)) t \<longrightarrow> u \<Longrightarrow>
    boot_step g gs env b (b\<lparr>bt_proc := (bt_proc b)\<lparr>pr_handlers := (t, G_Test sig) # pr_handlers (bt_proc b),
      pr_signals := pr_signals (bt_proc b) @ [(t, sig)], pr_unsafe := unsafe_after (bt_proc b) t u\<rparr>\<rparr>)"
| kill: "live b \<Longrightarrow> sig \<in> caught \<Longrightarrow> sig \<notin> v_installed (bt_main b) \<Longrightarrow> boot_step g gs env b (b\<lparr>bt_killed := Some sig\<rparr>)"
| handler: "live b \<Longrightarrow> handler_step (bt_proc b) p \<Longrightarrow> boot_step g gs env b (b\<lparr>bt_proc := p\<rparr>)"

text \<open>The field \<open>pr_server\<close> of the first state stands for no server: no thread is in it.\<close>

definition boot_start :: "main_env \<Rightarrow> main_state \<Rightarrow> boot" where
  "boot_start env v = \<lparr>bt_main = main_init v, bt_proc = process_start (server_start Map.empty (queue_addr (m_node env))),
                       bt_fault = None, bt_killed = None\<rparr>"

inductive boot_reach :: "(nat \<Rightarrow> byte) \<Rightarrow> (nat \<Rightarrow> char) \<Rightarrow> main_env \<Rightarrow> boot \<Rightarrow> bool" for g gs env where
  start: "boot_reach g gs env (boot_start env v)"
| step: "boot_reach g gs env b \<Longrightarrow> boot_step g gs env b b' \<Longrightarrow> boot_reach g gs env b'"

inductive_cases boot_stepE: "boot_step g gs env b b'"

subsection \<open>Nothing to do for the workers\<close>

definition quiet :: "'a server_state \<Rightarrow> bool" where
  "quiet s \<longleftrightarrow> s_crash s = None \<and> s_recv s = P_Recv \<and> xqueue_dequeue (s_queue s) = Inr None
     \<and> s_accepted s = [] \<and> s_taken s = [] \<and> s_served s = [] \<and> s_sent s = []
     \<and> set (s_workers s) \<subseteq> {W_Lock, W_Test, W_Wait, W_Woken}"

lemma quiet_start: "quiet (server_start h a)"
  by (auto simp: quiet_def server_start_def xqueue_new_def xqueue_dequeue_def)

lemma quiet_worker: "quiet s \<Longrightarrow> i < length (s_workers s) \<Longrightarrow> s_workers s ! i \<in> {W_Lock, W_Test, W_Wait, W_Woken}"
  unfolding quiet_def by (meson nth_mem subsetD)

lemma quiet_update:
  "quiet s \<Longrightarrow> w \<in> {W_Lock, W_Test, W_Wait, W_Woken} \<Longrightarrow> quiet (s\<lparr>s_workers := (s_workers s)[i := w], s_lock := l\<rparr>)"
  using set_update_subset_insert [of "s_workers s" i w] by (auto simp: quiet_def)

text \<open>The steps of the workers do not depend on the handler, and leave them without work.\<close>

lemma quiet_inner:
  assumes "quiet s" "inner_step H s s'"
  shows "quiet s' \<and> inner_step H' s s'"
  using assms(2)
proof cases
  case (work_lock i)
  then show ?thesis using quiet_update [OF assms(1)] inner_step.work_lock [of s i H'] by simp
next
  case (work_wait i)
  then show ?thesis using quiet_update [OF assms(1)] inner_step.work_wait [of s i H'] by simp
qed (use assms(1) in \<open>force simp: quiet_def dest: quiet_worker [OF assms(1)]\<close>)+

lemma quiet_spurious:
  assumes "quiet s" "outer_step s s'" "s_recv s' = s_recv s"
  shows "quiet s'"
  using assms(2)
proof cases
  case (spurious i)
  then show ?thesis using quiet_update [OF assms(1), where w = W_Woken and i = i and l = "s_lock s"] by simp
qed (use assms in \<open>simp add: quiet_def\<close>)


subsection \<open>The invariant\<close>

text \<open>The signals that have no handler yet: those whose call of \<open>signal\<close> is still to come.\<close>

fun unhandled :: "main_pc \<Rightarrow> int set" where
  "unhandled M_Args = caught"
| "unhandled (M_Signals sigs) = set sigs"
| "unhandled _ = {}"

definition main_ok :: "main_state \<Rightarrow> bool" where
  "main_ok m \<longleftrightarrow> v_created m \<le> WORKERS \<and> v_installed m \<subseteq> caught
     \<and> (caught \<subseteq> v_installed m \<union> unhandled (v_pc m) \<or> (\<exists>code. v_pc m = M_Exit code))
     \<and> (10 \<le> main_stage (v_pc m) \<longrightarrow> v_created m = 0)
     \<and> (case v_pc m of
          M_Signals sigs \<Rightarrow> set sigs \<subseteq> caught
        | M_Commands \<Rightarrow> node_server (v_node m) = v_server m
        | M_Global \<Rightarrow> node_server (v_node m) = v_server m
        | M_Seed i \<Rightarrow> node_server (v_node m) = v_server m \<and> v_global m = Some (node_hash (v_node m))
        | M_Run c \<Rightarrow> node_server (v_node m) = v_server m \<and> v_global m = Some (node_hash (v_node m))
        | _ \<Rightarrow> True)"

lemma args_advance:
  "main_advance g gs env m = Some (Inr m') \<Longrightarrow> v_pc m = M_Args \<Longrightarrow>
   (\<exists>code. m' = m\<lparr>v_pc := M_Exit code\<rparr>) \<or> (\<exists>cfg. m' = m\<lparr>v_config := cfg, v_pc := M_Signals [2, 3, 15]\<rparr>)"
  by (auto simp: main_advance_def run_bind_eq_Some_Inr) (case_tac x; auto)

lemma seed_advance:
  "main_advance g gs env m = Some (Inr m') \<Longrightarrow> v_pc m = M_Seed i \<Longrightarrow>
   (\<exists>c. m' = m\<lparr>v_pc := M_Run c\<rparr>) \<or> (\<exists>j. m' = m\<lparr>v_pc := M_Seed j\<rparr>)"
  by (auto simp: main_advance_def run_bind_eq_Some_Inr split: if_split_asm)

lemma main_ok_advance:
  assumes "main_advance g gs env m = Some (Inr m')" "main_ok m"
  shows "main_ok m'"
proof (cases "v_pc m")
  case M_Args
  then consider code where "m' = m\<lparr>v_pc := M_Exit code\<rparr>"
    | cfg where "m' = m\<lparr>v_config := cfg, v_pc := M_Signals [2, 3, 15]\<rparr>"
    using args_advance [OF assms(1)] by blast
  then show ?thesis using M_Args assms(2) by cases (simp_all add: main_ok_def caught_def)
next
  case (M_Signals sigs)
  with assms show ?thesis by (cases sigs) (auto simp: main_advance_def main_ok_def)
next
  case (M_Seed i)
  then consider c where "m' = m\<lparr>v_pc := M_Run c\<rparr>" | j where "m' = m\<lparr>v_pc := M_Seed j\<rparr>"
    using seed_advance [OF assms(1)] by blast
  then show ?thesis using M_Seed assms(2) by cases (simp_all add: main_ok_def)
qed (use assms in \<open>clarsimp simp: main_advance_def main_ok_def run_bind_eq_Some_Inr split: if_splits\<close>)+

lemma main_created: "main_advance g gs env m = Some (Inr m') \<Longrightarrow> v_created m' = 0 \<Longrightarrow> v_created m = 0"
  by (auto simp: main_advance_def run_bind_eq_Some_Inr split: main_splits) (case_tac x; auto)

lemma finishes_advance: "main_advance g gs env m = Some (Inr m') \<Longrightarrow> main_finishes g gs env m = main_finishes g gs env m'"
  using main_run_step [of m g gs env] by (cases "v_pc m") (auto simp: main_advance_def)

lemma finishes_fault: "main_advance g gs env m = Some (Inl f) \<Longrightarrow> main_finishes g gs env m = Some (Inl f)"
  using main_run_step [of m g gs env] by (cases "v_pc m") (auto simp: main_advance_def)

abbreviation first_server :: "main_env \<Rightarrow> nat server_state" where
  "first_server env \<equiv> server_start Map.empty (queue_addr (m_node env))"

definition boot_inv :: "(nat \<Rightarrow> byte) \<Rightarrow> (nat \<Rightarrow> char) \<Rightarrow> main_env \<Rightarrow> boot \<Rightarrow> bool" where
  "boot_inv g gs env b \<longleftrightarrow> main_ok (bt_main b) \<and> main_finishes g gs env (bt_main b) = main_start g gs env
     \<and> (\<forall>f. bt_fault b = Some f \<longrightarrow> main_start g gs env = Some (Inl f))
     \<and> (bt_killed b \<noteq> None \<longrightarrow> unhandled (v_pc (bt_main b)) \<noteq> {})
     \<and> quiet (pr_server (bt_proc b)) \<and> (v_created (bt_main b) = 0 \<longrightarrow> pr_server (bt_proc b) = first_server env)
     \<and> (\<forall>H. process_reach H (bt_proc b) \<and> udp_server_run H (first_server env) (pr_server (bt_proc b)))"

lemma boot_inv_start: "boot_inv g gs env (boot_start env v)"
proof -
  have "main_ok (main_init v)" by (simp add: main_ok_def main_init_def)
  moreover have "process_reach H (process_start (first_server env))" for H
    by (intro process_reach.start server_reach.start) simp
  ultimately show ?thesis
    by (simp add: boot_inv_def boot_start_def main_run_start quiet_start udp_server_run_def) (simp add: process_start_def quiet_start)
qed

lemma shared_after_eq:
  assumes "boot_inv g gs env b" "main_advance g gs env (bt_main b) = Some (Inr m)"
  shows "shared_after (bt_main b) m (bt_proc b) = bt_proc b"
proof (cases "v_pc (bt_main b) = M_Server")
  case True
  then have "v_created (bt_main b) = 0" "srv_state (v_server m) = first_server env"
    using assms by (auto simp: boot_inv_def main_ok_def main_advance_def udp_server_new_def)
  with assms(1) show ?thesis by (simp add: shared_after_def boot_inv_def)
qed (simp add: shared_after_def)

lemma boot_inv_server:
  assumes "boot_inv g gs env b" "quiet s" "v_created (bt_main b) \<noteq> 0"
    and "\<And>H. process_step H (bt_proc b) ((bt_proc b)\<lparr>pr_server := s\<rparr>)"
    and "\<And>H. inner_step H (pr_server (bt_proc b)) s \<or> outer_step (pr_server (bt_proc b)) s"
  shows "boot_inv g gs env (b\<lparr>bt_proc := (bt_proc b)\<lparr>pr_server := s\<rparr>\<rparr>)"
  using assms unfolding boot_inv_def udp_server_run_def
  by (auto intro: process_reach.step rtranclp.rtrancl_into_rtrancl)

lemma boot_inv_work:
  assumes "boot_inv g gs env b" "live b" "i < v_created (bt_main b)" "Worker i \<notin> interrupted (bt_proc b)"
    "inner_step H (pr_server (bt_proc b)) s" "moved H (Worker i) (pr_server (bt_proc b)) s"
  shows "boot_inv g gs env (b\<lparr>bt_proc := (bt_proc b)\<lparr>pr_server := s\<rparr>\<rparr>)"
proof -
  have q: "quiet (pr_server (bt_proc b))" using assms(1) by (simp add: boot_inv_def)
  have s: "quiet s" "inner_step H' (pr_server (bt_proc b)) s" for H' using quiet_inner [OF q assms(5)] by auto
  have "moved H' (Worker i) (pr_server (bt_proc b)) s" for H'
    using assms(6) s(1) by (simp add: moved_def quiet_def)
  then have "process_step H' (bt_proc b) ((bt_proc b)\<lparr>pr_server := s\<rparr>)" for H'
    using process_step.server [OF _ s(2)] assms(2,4) by blast
  then show ?thesis using boot_inv_server [OF assms(1) s(1)] s(2) assms(3) by auto
qed

lemma boot_inv_spurious:
  assumes "boot_inv g gs env b" "live b" "outer_step (pr_server (bt_proc b)) s" "s_recv s = s_recv (pr_server (bt_proc b))"
  shows "boot_inv g gs env (b\<lparr>bt_proc := (bt_proc b)\<lparr>pr_server := s\<rparr>\<rparr>)"
proof -
  have q: "quiet (pr_server (bt_proc b))" using assms(1) by (simp add: boot_inv_def)
  have "v_created (bt_main b) \<noteq> 0"
  proof
    assume "v_created (bt_main b) = 0"
    then have "pr_server (bt_proc b) = first_server env" using assms(1) by (simp add: boot_inv_def)
    with assms(3,4) show False by cases (auto simp: server_start_def)
  qed
  then show ?thesis
    using boot_inv_server [OF assms(1) quiet_spurious [OF q assms(3,4)]] assms(2-4) process_step.outside by blast
qed

lemma boot_inv_step:
  assumes "boot_inv g gs env b" "boot_step g gs env b b'"
  shows "boot_inv g gs env b'"
  using assms(2)
proof cases
  case (main m)
  then show ?thesis
    using assms(1) shared_after_eq [OF assms(1) main(4)] main_ok_advance [OF main(4)] finishes_advance [OF main(4)]
      main_created [OF main(4)]
    by (auto simp: boot_inv_def)
next
  case (fault f)
  then show ?thesis using assms(1) finishes_fault [OF fault(4)] by (simp add: boot_inv_def)
next
  case (work i s)
  then show ?thesis using boot_inv_work [OF assms(1)] by blast
next
  case (spurious s)
  then show ?thesis using boot_inv_spurious [OF assms(1)] by blast
next
  case (deliver sig t u)
  have "v_created (bt_main b) \<le> WORKERS" "v_installed (bt_main b) \<subseteq> caught"
    using assms(1) by (simp_all add: boot_inv_def main_ok_def)
  with deliver have "t = Receiver \<or> (\<exists>i < WORKERS. t = Worker i)" "sig \<in> caught" by (auto intro: less_le_trans)
  then have "process_step H (bt_proc b) ((bt_proc b)\<lparr>pr_handlers := (t, G_Test sig) # pr_handlers (bt_proc b),
      pr_signals := pr_signals (bt_proc b) @ [(t, sig)], pr_unsafe := unsafe_after (bt_proc b) t u\<rparr>)" for H
    using deliver by (intro process_step.deliver) auto
  then show ?thesis using assms(1) deliver(1) by (auto simp: boot_inv_def intro: process_reach.step)
next
  case (kill sig)
  then have "unhandled (v_pc (bt_main b)) \<noteq> {}" using assms(1) by (auto simp: boot_inv_def main_ok_def)
  with kill assms(1) show ?thesis by (simp add: boot_inv_def)
next
  case (handler p)
  then show ?thesis
    using assms(1) handler_keeps [OF handler(3)] process_step.handler [OF handler(3)]
    by (auto simp: boot_inv_def intro: process_reach.step)
qed

lemma boot_reach_inv: "boot_reach g gs env b \<Longrightarrow> boot_inv g gs env b"
  by (induction rule: boot_reach.induct) (auto intro: boot_inv_start boot_inv_step)


subsection \<open>The main thread on its own\<close>

text \<open>Without signals and without steps of the workers the main thread comes to the end of its statements.\<close>

lemma boot_main_alone:
  assumes "main_run g gs env (bt_main b) = Some (Inr m)" "boot_reach g gs env b" "live b" "pr_handlers (bt_proc b) = []"
    "pr_signals (bt_proc b) = []"
  shows "\<exists>b'. boot_reach g gs env b' \<and> bt_main b' = m \<and> bt_fault b' = None \<and> bt_killed b' = None
           \<and> alive (bt_proc b') \<and> pr_handlers (bt_proc b') = [] \<and> pr_signals (bt_proc b') = []"
  using assms
proof (induction g gs env "bt_main b" arbitrary: b rule: main_run.induct)
  case (1 g gs env b)
  show ?case
  proof (cases "main_done (v_pc (bt_main b))")
    case True
    with 1(2-) show ?thesis by (auto simp: main_run_done)
  next
    case False
    obtain m1 where m1: "main_advance g gs env (bt_main b) = Some (Inr m1)" "main_run g gs env m1 = Some (Inr m)"
      using 1(2) False by (auto simp: main_run_step run_bind_eq_Some_Inr)
    let ?b = "b\<lparr>bt_main := m1\<rparr>"
    have step: "boot_step g gs env b ?b"
      using boot_step.main [OF 1(4) _ m1(1)] 1(5) shared_after_eq [OF boot_reach_inv [OF 1(3)] m1(1)] by simp
    then have r: "boot_reach g gs env ?b" by (rule boot_reach.step [OF 1(3)])
    show ?thesis
    proof (cases "\<exists>code. v_pc m1 = M_Exit code")
      case True
      then have "m1 = m" using m1(2) by (auto simp: main_run_done)
      then show ?thesis using r 1(4-) by (intro exI [of _ ?b]) simp
    next
      case no_exit: False
      show ?thesis using 1(1) [OF False, of ?b] m1 r 1(4-) no_exit by simp
    qed
  qed
qed

lemma boot_runs:
  assumes "main_start g gs env = Some (Inr (Serving node lookup dispatcher connected))"
  shows "\<exists>b. boot_reach g gs env b \<and> v_pc (bt_main b) = M_Run connected \<and> main_result (bt_main b) = Serving node lookup dispatcher connected
           \<and> live b \<and> pr_handlers (bt_proc b) = [] \<and> pr_signals (bt_proc b) = []"
proof -
  fix v
  have "main_finishes g gs env (main_init v) = Some (Inr (Serving node lookup dispatcher connected))"
    using assms by (simp add: main_run_start)
  then obtain m where m: "main_run g gs env (main_init v) = Some (Inr m)" "main_result m = Serving node lookup dispatcher connected"
    by (auto simp: run_bind_eq_Some_Inr)
  then have "main_done (v_pc m)" using main_run_ends by blast
  with m(2) have pc: "v_pc m = M_Run connected" by (cases "v_pc m") (auto simp: main_result_def)
  have "live (boot_start env v)" by (simp add: boot_start_def process_start_def main_init_def server_start_def)
  then obtain b where "boot_reach g gs env b" "bt_main b = m" "bt_fault b = None" "bt_killed b = None"
    "alive (bt_proc b)" "pr_handlers (bt_proc b) = []" "pr_signals (bt_proc b) = []"
    using boot_main_alone [OF _ boot_reach.start [of g gs env v], of m] m(1) by (auto simp: boot_start_def process_start_def)
  with m(2) pc show ?thesis by auto
qed


subsection \<open>Properties\<close>

text \<open>C13. The interleaved start computes what \<open>main_start\<close> computes: whatever the workers do meanwhile and whatever
  signals arrive, a fault and an \<open>exit\<close> of the main thread are those of \<open>main_start\<close>, and when it comes to the
  server loop the node, the lookup table, the command table and the seed that answered are those of
  \<open>main_start\<close>; the workers now call the node's handler on the full command table and the node, the
  server is in a state that \<open>node_start\<close> comes to, and the process is one of the running processes of
  theory \<open>Process\<close>.\<close>

theorem startup_refines:
  assumes "boot_reach g gs env b"
  shows "(\<forall>f. bt_fault b = Some f \<longrightarrow> main_start g gs env = Some (Inl f))
       \<and> (\<forall>code. v_pc (bt_main b) = M_Exit code \<longrightarrow> main_start g gs env = Some (Inr (Main_Exit code)))
       \<and> (\<forall>c. v_pc (bt_main b) = M_Run c \<longrightarrow>
            main_start g gs env =
              Some (Inr (Serving (v_node (bt_main b)) (v_lookup (bt_main b)) (v_dispatcher (bt_main b)) c))
            \<and> worker_handler g gs (bt_main b) = installed_handler (v_node (bt_main b)) (v_dispatcher (bt_main b)) g gs
            \<and> node_start (v_node (bt_main b)) (v_dispatcher (bt_main b)) g gs (pr_server (bt_proc b))
            \<and> process_reach (worker_handler g gs (bt_main b)) (bt_proc b))"
proof (intro conjI allI impI)
  let ?m = "bt_main b"
  have inv: "main_ok ?m" "main_finishes g gs env ?m = main_start g gs env" "\<And>H. process_reach H (bt_proc b)"
    "\<And>H. udp_server_run H (first_server env) (pr_server (bt_proc b))" "\<And>f. bt_fault b = Some f \<Longrightarrow> main_start g gs env = Some (Inl f)"
    using boot_reach_inv [OF assms] by (simp_all add: boot_inv_def)
  show "main_start g gs env = Some (Inl f)" if "bt_fault b = Some f" for f using inv(5) that .
  show "main_start g gs env = Some (Inr (Main_Exit code))" if "v_pc ?m = M_Exit code" for code
    using inv(2) that by (simp add: main_run_done main_result_def)
  fix c
  assume pc: "v_pc ?m = M_Run c"
  then have node: "node_server (v_node ?m) = v_server ?m" "v_global ?m = Some (node_hash (v_node ?m))"
    using inv(1) by (simp_all add: main_ok_def)
  show serving: "main_start g gs env = Some (Inr (Serving (v_node ?m) (v_lookup ?m) (v_dispatcher ?m) c))"
    using inv(2) pc by (simp add: main_run_done main_result_def)
  show "worker_handler g gs ?m = installed_handler (v_node ?m) (v_dispatcher ?m) g gs"
    using node by (simp add: worker_handler_def installed_handler_def)
  show "node_start (v_node ?m) (v_dispatcher ?m) g gs (pr_server (bt_proc b))"
    using inv(4) main_start_serving [OF serving] by (simp add: node_start_def)
  show "process_reach (worker_handler g gs ?m) (bt_proc b)" by (rule inv(3))
qed

theorem startup_refines_witness:
  "\<exists>b c. boot_reach (\<lambda>_. 0) (\<lambda>_. NUL) sample_main b \<and> v_pc (bt_main b) = M_Run c
     \<and> main_start (\<lambda>_. 0) (\<lambda>_. NUL) sample_main =
         Some (Inr (Serving (v_node (bt_main b)) (v_lookup (bt_main b)) (v_dispatcher (bt_main b)) c))"
proof -
  obtain b c where "boot_reach (\<lambda>_. 0) (\<lambda>_. NUL) sample_main b" "v_pc (bt_main b) = M_Run c"
    using sample_main_serving boot_runs by metis
  then show ?thesis using startup_refines by blast
qed

text \<open>A process in the server loop with a termination signal on the main thread.\<close>

lemma sample_signalled:
  "\<exists>b. boot_reach (\<lambda>_. 0) (\<lambda>_. NUL) sample_main b \<and> live b \<and> pr_handlers (bt_proc b) = [(Receiver, G_Test 15)]
     \<and> pr_signals (bt_proc b) = [(Receiver, 15)] \<and> pr_state (bt_proc b) = NODEST_RUNNING \<and> Receiver \<notin> pr_unsafe (bt_proc b)"
proof -
  obtain b c where b: "boot_reach (\<lambda>_. 0) (\<lambda>_. NUL) sample_main b" "live b" "v_pc (bt_main b) = M_Run c"
    "pr_handlers (bt_proc b) = []" "pr_signals (bt_proc b) = []"
    using sample_main_serving boot_runs by metis
  have "process_reach None (bt_proc b)" "main_ok (bt_main b)" using boot_reach_inv [OF b(1)] by (simp_all add: boot_inv_def)
  then have "pr_state (bt_proc b) = NODEST_RUNNING" "15 \<in> v_installed (bt_main b)"
    using process_reach_inv [of None "bt_proc b"] b(3,5) by (auto simp: sig_inv_def main_ok_def caught_def)
  moreover from this(2) have "boot_step (\<lambda>_. 0) (\<lambda>_. NUL) sample_main b (b\<lparr>bt_proc := (bt_proc b)\<lparr>pr_handlers := (Receiver, G_Test 15) # pr_handlers (bt_proc b),
      pr_signals := pr_signals (bt_proc b) @ [(Receiver, 15)], pr_unsafe := unsafe_after (bt_proc b) Receiver False\<rparr>\<rparr>)"
    using b by (intro boot_step.deliver) (simp_all add: in_wait_def)
  from boot_reach.step [OF b(1) this] have "boot_reach (\<lambda>_. 0) (\<lambda>_. NUL) sample_main (b\<lparr>bt_proc := (bt_proc b)\<lparr>pr_handlers := [(Receiver, G_Test 15)],
      pr_signals := [(Receiver, 15)], pr_unsafe := pr_unsafe (bt_proc b) - {Receiver}\<rparr>\<rparr>)" using b(4,5) by (simp add: unsafe_after_def)
  ultimately show ?thesis using b(2) by (intro exI conjI) (assumption, simp_all)
qed

text \<open>C14. No request is served during the start: although the workers run before the handler, the command table and
  the global node are set, in every state of the start nothing was received, taken or sent, no
  worker has got behind the test of the empty queue, and none has faulted.\<close>

theorem startup_serves_nothing:
  assumes "boot_reach g gs env b"
  shows "s_crash (pr_server (bt_proc b)) = None \<and> s_accepted (pr_server (bt_proc b)) = []
       \<and> s_taken (pr_server (bt_proc b)) = [] \<and> s_served (pr_server (bt_proc b)) = [] \<and> s_sent (pr_server (bt_proc b)) = []
       \<and> set (s_workers (pr_server (bt_proc b))) \<subseteq> {W_Lock, W_Test, W_Wait, W_Woken}"
  using boot_reach_inv [OF assms] by (simp add: boot_inv_def quiet_def)

theorem startup_serves_nothing_witness:
  "\<exists>b. boot_reach (\<lambda>_. 0) (\<lambda>_. NUL) sample_main b \<and> main_done (v_pc (bt_main b)) \<and> s_accepted (pr_server (bt_proc b)) = []"
proof -
  obtain b c where "boot_reach (\<lambda>_. 0) (\<lambda>_. NUL) sample_main b" "v_pc (bt_main b) = M_Run c"
    using sample_main_serving boot_runs by metis
  then show ?thesis using startup_serves_nothing by fastforce
qed

text \<open>C22. A signal ends the process during the start as well: its default action does so only before the calls of
  \<open>signal\<close> are through; once a handler was entered, on the main thread or on a worker, the handlers alone
  make boundedly many steps, and when they can make no more the process has exited with the number
  of a delivered signal, or the call of \<open>exit\<close> was undefined. The latter is so only when a handler has
  interrupted a function that is not async-signal-safe or signals were delivered to two threads.\<close>

theorem startup_shuts_down:
  assumes "boot_reach g gs env b"
  shows "(bt_killed b \<noteq> None \<longrightarrow> v_pc (bt_main b) = M_Args \<or> (\<exists>sigs. v_pc (bt_main b) = M_Signals sigs))
       \<and> (pr_signals (bt_proc b) \<noteq> [] \<and> \<not> pr_undefined (bt_proc b) \<longrightarrow>
            (\<forall>n p. (handler_step ^^ n) (bt_proc b) p \<longrightarrow> n \<le> sig_left (bt_proc b))
            \<and> (\<forall>p. handler_step\<^sup>*\<^sup>* (bt_proc b) p \<and> (\<nexists>p'. handler_step p p') \<longrightarrow>
                 (if pr_undefined p
                  then pr_unsafe (bt_proc b) \<noteq> {} \<or> (\<nexists>t. fst ` set (pr_signals (bt_proc b)) \<subseteq> {t})
                  else \<exists>c \<in> caught. pr_exit p = Some c \<and> c \<in> snd ` set (pr_signals (bt_proc b)))))"
proof (intro conjI impI)
  have inv: "bt_killed b \<noteq> None \<longrightarrow> unhandled (v_pc (bt_main b)) \<noteq> {}" "process_reach None (bt_proc b)"
    "s_crash (pr_server (bt_proc b)) = None"
    using boot_reach_inv [OF assms] by (simp_all add: boot_inv_def quiet_def)
  show "v_pc (bt_main b) = M_Args \<or> (\<exists>sigs. v_pc (bt_main b) = M_Signals sigs)" if "bt_killed b \<noteq> None"
    using inv(1) that by (cases "v_pc (bt_main b)") auto
  assume s: "pr_signals (bt_proc b) \<noteq> [] \<and> \<not> pr_undefined (bt_proc b)"
  note e = process_ends [OF inv(2,3) conjunct2 [OF s] conjunct1 [OF s]]
  show "\<forall>n p. (handler_step ^^ n) (bt_proc b) p \<longrightarrow> n \<le> sig_left (bt_proc b)" by (rule conjunct1 [OF e])
  show "\<forall>p. handler_step\<^sup>*\<^sup>* (bt_proc b) p \<and> (\<nexists>p'. handler_step p p') \<longrightarrow>
      (if pr_undefined p then pr_unsafe (bt_proc b) \<noteq> {} \<or> (\<nexists>t. fst ` set (pr_signals (bt_proc b)) \<subseteq> {t})
       else \<exists>c \<in> caught. pr_exit p = Some c \<and> c \<in> snd ` set (pr_signals (bt_proc b)))"
    using conjunct2 [OF e] by blast
qed


theorem startup_shuts_down_witness:
  "\<exists>b p. boot_reach (\<lambda>_. 0) (\<lambda>_. NUL) sample_main b \<and> pr_signals (bt_proc b) = [(Receiver, 15)]
     \<and> (\<forall>n p. (handler_step ^^ n) (bt_proc b) p \<longrightarrow> n \<le> sig_left (bt_proc b))
     \<and> handler_step\<^sup>*\<^sup>* (bt_proc b) p \<and> pr_exit p = Some 15"
proof -
  obtain b where b: "boot_reach (\<lambda>_. 0) (\<lambda>_. NUL) sample_main b" "live b" "pr_handlers (bt_proc b) = [(Receiver, G_Test 15)]"
    "pr_signals (bt_proc b) = [(Receiver, 15)]" "pr_state (bt_proc b) = NODEST_RUNNING" "Receiver \<notin> pr_unsafe (bt_proc b)"
    using sample_signalled by blast
  obtain p where p: "handler_step\<^sup>*\<^sup>* (bt_proc b) p" "pr_exit p = Some 15"
    using handler_completes [of "bt_proc b" "G_Test 15" NODEST_STOPPING shutdown_text 15 "[]" Receiver "[]"] b(2,3,5,6)
    by (auto simp: sig_run_is_signal_handler signal_handler_def)
  have "pr_signals (bt_proc b) \<noteq> [] \<and> \<not> pr_undefined (bt_proc b)" using b(2,4) by simp
  then have "\<forall>n p. (handler_step ^^ n) (bt_proc b) p \<longrightarrow> n \<le> sig_left (bt_proc b)"
    by (rule startup_shuts_down [OF b(1), THEN conjunct2, THEN mp, THEN conjunct1])
  with b(1,4) p show ?thesis by blast
qed

end
