(* ===== verification/Store_Heap.thy ===== *)
theory Store_Heap
  imports Store "HOL-Library.Disjoint_Sets"
begin

text \<open>
  \<open>src/src/database/store.c\<close> with its pointers: the entries of a bucket are objects of a heap,
  linked by \<open>next\<close>, each with a block of its own for the data. The operations follow the code
  statement by statement; reading, writing or freeing an object that is not allocated is a fault.
  The lemmas show that they compute what the operations on lists in \<open>Store\<close> compute, and
  that no entry and no data block is lost. \<open>fresh\<close> is \<open>malloc\<close>'s choice of address.
\<close>

subsection \<open>The structures\<close>

record entry_node =
  en_key :: "byte list"
  en_length :: nat
  en_data :: nat
  en_next :: "nat option"

datatype kv_block = Entry_Block entry_node | Data_Block "byte list"

type_synonym kv_heap = "nat \<rightharpoonup> kv_block"

record store_mem =
  sm_heap :: kv_heap
  sm_buckets :: "nat option list"
  sm_locks :: "bool list"
  sm_count :: size_t

definition entry_at :: "kv_heap \<Rightarrow> nat \<Rightarrow> entry_node faulty" where
  "entry_at h a = (case h a of Some (Entry_Block n) \<Rightarrow> Inr n | _ \<Rightarrow> Inl Dangling)"

definition data_at :: "kv_heap \<Rightarrow> nat \<Rightarrow> byte list faulty" where
  "data_at h a = (case h a of Some (Data_Block d) \<Rightarrow> Inr d | _ \<Rightarrow> Inl Dangling)"

definition free_block :: "kv_heap \<Rightarrow> nat \<Rightarrow> kv_heap faulty" where
  "free_block h a = (case h a of None \<Rightarrow> Inl Dangling | Some _ \<Rightarrow> Inr (h(a := None)))"

subsection \<open>Operations\<close>

definition kv_store_new_ptr :: "size_t \<Rightarrow> store_mem" where
  "kv_store_new_ptr n =
     \<lparr>sm_heap = Map.empty, sm_buckets = replicate (unat n) None, sm_locks = replicate (unat n) False, sm_count = n\<rparr>"

text \<open>The address of the new entry, and the heap.\<close>

definition kv_entry_new_ptr ::
    "(kv_heap \<Rightarrow> nat) \<Rightarrow> kv_heap \<Rightarrow> byte list \<Rightarrow> byte list \<Rightarrow> nat \<Rightarrow> nat option \<Rightarrow> (nat \<times> kv_heap) faulty" where
  "kv_entry_new_ptr fresh h key dat len nx =
     fault_bind (mem_read dat 0 len) (\<lambda>d.
     fault_bind (mem_read key 0 20) (\<lambda>k.
     let output = fresh h;
         h1 = h(output \<mapsto> Entry_Block \<lparr>en_key = k, en_length = len, en_data = 0, en_next = nx\<rparr>);
         block = fresh h1
     in Inr (output, h1(block \<mapsto> Data_Block d,
               output \<mapsto> Entry_Block \<lparr>en_key = k, en_length = len, en_data = block, en_next = nx\<rparr>))))"

text \<open>The loop of \<open>kv_store_put\<close> from an entry on.\<close>

partial_function (option) put_loop ::
    "(kv_heap \<Rightarrow> nat) \<Rightarrow> byte list \<Rightarrow> byte list \<Rightarrow> nat \<Rightarrow> kv_heap \<Rightarrow> nat \<Rightarrow> kv_heap run" where
  "put_loop fresh result dat len h node =
     run_bind (Some (entry_at h node)) (\<lambda>n.
     if memcmp20 result (en_key n) then Some (Inr h)
     else case en_next n of
            None \<Rightarrow>
              run_bind (Some (kv_entry_new_ptr fresh h result dat len None)) (\<lambda>(entry, h1).
              run_bind (Some (entry_at h1 node)) (\<lambda>n1.
              Some (Inr (h1(node \<mapsto> Entry_Block (n1\<lparr>en_next := Some entry\<rparr>))))))
          | Some nx \<Rightarrow> put_loop fresh result dat len h nx)"

text \<open>The loop of \<open>kv_store_get\<close>: the bytes copied to the new block and their number.\<close>

partial_function (option) get_loop ::
    "byte list \<Rightarrow> kv_heap \<Rightarrow> nat \<Rightarrow> (byte list \<times> nat) option run" where
  "get_loop result h ent =
     run_bind (Some (entry_at h ent)) (\<lambda>n.
     if memcmp20 (en_key n) result
     then run_bind (Some (data_at h (en_data n))) (\<lambda>d.
          run_bind (Some (mem_read d 0 (en_length n))) (\<lambda>c. Some (Inr (Some (c, en_length n)))))
     else case en_next n of None \<Rightarrow> Some (Inr None) | Some nx \<Rightarrow> get_loop result h nx)"

definition sm_lock :: "store_mem \<Rightarrow> nat \<Rightarrow> store_mem run" where
  "sm_lock s i =
     (if i < length (sm_locks s)
      then if sm_locks s ! i then None else Some (Inr (s\<lparr>sm_locks := (sm_locks s)[i := True]\<rparr>))
      else Some (Inl Out_Of_Bounds))"

definition sm_unlock :: "store_mem \<Rightarrow> nat \<Rightarrow> store_mem" where
  "sm_unlock s i = s\<lparr>sm_locks := (sm_locks s)[i := False]\<rparr>"

definition sm_bucket :: "store_mem \<Rightarrow> nat \<Rightarrow> nat option run" where
  "sm_bucket s i = (if i < length (sm_buckets s) then Some (Inr (sm_buckets s ! i)) else Some (Inl Out_Of_Bounds))"

definition kv_store_put_ptr ::
    "(kv_heap \<Rightarrow> nat) \<Rightarrow> store_mem \<Rightarrow> byte list \<Rightarrow> size_t \<Rightarrow> byte list \<Rightarrow> nat \<Rightarrow> store_mem run" where
  "kv_store_put_ptr fresh store key key_size dat len =
     run_bind (SHA1 key (ucast key_size)) (\<lambda>result.
     run_bind (Some (sha1_mod_bucket result (sm_count store))) (\<lambda>bi.
     run_bind (sm_lock store (unat bi)) (\<lambda>s1.
     run_bind (sm_bucket s1 (unat bi)) (\<lambda>p.
     run_bind (case p of
                 None \<Rightarrow>
                   run_bind (Some (kv_entry_new_ptr fresh (sm_heap s1) result dat len None)) (\<lambda>(entry, h).
                   Some (Inr (s1\<lparr>sm_heap := h, sm_buckets := (sm_buckets s1)[unat bi := Some entry]\<rparr>)))
               | Some node \<Rightarrow>
                   run_bind (put_loop fresh result dat len (sm_heap s1) node) (\<lambda>h. Some (Inr (s1\<lparr>sm_heap := h\<rparr>)))) (\<lambda>s2.
     Some (Inr (sm_unlock s2 (unat bi))))))))"

definition kv_store_get_ptr ::
    "store_mem \<Rightarrow> byte list \<Rightarrow> size_t \<Rightarrow> (byte list option \<times> nat \<times> store_mem) run" where
  "kv_store_get_ptr store key key_size =
     run_bind (SHA1 key (ucast key_size)) (\<lambda>result.
     run_bind (Some (sha1_mod_bucket result (sm_count store))) (\<lambda>bi.
     run_bind (sm_lock store (unat bi)) (\<lambda>s1.
     run_bind (sm_bucket s1 (unat bi)) (\<lambda>p.
     case p of
       None \<Rightarrow> Some (Inr (None, 0, sm_unlock s1 (unat bi)))
     | Some ent \<Rightarrow>
         run_bind (get_loop result (sm_heap s1) ent) (\<lambda>r.
         case r of None \<Rightarrow> Some (Inr (None, 0, sm_unlock s1 (unat bi)))
         | Some (d, n) \<Rightarrow> Some (Inr (Some d, n, sm_unlock s1 (unat bi))))))))"

text \<open>\<open>kv_store_destroy\<close>: what is left of the heap. \<open>e->next\<close> is read before the entry is
  freed; the mutex of the bucket is destroyed after its chain.\<close>

definition kv_entry_destroy_ptr :: "kv_heap \<Rightarrow> nat \<Rightarrow> kv_heap faulty" where
  "kv_entry_destroy_ptr h a =
     fault_bind (entry_at h a) (\<lambda>n. fault_bind (free_block h (en_data n)) (\<lambda>h1. free_block h1 a))"

partial_function (option) destroy_chain :: "kv_heap \<Rightarrow> nat option \<Rightarrow> kv_heap run" where
  "destroy_chain h e =
     (case e of None \<Rightarrow> Some (Inr h)
      | Some p \<Rightarrow>
          run_bind (Some (entry_at h p)) (\<lambda>n.
          run_bind (Some (kv_entry_destroy_ptr h p)) (\<lambda>h1. destroy_chain h1 (en_next n))))"

fun destroy_buckets :: "store_mem \<Rightarrow> nat \<Rightarrow> nat \<Rightarrow> kv_heap \<Rightarrow> kv_heap run" where
  "destroy_buckets s i 0 h = Some (Inr h)"
| "destroy_buckets s i (Suc k) h =
     run_bind (sm_bucket s i) (\<lambda>e.
     run_bind (destroy_chain h e) (\<lambda>h1.
     if i < length (sm_locks s) then destroy_buckets s (Suc i) k h1 else Some (Inl Out_Of_Bounds)))"

definition kv_store_destroy_ptr :: "store_mem \<Rightarrow> kv_heap run" where
  "kv_store_destroy_ptr s = destroy_buckets s 0 (unat (sm_count s)) (sm_heap s)"

subsection \<open>Chains\<close>

text \<open>An entry is known by its own address and that of its data.\<close>

fun en_chain :: "kv_heap \<Rightarrow> nat option \<Rightarrow> (nat \<times> nat) list \<Rightarrow> bool" where
  "en_chain h p [] = (p = None)"
| "en_chain h p ((a, d) # as) =
     (p = Some a \<and> (\<exists>n x. h a = Some (Entry_Block n) \<and> en_data n = d \<and> h d = Some (Data_Block x)
        \<and> en_chain h (en_next n) as))"

definition addrs :: "(nat \<times> nat) list \<Rightarrow> nat list" where
  "addrs as = concat (map (\<lambda>(a, d). [a, d]) as)"

lemma addrs_simps [simp]:
  "addrs [] = []" "addrs ((a, d) # as) = a # d # addrs as" "addrs (as @ bs) = addrs as @ addrs bs"
  by (simp_all add: addrs_def)

definition entry_of :: "kv_heap \<Rightarrow> nat \<times> nat \<Rightarrow> kv_entry_t" where
  "entry_of h ad =
     (case (h (fst ad), h (snd ad)) of
        (Some (Entry_Block n), Some (Data_Block x)) \<Rightarrow> \<lparr>entry_key = en_key n, data_length = en_length n, entry_data = x\<rparr>
      | _ \<Rightarrow> \<lparr>entry_key = [], data_length = 0, entry_data = []\<rparr>)"

lemma en_chain_cong:
  "(\<And>c. c \<in> set (addrs as) \<Longrightarrow> h' c = h c) \<Longrightarrow> en_chain h' p as = en_chain h p as"
  by (induction as arbitrary: p rule: list.induct) auto

lemma addrs_in: "(a, d) \<in> set as \<Longrightarrow> a \<in> set (addrs as) \<and> d \<in> set (addrs as)"
  by (induction as) auto

lemma entry_of_cong: "h' a = h a \<Longrightarrow> h' d = h d \<Longrightarrow> entry_of h' (a, d) = entry_of h (a, d)"
  by (simp add: entry_of_def)

lemma entries_cong:
  "(\<And>c. c \<in> set (addrs as) \<Longrightarrow> h' c = h c) \<Longrightarrow> map (entry_of h') as = map (entry_of h) as"
  by (auto intro!: entry_of_cong dest: addrs_in)

lemma en_chain_alive: "en_chain h p as \<Longrightarrow> set (addrs as) \<subseteq> dom h"
  by (induction h p as rule: en_chain.induct) auto

text \<open>The entries from a pointer on.\<close>

partial_function (option) entries_from :: "kv_heap \<Rightarrow> nat option \<Rightarrow> kv_entry_t list option" where
  "entries_from h p =
     (case p of None \<Rightarrow> Some []
      | Some a \<Rightarrow>
          (case h a of Some (Entry_Block n) \<Rightarrow>
             Option.bind (entries_from h (en_next n)) (\<lambda>es. Some (entry_of h (a, en_data n) # es))
           | _ \<Rightarrow> None))"

lemma entries_from_eq: "en_chain h p as \<Longrightarrow> entries_from h p = Some (map (entry_of h) as)"
proof (induction h p as rule: en_chain.induct)
  case (1 h p)
  then show ?case by (subst entries_from.simps) simp
next
  case (2 h p a d as)
  then show ?case by (subst entries_from.simps) auto
qed

text \<open>A chain that an operation has left alone, or to which it has added one entry at the end.\<close>

definition grown :: "kv_heap \<Rightarrow> kv_heap \<Rightarrow> (nat \<times> nat) list \<Rightarrow> (nat \<times> nat) list \<Rightarrow> bool" where
  "grown h h' as as' \<longleftrightarrow> h' = h \<and> as' = as \<or>
     (\<exists>a d. as' = as @ [(a, d)] \<and> a \<noteq> d \<and> h a = None \<and> h d = None \<and> dom h' = insert a (insert d (dom h))
        \<and> (\<forall>c. c \<notin> set (addrs as) \<longrightarrow> c \<noteq> a \<longrightarrow> c \<noteq> d \<longrightarrow> h' c = h c))"

lemma grown_same: "grown h h' as as' \<Longrightarrow> c \<notin> set (addrs as) \<Longrightarrow> c \<in> dom h \<Longrightarrow> h' c = h c"
  by (auto simp: grown_def)

lemma grown_Cons: "grown h h' as as' \<Longrightarrow> grown h h' (x # as) (x # as')"
  by (cases x) (auto simp: grown_def)

locale kv_allocator = allocator fresh for fresh :: "kv_heap \<Rightarrow> nat"
begin

lemma entry_new_ok:
  assumes "finite (dom h)" "length key = 20" "len \<le> length dat"
  obtains a d where "a \<noteq> d" "h a = None" "h d = None"
    "kv_entry_new_ptr fresh h key dat len nx =
       Inr (a, h(a \<mapsto> Entry_Block \<lparr>en_key = key, en_length = len, en_data = d, en_next = nx\<rparr>,
                 d \<mapsto> Data_Block (take len dat)))"
proof -
  let ?a = "fresh h"
  let ?h1 = "h(?a \<mapsto> Entry_Block \<lparr>en_key = key, en_length = len, en_data = 0, en_next = nx\<rparr>)"
  have a: "h ?a = None" "?h1 (fresh ?h1) = None"
    using fresh_free [of h] fresh_free [of ?h1] assms(1) by simp_all
  then have "?a \<noteq> fresh ?h1" "h (fresh ?h1) = None" by (auto split: if_splits)
  then show ?thesis
    using that [of ?a "fresh ?h1"] a assms(2,3)
    by (simp add: kv_entry_new_ptr_def mem_read_def Let_def fun_upd_twist)
qed

text \<open>The last entry of a chain: the new one is linked behind it.\<close>

lemma put_loop_last:
  assumes n: "h x = Some (Entry_Block n)" "en_data n = d0" "h d0 = Some (Data_Block v)" "en_next n = None" "x \<noteq> d0"
    and "\<not> memcmp20 result (en_key n)" "finite (dom h)" "length result = 20" "len \<le> length dat"
  shows "\<exists>h' as'. put_loop fresh result dat len h x = Some (Inr h') \<and> en_chain h' (Some x) as'
           \<and> kv_put_walk result dat len (entry_of h (x, d0)) [] = Inr (map (entry_of h') as') \<and> grown h h' [(x, d0)] as'"
proof -
  obtain a d where a: "a \<noteq> d" "h a = None" "h d = None"
    "kv_entry_new_ptr fresh h result dat len None =
       Inr (a, h(a \<mapsto> Entry_Block \<lparr>en_key = result, en_length = len, en_data = d, en_next = None\<rparr>,
                 d \<mapsto> Data_Block (take len dat)))"
    by (rule entry_new_ok [OF assms(7-9)])
  let ?h = "h(a \<mapsto> Entry_Block \<lparr>en_key = result, en_length = len, en_data = d, en_next = None\<rparr>,
              d \<mapsto> Data_Block (take len dat), x \<mapsto> Entry_Block (n\<lparr>en_next := Some a\<rparr>))"
  have ne: "x \<noteq> a" "x \<noteq> d" "d0 \<noteq> a" "d0 \<noteq> d" using n a(2,3) by auto
  have "put_loop fresh result dat len h x = Some (Inr ?h)"
    using assms(6) n a(4) ne by (subst put_loop.simps) (simp add: entry_at_def)
  moreover have "en_chain ?h (Some x) [(x, d0), (a, d)]" using n ne a(1) by auto
  moreover have "kv_put_walk result dat len (entry_of h (x, d0)) [] = Inr (map (entry_of ?h) [(x, d0), (a, d)])"
    using assms(6,8,9) n ne a(1)
    by (simp add: kv_put_walk.simps [of result dat len _ "[]"] kv_entry_new_def mem_read_def entry_of_def)
  moreover have dom: "dom ?h = insert a (insert d (dom h))" using n(1) by auto
  have rest: "\<forall>c. c \<notin> set (addrs [(x, d0)]) \<longrightarrow> c \<noteq> a \<longrightarrow> c \<noteq> d \<longrightarrow> ?h c = h c" by simp
  have "grown h ?h [(x, d0)] [(x, d0), (a, d)]"
    unfolding grown_def by (intro disjI2 exI [of _ a] exI [of _ d] conjI a(1-3) dom rest) simp
  ultimately show ?thesis by blast
qed

lemma put_loop_chain:
  assumes "en_chain h (Some x) as" "distinct (addrs as)" "finite (dom h)" "length result = 20" "len \<le> length dat"
  shows "\<exists>h' as'. put_loop fresh result dat len h x = Some (Inr h') \<and> en_chain h' (Some x) as'
           \<and> kv_put_walk result dat len (entry_of h (hd as)) (map (entry_of h) (tl as)) = Inr (map (entry_of h') as')
           \<and> grown h h' as as'"
  using assms(1,2)
proof (induction as arbitrary: x)
  case (Cons ad as)
  obtain d0 n v where n: "ad = (x, d0)" "h x = Some (Entry_Block n)" "en_data n = d0" "h d0 = Some (Data_Block v)"
    "en_chain h (en_next n) as"
    using Cons.prems(1) by (cases ad) auto
  let ?e = "\<lparr>entry_key = en_key n, data_length = en_length n, entry_data = v\<rparr>"
  have e: "entry_of h (x, d0) = ?e" using n by (simp add: entry_of_def)
  note loop = put_loop.simps [of fresh result dat len h x] and walk = kv_put_walk.simps [of result dat len ?e]
  consider "memcmp20 result (en_key n)" | "\<not> memcmp20 result (en_key n)" "as = []"
    | y d1 rest where "\<not> memcmp20 result (en_key n)" "as = (y, d1) # rest"
    by (cases as) auto
  then show ?case
  proof cases
    case 1
    then show ?thesis
      using n e Cons.prems(1) by (intro exI [of _ h] exI [of _ "ad # as"]) (simp add: loop walk entry_at_def grown_def)
  next
    case 2
    then show ?thesis
      using put_loop_last [OF n(2,3,4), of result len dat] n(1,5) Cons.prems(2) assms(3-5) by simp
  next
    case (3 y d1 rest)
    obtain h' as' where IH: "put_loop fresh result dat len h y = Some (Inr h')" "en_chain h' (Some y) as'"
      "kv_put_walk result dat len (entry_of h (y, d1)) (map (entry_of h) rest) = Inr (map (entry_of h') as')"
      "grown h h' as as'"
      using Cons.IH [of y] 3 n Cons.prems(2) by auto
    have "x \<notin> set (addrs as)" "d0 \<notin> set (addrs as)" using Cons.prems(2) n(1) by auto
    then have same: "h' x = h x" "h' d0 = h d0" using grown_same [OF IH(4)] n(2,4) by (metis domI)+
    have nx: "en_next n = Some y" using n(5) 3(2) by simp
    have "put_loop fresh result dat len h x = Some (Inr h')" using 3 n nx IH(1) by (simp add: loop entry_at_def)
    moreover have "en_chain h' (Some x) (ad # as')" using n same nx IH(2) by simp
    moreover have "entry_of h' (x, d0) = entry_of h (x, d0)" using same by (rule entry_of_cong)
    then have "kv_put_walk result dat len (entry_of h ad) (map (entry_of h) as) = Inr (map (entry_of h') (ad # as'))"
      using 3 n(1) e IH(3) by (simp add: walk)
    ultimately show ?thesis using grown_Cons [OF IH(4)] by (intro exI [of _ h'] exI [of _ "ad # as'"]) simp
  qed
qed simp

text \<open>The body of \<open>kv_store_put\<close> under the mutex, for one bucket.\<close>

lemma bucket_put_ptr:
  assumes "en_chain h p as" "distinct (addrs as)" "finite (dom h)" "length result = 20" "len \<le> length dat"
  shows "\<exists>h' p' as'. (case p of
             None \<Rightarrow> run_bind (Some (kv_entry_new_ptr fresh h result dat len None)) (\<lambda>(entry, h1). Some (Inr (Some entry, h1)))
           | Some node \<Rightarrow> run_bind (put_loop fresh result dat len h node) (\<lambda>h1. Some (Inr (p, h1)))) = Some (Inr (p', h'))
           \<and> en_chain h' p' as' \<and> kv_bucket_put result dat len (map (entry_of h) as) = Inr (map (entry_of h') as')
           \<and> grown h h' as as'"
proof (cases p)
  case None
  then have "as = []" using assms(1) by (cases as) auto
  obtain a d where a: "a \<noteq> d" "h a = None" "h d = None"
    "kv_entry_new_ptr fresh h result dat len None =
       Inr (a, h(a \<mapsto> Entry_Block \<lparr>en_key = result, en_length = len, en_data = d, en_next = None\<rparr>,
                 d \<mapsto> Data_Block (take len dat)))"
    by (rule entry_new_ok [OF assms(3-5)])
  let ?h = "h(a \<mapsto> Entry_Block \<lparr>en_key = result, en_length = len, en_data = d, en_next = None\<rparr>,
              d \<mapsto> Data_Block (take len dat))"
  have "en_chain ?h (Some a) [(a, d)]" using a(1) by simp
  moreover have "kv_bucket_put result dat len [] = Inr (map (entry_of ?h) [(a, d)])"
    using assms(4,5) a(1) by (simp add: kv_bucket_put_def kv_entry_new_def mem_read_def entry_of_def)
  moreover have dom: "dom ?h = insert a (insert d (dom h))" by auto
  have rest: "\<forall>c. c \<notin> set (addrs []) \<longrightarrow> c \<noteq> a \<longrightarrow> c \<noteq> d \<longrightarrow> ?h c = h c" by simp
  have "grown h ?h [] [(a, d)]"
    unfolding grown_def by (intro disjI2 exI [of _ a] exI [of _ d] conjI a(1-3) dom rest) simp
  ultimately show ?thesis
    unfolding None \<open>as = []\<close> list.map(1) option.case a(4) run_bind_simps prod.case by blast
next
  case (Some node)
  then obtain ad as1 where as: "as = ad # as1" using assms(1) by (cases as) auto
  obtain h' as' where "put_loop fresh result dat len h node = Some (Inr h')" "en_chain h' (Some node) as'"
    "kv_put_walk result dat len (entry_of h ad) (map (entry_of h) as1) = Inr (map (entry_of h') as')" "grown h h' as as'"
    using put_loop_chain [of h node as result len dat] assms Some as by auto
  then show ?thesis unfolding Some option.case as by (auto simp: kv_bucket_put_def)
qed

end

lemma get_loop_chain:
  "en_chain h (Some x) as \<Longrightarrow>
   get_loop result h x = Some (kv_get_walk result (entry_of h (hd as)) (map (entry_of h) (tl as)))"
proof (induction as arbitrary: x)
  case (Cons ad as)
  obtain d0 n v where n: "ad = (x, d0)" "h x = Some (Entry_Block n)" "en_data n = d0" "h d0 = Some (Data_Block v)"
    "en_chain h (en_next n) as"
    using Cons.prems by (cases ad) auto
  let ?e = "\<lparr>entry_key = en_key n, data_length = en_length n, entry_data = v\<rparr>"
  have e: "entry_of h (x, d0) = ?e" using n by (simp add: entry_of_def)
  note walk = kv_get_walk.simps [of result ?e] and loop = get_loop.simps [of result h x]
  show ?case
  proof (cases as)
    case Nil
    then show ?thesis
      using n e by (cases "mem_read v 0 (en_length n)") (simp_all add: loop walk entry_at_def data_at_def)
  next
    case (Cons yd rest)
    then obtain y where "en_next n = Some y" using n(5) by (cases yd) auto
    with Cons show ?thesis
      using n e Cons.IH [of y] by (cases "mem_read v 0 (en_length n)") (simp_all add: loop walk entry_at_def data_at_def)
  qed
qed simp

lemma destroy_chain_frees:
  "en_chain h p as \<Longrightarrow> distinct (addrs as) \<Longrightarrow> destroy_chain h p = Some (Inr (h |` (- set (addrs as))))"
proof (induction as arbitrary: h p)
  case Nil
  then show ?case by (subst destroy_chain.simps) (simp add: restrict_map_def)
next
  case (Cons ad as)
  obtain a d n v where n: "ad = (a, d)" "p = Some a" "h a = Some (Entry_Block n)" "en_data n = d" "h d = Some (Data_Block v)"
    "en_chain h (en_next n) as"
    using Cons.prems(1) by (cases ad) auto
  let ?h = "h(d := None, a := None)"
  have "a \<noteq> d" "a \<notin> set (addrs as)" "d \<notin> set (addrs as)" using Cons.prems(2) n(1) by auto
  then have "kv_entry_destroy_ptr h a = Inr ?h"
    using n by (simp add: kv_entry_destroy_ptr_def entry_at_def free_block_def)
  moreover have "en_chain ?h (en_next n) as"
    using n(6) \<open>a \<notin> _\<close> \<open>d \<notin> _\<close> by (subst en_chain_cong [of as ?h h]) auto
  then have "destroy_chain ?h (en_next n) = Some (Inr (?h |` (- set (addrs as))))"
    by (rule Cons.IH) (use Cons.prems(2) n(1) in simp)
  moreover have "?h |` (- set (addrs as)) = h |` (- set (addrs (ad # as)))"
    by (rule ext) (simp add: n(1) restrict_map_def)
  ultimately show ?case using n(2,3) by (subst destroy_chain.simps) (simp add: entry_at_def)
qed

subsection \<open>The whole array of buckets\<close>

text \<open>\<open>F\<close> gives the addresses of every chain. The chains are apart from one another, and
  together they are all the memory there is.\<close>

definition chains :: "kv_heap \<Rightarrow> nat option list \<Rightarrow> (nat \<Rightarrow> (nat \<times> nat) list) \<Rightarrow> bool" where
  "chains h bs F \<longleftrightarrow>
     (\<forall>i < length bs. en_chain h (bs ! i) (F i) \<and> distinct (addrs (F i)))
     \<and> disjoint_family_on (\<lambda>i. set (addrs (F i))) {..<length bs}
     \<and> dom h = (\<Union>i<length bs. set (addrs (F i)))"

definition sm_ok :: "store_mem \<Rightarrow> bool" where
  "sm_ok S \<longleftrightarrow> (\<exists>F. chains (sm_heap S) (sm_buckets S) F)"

definition sm_view :: "store_mem \<Rightarrow> kv_store_t" where
  "sm_view S = \<lparr>buckets = map (\<lambda>p. the (entries_from (sm_heap S) p)) (sm_buckets S),
                bucket_locks = sm_locks S, bucket_count = sm_count S\<rparr>"

lemma sm_view_simps [simp]:
  "length (buckets (sm_view S)) = length (sm_buckets S)"
  "bucket_locks (sm_view S) = sm_locks S" "bucket_count (sm_view S) = sm_count S"
  by (simp_all add: sm_view_def)

lemma chains_finite: "chains h bs F \<Longrightarrow> finite (dom h)"
  by (simp add: chains_def)

lemma chains_bucket: "chains h bs F \<Longrightarrow> i < length bs \<Longrightarrow> en_chain h (bs ! i) (F i) \<and> distinct (addrs (F i))"
  by (simp add: chains_def)

lemma chains_apart:
  "chains h bs F \<Longrightarrow> i < length bs \<Longrightarrow> j < length bs \<Longrightarrow> i \<noteq> j \<Longrightarrow> set (addrs (F i)) \<inter> set (addrs (F j)) = {}"
  by (auto simp: chains_def disjoint_family_on_def)

lemma sm_view_bucket:
  "chains (sm_heap S) (sm_buckets S) F \<Longrightarrow> i < length (sm_buckets S) \<Longrightarrow>
   buckets (sm_view S) ! i = map (entry_of (sm_heap S)) (F i)"
  using entries_from_eq [of "sm_heap S" "sm_buckets S ! i" "F i"] by (simp add: chains_bucket sm_view_def)

text \<open>What an operation on one bucket leaves of the others.\<close>

lemma chains_grown:
  assumes ch: "chains h bs F" and i: "i < length bs"
    and g: "grown h h' (F i) as'" and new: "en_chain h' p' as'"
  shows "chains h' (bs[i := p']) (F(i := as'))"
    and "j < length bs \<Longrightarrow> j \<noteq> i \<Longrightarrow> map (entry_of h') (F j) = map (entry_of h) (F j)"
proof -
  have same: "h' c = h c" if "j < length bs" "j \<noteq> i" "c \<in> set (addrs (F j))" for j c
  proof (rule grown_same [OF g])
    show "c \<notin> set (addrs (F i))" using chains_apart [OF ch that(1) i that(2)] that(3) by auto
    show "c \<in> dom h" using en_chain_alive chains_bucket [OF ch that(1)] that(3) by blast
  qed
  then show "j < length bs \<Longrightarrow> j \<noteq> i \<Longrightarrow> map (entry_of h') (F j) = map (entry_of h) (F j)"
    by (intro entries_cong) auto
  have other: "en_chain h' (bs ! j) (F j)" if "j < length bs" "j \<noteq> i" for j
    using en_chain_cong [of "F j" h' h] same that chains_bucket [OF ch that(1)] by auto
  have dom: "dom h = (\<Union>i<length bs. set (addrs (F i)))" using ch by (simp add: chains_def)
  consider "h' = h" "as' = F i"
    | a d where "as' = F i @ [(a, d)]" "a \<noteq> d" "h a = None" "h d = None" "dom h' = insert a (insert d (dom h))"
    using g by (auto simp: grown_def)
  then show "chains h' (bs[i := p']) (F(i := as'))"
  proof cases
    case 1
    then show ?thesis using ch i new by (auto simp: chains_def nth_list_update)
  next
    case 2
    have out: "a \<notin> set (addrs (F j))" "d \<notin> set (addrs (F j))" if "j < length bs" for j
      using dom that 2(3,4) by (metis UN_I domIff lessThan_iff)+
    have "distinct (addrs as')" using 2 out [OF i] chains_bucket [OF ch i] by simp
    moreover have "disjoint_family_on (\<lambda>j. set (addrs ((F(i := as')) j))) {..<length bs}"
      using ch out i unfolding chains_def disjoint_family_on_def 2(1) by auto
    moreover have "dom h' = (\<Union>j<length bs. set (addrs ((F(i := as')) j)))"
      unfolding 2(5) dom using i 2(1) by (auto split: if_splits)
    ultimately show ?thesis
      using new other chains_bucket [OF ch] by (auto simp: chains_def nth_list_update)
  qed
qed

lemma chains_new: "chains Map.empty (replicate n None) (\<lambda>_. [])"
  by (simp add: chains_def disjoint_family_on_def)

lemma sm_ok_new: "sm_ok (kv_store_new_ptr n)"
  using chains_new by (auto simp: sm_ok_def kv_store_new_ptr_def)

lemma sm_view_new: "sm_view (kv_store_new_ptr n) = kv_store_new n"
  by (simp add: sm_view_def kv_store_new_ptr_def kv_store_new_def entries_from.simps [of _ None])

lemma sm_same:
  "sm_buckets S ! i = p \<Longrightarrow> S\<lparr>sm_heap := h, sm_buckets := (sm_buckets S)[i := p]\<rparr> = S\<lparr>sm_heap := h\<rparr>"
  by (cases S) auto

subsection \<open>The operations follow those on lists\<close>

context kv_allocator
begin

lemma put_ptr_refines:
  assumes ok: "sm_ok S" and wf: "kv_wf (sm_view S)"
    and key: "unat (ucast key_size :: u32) \<le> length key" and dat: "len \<le> length dat"
  shows "\<exists>S'. kv_store_put_ptr fresh S key key_size dat len = Some (Inr S') \<and> sm_ok S'
           \<and> kv_store_put (sm_view S) key key_size dat len = Some (Inr (sm_view S'))"
proof -
  define d where "d = digest key key_size"
  let ?i = "kv_index (sm_view S) d"
  obtain F where ch: "chains (sm_heap S) (sm_buckets S) F" using ok by (auto simp: sm_ok_def)
  have d: "length d = 20" by (simp add: d_def)
  note i = kv_index_less [OF wf d] kv_index_unat [OF wf d]
  have ib: "?i < length (sm_buckets S)" using i(1) by simp
  then have lock: "?i < length (sm_locks S)" "\<not> sm_locks S ! ?i" using wf by (simp_all add: kv_wf_def)
  obtain h' p' as' where put: "(case sm_buckets S ! ?i of
             None \<Rightarrow> run_bind (Some (kv_entry_new_ptr fresh (sm_heap S) d dat len None)) (\<lambda>(entry, h1). Some (Inr (Some entry, h1)))
           | Some node \<Rightarrow> run_bind (put_loop fresh d dat len (sm_heap S) node) (\<lambda>h1. Some (Inr (sm_buckets S ! ?i, h1)))) = Some (Inr (p', h'))"
    and as': "en_chain h' p' as'" "kv_bucket_put d dat len (map (entry_of (sm_heap S)) (F ?i)) = Inr (map (entry_of h') as')"
      "grown (sm_heap S) h' (F ?i) as'"
    using bucket_put_ptr [OF _ _ chains_finite [OF ch] d dat] chains_bucket [OF ch ib] by blast
  let ?S = "S\<lparr>sm_heap := h', sm_buckets := (sm_buckets S)[?i := p']\<rparr>"
  have ch': "chains h' ((sm_buckets S)[?i := p']) (F(?i := as'))" by (rule chains_grown [OF ch ib as'(3,1)])
  have locks: "(sm_locks S)[?i := True, ?i := False] = sm_locks S" using lock by (simp add: list_update_same_conv)
  have "kv_store_put_ptr fresh S key key_size dat len = Some (Inr ?S)"
    unfolding kv_store_put_ptr_def SHA1_fips_sha1 [OF key] d_def [symmetric]
    using put i lock ib locks
    by (auto simp: sm_same sm_lock_def sm_bucket_def sm_unlock_def run_bind_eq_Some_Inr split: option.splits)
  moreover have "sm_ok ?S" using ch' by (auto simp: sm_ok_def)
  moreover have "buckets (sm_view ?S) = (buckets (sm_view S))[?i := map (entry_of h') as']"
  proof (rule nth_equalityI)
    fix j assume "j < length (buckets (sm_view ?S))"
    then show "buckets (sm_view ?S) ! j = (buckets (sm_view S))[?i := map (entry_of h') as'] ! j"
      using sm_view_bucket [of ?S "F(?i := as')" j] sm_view_bucket [OF ch, of j] ch' ib
        chains_grown(2) [OF ch ib as'(3,1), of j]
      by (auto simp: nth_list_update)
  qed simp
  then have "kv_store_put (sm_view S) key key_size dat len = Some (Inr (sm_view ?S))"
    unfolding kv_store_put_def SHA1_fips_sha1 [OF key] d_def [symmetric]
    using i lock ib locks as'(2) sm_view_bucket [OF ch ib]
    by (simp add: bucket_lock_def bucket_read_def bucket_unlock_def)
  ultimately show ?thesis by blast
qed

end

lemma get_ptr_refines:
  assumes ok: "sm_ok S" and wf: "kv_wf (sm_view S)" and key: "unat (ucast key_size :: u32) \<le> length key"
  shows "kv_store_get_ptr S key key_size =
           run_bind (kv_store_get (sm_view S) key key_size) (\<lambda>(out, n, _). Some (Inr (out, n, S)))"
proof -
  define d where "d = digest key key_size"
  let ?i = "kv_index (sm_view S) d"
  obtain F where ch: "chains (sm_heap S) (sm_buckets S) F" using ok by (auto simp: sm_ok_def)
  have d: "length d = 20" by (simp add: d_def)
  note i = kv_index_less [OF wf d] kv_index_unat [OF wf d]
  have ib: "?i < length (sm_buckets S)" using i(1) by simp
  then have lock: "?i < length (sm_locks S)" "\<not> sm_locks S ! ?i" using wf by (simp_all add: kv_wf_def)
  then have locks: "(sm_locks S)[?i := True, ?i := False] = sm_locks S" by (simp add: list_update_same_conv)
  note bucket = chains_bucket [OF ch ib, THEN conjunct1] sm_view_bucket [OF ch ib]
  note start = kv_store_get_ptr_def kv_store_get_def SHA1_fips_sha1 [OF key] d_def [symmetric]
  note steps = sm_lock_def sm_bucket_def sm_unlock_def bucket_lock_def bucket_read_def bucket_unlock_def
  show ?thesis
  proof (cases "F ?i")
    case Nil
    then show ?thesis unfolding start using i lock ib locks bucket by (simp add: steps)
  next
    case (Cons x xs)
    then obtain a where "sm_buckets S ! ?i = Some a" using bucket(1) by (cases x) auto
    then show ?thesis
      unfolding start using i lock ib locks bucket Cons get_loop_chain [of "sm_heap S" a "F ?i" d]
      by (cases "kv_get_walk d (entry_of (sm_heap S) x) (map (entry_of (sm_heap S)) xs)")
        (auto simp: steps split: option.split)
  qed
qed

lemma destroy_buckets_frees:
  assumes ch: "chains (sm_heap S) (sm_buckets S) F" and "length (sm_locks S) = length (sm_buckets S)"
    and "i + k = length (sm_buckets S)"
  shows "destroy_buckets S i k (sm_heap S |` (\<Union>j\<in>{i..<length (sm_buckets S)}. set (addrs (F j)))) = Some (Inr Map.empty)"
  using assms(3)
proof (induction k arbitrary: i)
  case 0
  then show ?case by (simp add: restrict_map_def)
next
  case (Suc k)
  let ?U = "\<lambda>i. \<Union>j\<in>{i..<length (sm_buckets S)}. set (addrs (F j))"
  have i: "i < length (sm_buckets S)" using Suc.prems by simp
  have "{i..<length (sm_buckets S)} = insert i {Suc i..<length (sm_buckets S)}" using i by auto
  then have U: "?U i = set (addrs (F i)) \<union> ?U (Suc i)" by simp
  have "set (addrs (F i)) \<inter> ?U (Suc i) = {}" using chains_apart [OF ch i] by fastforce
  then have rest: "(sm_heap S |` ?U i) |` (- set (addrs (F i))) = sm_heap S |` ?U (Suc i)"
    unfolding U restrict_restrict by (auto intro!: arg_cong [of _ _ "restrict_map (sm_heap S)"])
  have "en_chain (sm_heap S |` ?U i) (sm_buckets S ! i) (F i)"
    using chains_bucket [OF ch i] by (subst en_chain_cong [of "F i" _ "sm_heap S"]) (auto simp: U)
  note chain = destroy_chain_frees [OF this chains_bucket [OF ch i, THEN conjunct2], unfolded rest]
  have "i < length (sm_locks S)" using i assms(2) by simp
  then have "destroy_buckets S i (Suc k) (sm_heap S |` ?U i) = destroy_buckets S (Suc i) k (sm_heap S |` ?U (Suc i))"
    unfolding destroy_buckets.simps sm_bucket_def if_P [OF i] run_bind_simps chain by (rule if_P)
  also have "\<dots> = Some (Inr Map.empty)" by (rule Suc.IH) (use Suc.prems in simp)
  finally show ?case .
qed

lemma destroy_ptr_frees:
  assumes "sm_ok S" "kv_wf (sm_view S)"
  shows "kv_store_destroy_ptr S = Some (Inr Map.empty)"
proof -
  obtain F where ch: "chains (sm_heap S) (sm_buckets S) F" using assms(1) by (auto simp: sm_ok_def)
  have n: "length (sm_buckets S) = unat (sm_count S)" "length (sm_locks S) = length (sm_buckets S)"
    using assms(2) sm_view_simps(1) [of S] by (simp_all add: kv_wf_def)
  have "sm_heap S |` (\<Union>j\<in>{0..<length (sm_buckets S)}. set (addrs (F j))) = sm_heap S |` dom (sm_heap S)"
    using ch by (simp add: chains_def atLeast0LessThan)
  also have "\<dots> = sm_heap S" by (auto simp: restrict_map_def fun_eq_iff domIff)
  finally have "sm_heap S |` (\<Union>j\<in>{0..<length (sm_buckets S)}. set (addrs (F j))) = sm_heap S" .
  then show ?thesis
    using destroy_buckets_frees [OF ch n(2), of 0 "unat (sm_count S)"] n(1) by (simp add: kv_store_destroy_ptr_def)
qed

subsection \<open>The contract of the store\<close>

text \<open>With whole keys and whole values as its inputs, the linked store keeps the contract of the
  store on lists, whatever addresses the allocator chooses.\<close>

abbreviation put_ptr :: "(kv_heap \<Rightarrow> nat) \<Rightarrow> store_mem \<Rightarrow> byte list \<Rightarrow> byte list \<Rightarrow> store_mem run" where
  "put_ptr fresh S k v \<equiv> kv_store_put_ptr fresh S k (word_of_nat (length k)) v (length v)"

abbreviation get_ptr :: "store_mem \<Rightarrow> byte list \<Rightarrow> byte list option run" where
  "get_ptr S k \<equiv>
     run_bind (kv_store_get_ptr S k (word_of_nat (length k))) (\<lambda>(output, size, S'). Some (Inr output))"

definition sm_wf :: "store_mem \<Rightarrow> bool" where
  "sm_wf S \<longleftrightarrow> sm_ok S \<and> kv_wf (sm_view S)"

lemma get_ptr_bytes: "sm_wf S \<Longrightarrow> length k < 2 ^ 32 \<Longrightarrow> get_ptr S k = get_bytes (sm_view S) k"
  using get_ptr_refines [of S "word_of_nat (length k)" k] ucast_length [of k]
  by (cases "kv_store_get (sm_view S) k (word_of_nat (length k))" rule: option.exhaust)
    (auto simp: sm_wf_def run_bind_def split: sum.splits)

context kv_allocator
begin

lemma put_ptr_bytes:
  assumes "sm_wf S" "length k < 2 ^ 32"
  obtains S' where "put_ptr fresh S k v = Some (Inr S')" "sm_wf S'" "put_bytes (sm_view S) k v = Some (Inr (sm_view S'))"
    "kv_abs (sm_view S') = (case kv_abs (sm_view S) (fips_sha1 k) of
        None \<Rightarrow> (kv_abs (sm_view S))(fips_sha1 k \<mapsto> v) | Some _ \<Rightarrow> kv_abs (sm_view S))"
proof -
  have "unat (ucast (word_of_nat (length k) :: size_t) :: u32) \<le> length k" using ucast_length [OF assms(2)] by simp
  then obtain S' where "put_ptr fresh S k v = Some (Inr S')" "sm_ok S'" "put_bytes (sm_view S) k v = Some (Inr (sm_view S'))"
    using put_ptr_refines [of S "word_of_nat (length k)" k "length v" v] assms(1) by (auto simp: sm_wf_def)
  moreover from this have "kv_wf (sm_view S')" "kv_abs (sm_view S') = (case kv_abs (sm_view S) (fips_sha1 k) of
        None \<Rightarrow> (kv_abs (sm_view S))(fips_sha1 k \<mapsto> v) | Some _ \<Rightarrow> kv_abs (sm_view S))"
    using kv.put_ok [of "sm_view S" k v] assms by (auto simp: sm_wf_def)
  ultimately show ?thesis using that by (auto simp: sm_wf_def)
qed

end

sublocale kv_allocator \<subseteq> linked_kv: first_write_map sm_wf "\<lambda>S. kv_abs (sm_view S)" fips_sha1
  "\<lambda>k. length k < 2 ^ 32" "put_ptr fresh" get_ptr
proof
  fix S and k v :: "byte list"
  assume S: "sm_wf S" and k: "length k < 2 ^ 32"
  show "\<exists>S'. put_ptr fresh S k v = Some (Inr S') \<and> sm_wf S' \<and> kv_abs (sm_view S') =
      (case kv_abs (sm_view S) (fips_sha1 k) of
        None \<Rightarrow> (kv_abs (sm_view S))(fips_sha1 k \<mapsto> v) | Some _ \<Rightarrow> kv_abs (sm_view S))"
    by (rule put_ptr_bytes [OF S k, of v]) blast
  show "get_ptr S k = Some (Inr (kv_abs (sm_view S) (fips_sha1 k)))"
    using get_ptr_bytes [OF S k] kv.get_ok [of "sm_view S" k] S k by (simp add: sm_wf_def)
qed

context kv_allocator
begin

lemma put_all_view:
  "sm_wf S \<Longrightarrow> \<forall>(k, v) \<in> set kvs. length k < 2 ^ 32 \<Longrightarrow>
   \<exists>S'. put_all (put_ptr fresh) S kvs = Some (Inr S') \<and> sm_wf S'
      \<and> put_all put_bytes (sm_view S) kvs = Some (Inr (sm_view S'))"
proof (induction kvs arbitrary: S)
  case (Cons kv kvs)
  obtain k v where kv: "kv = (k, v)" by fastforce
  with Cons.prems obtain S1 where "put_ptr fresh S k v = Some (Inr S1)" "sm_wf S1"
    "put_bytes (sm_view S) k v = Some (Inr (sm_view S1))"
    by (auto intro: put_ptr_bytes [of S k v])
  then show ?case using Cons.IH [of S1] Cons.prems(2) kv by auto
qed simp

lemma linked_history:
  assumes "n \<noteq> 0" "\<forall>(k, v) \<in> set kvs. length k < 2 ^ 32"
  obtains S where "put_all (put_ptr fresh) (kv_store_new_ptr n) kvs = Some (Inr S)" "sm_wf S"
    "put_all put_bytes (kv_store_new n) kvs = Some (Inr (sm_view S))"
proof -
  have "sm_wf (kv_store_new_ptr n)"
    using sm_ok_new kv_store_new_wf [OF assms(1)] by (simp add: sm_wf_def sm_view_new)
  from put_all_view [OF this assms(2)] that show ?thesis unfolding sm_view_new by blast
qed

end

interpretation bump_kv: kv_allocator next_addr
  by (rule kv_allocator.intro) (rule bump.allocator_axioms)

subsection \<open>Properties\<close>

text \<open>C15. The linked store is a map where the first write wins. Whatever addresses
  \<open>malloc\<close> chooses among the free ones, any sequence of puts into a new store with at least one bucket, under keys of less
  than \<open>2 ^ 32\<close> bytes, returns and builds
  the chains that the puts on lists build; then \<open>kv_store_get\<close> gives the value of the first put whose
  key has the digest asked for, and leaves every entry as it is; and \<open>kv_store_destroy\<close> frees
  every entry and every data block exactly once, so that nothing is left.\<close>

theorem kv_store_linked:
  assumes "\<And>h. finite (dom h) \<Longrightarrow> h (fresh h) = None" and "n \<noteq> 0"
    and "\<forall>(k, v) \<in> set kvs. length k < 2 ^ 32" and "length key < 2 ^ 32"
  shows "\<exists>S. put_all (put_ptr fresh) (kv_store_new_ptr n) kvs = Some (Inr S)
           \<and> put_all put_bytes (kv_store_new n) kvs = Some (Inr (sm_view S))
           \<and> kv_store_get_ptr S key (word_of_nat (length key)) =
               (case find (\<lambda>(k, v). fips_sha1 k = fips_sha1 key) kvs of
                  None \<Rightarrow> Some (Inr (None, 0, S))
                | Some (k, v) \<Rightarrow> Some (Inr (Some v, length v, S)))
           \<and> kv_store_destroy_ptr S = Some (Inr Map.empty)"
proof -
  have "kv_allocator fresh" using assms(1) by (intro kv_allocator.intro allocator.intro)
  then obtain S where S: "put_all (put_ptr fresh) (kv_store_new_ptr n) kvs = Some (Inr S)" "sm_wf S"
    "put_all put_bytes (kv_store_new n) kvs = Some (Inr (sm_view S))"
    using assms(2,3) by (rule kv_allocator.linked_history)
  have "unat (ucast (word_of_nat (length key) :: size_t) :: u32) \<le> length key" using ucast_length [OF assms(4)] by simp
  then have "kv_store_get_ptr S key (word_of_nat (length key)) =
      run_bind (kv_store_get (sm_view S) key (word_of_nat (length key))) (\<lambda>(out, n, _). Some (Inr (out, n, S)))"
    using S(2) by (intro get_ptr_refines) (simp_all add: sm_wf_def)
  with S(1,3) kv_store_history [OF assms(2-4)] destroy_ptr_frees [of S] S(2) show ?thesis
    by (auto simp: sm_wf_def split: option.splits)
qed

theorem kv_store_linked_witness:
  "\<exists>S. put_all (put_ptr next_addr) (kv_store_new_ptr 1) [([107], [1]), ([108], [7, 8]), ([107], [2])] = Some (Inr S)
     \<and> put_all put_bytes (kv_store_new 1) [([107], [1]), ([108], [7, 8]), ([107], [2])] = Some (Inr (sm_view S))
     \<and> kv_store_get_ptr S [107] 1 = Some (Inr (Some [1], 1, S))
     \<and> kv_store_destroy_ptr S = Some (Inr Map.empty)"
proof -
  have "h (next_addr h) = None" if "finite (dom h)" for h :: kv_heap by (rule bump.fresh_free [OF that])
  then show ?thesis
    using kv_store_linked [of next_addr 1 "[([107], [1]), ([108], [7, 8]), ([107], [2])]" "[107]"] by simp
qed

end
