(* ===== verification/Store_Threads.thy ===== *)
theory Store_Threads
  imports Store Threads
begin

text \<open>
  \<open>src/src/database/store.c\<close> run by several threads: the store is made to be shared by the
  worker threads, with one mutex for each bucket.

  A thread is inside one call of \<open>kv_store_put\<close> or \<open>kv_store_get\<close>, or idle. A step is one
  access to the shared state: taking the mutex of the bucket, the test of the bucket's
  pointer, the comparison with one entry of the chain (with the append or the copy it
  leads to), releasing the mutex. Hashing the key and choosing the bucket read no shared
  state that changes and belong to the call. \<open>cs_log\<close> records the operations in the order in
  which they took effect, \<open>cs_returned\<close> in the order in which they returned.

  The result is that the store is linearizable: every operation takes effect in one of its own
  steps, and has the result that a sequential map gives in the order of these steps.
\<close>

subsection \<open>The threads\<close>

datatype kv_op = Op_Put "byte list" "byte list" | Op_Get "byte list"

datatype kv_result = Done | Got "byte list option" nat

datatype kv_pc =
    T_Idle
  | T_Lock kv_op "byte list" nat            \<comment> \<open>digest and bucket known, before the mutex\<close>
  | T_Head kv_op "byte list" nat            \<comment> \<open>has the mutex, before the test of the bucket's pointer\<close>
  | T_Walk kv_op "byte list" nat nat        \<comment> \<open>has the mutex, at the entry of that number\<close>
  | T_Unlock kv_op nat kv_result            \<comment> \<open>has the mutex and the result\<close>

primrec op_key :: "kv_op \<Rightarrow> byte list" where
  "op_key (Op_Put k v) = k"
| "op_key (Op_Get k) = k"

text \<open>The beginning of both functions: the digest and the index of the bucket.\<close>

definition kv_begin :: "kv_store_t \<Rightarrow> kv_op \<Rightarrow> kv_pc run" where
  "kv_begin s op =
     run_bind (SHA1 (op_key op) (ucast (word_of_nat (length (op_key op)) :: size_t))) (\<lambda>result.
     run_bind (Some (sha1_mod_bucket result (bucket_count s))) (\<lambda>bi. Some (Inr (T_Lock op result (unat bi)))))"

text \<open>The end of a walk without a match: a put appends, a get stores the null pointer.\<close>

definition kv_missing :: "kv_store_t \<Rightarrow> kv_op \<Rightarrow> byte list \<Rightarrow> nat \<Rightarrow> kv_entry_t list \<Rightarrow> (kv_store_t \<times> kv_pc) run" where
  "kv_missing s op result b chain =
     (case op of
        Op_Put k dat \<Rightarrow>
          run_bind (Some (kv_entry_new result dat (length dat))) (\<lambda>entry.
          Some (Inr (s\<lparr>buckets := (buckets s)[b := chain @ [entry]]\<rparr>, T_Unlock op b Done)))
      | Op_Get k \<Rightarrow> Some (Inr (s, T_Unlock op b (Got None 0))))"

text \<open>An entry with the same digest: a put does nothing, a get copies the data.\<close>

definition kv_found :: "kv_store_t \<Rightarrow> kv_op \<Rightarrow> nat \<Rightarrow> kv_entry_t \<Rightarrow> (kv_store_t \<times> kv_pc) run" where
  "kv_found s op b e =
     (case op of
        Op_Put k dat \<Rightarrow> Some (Inr (s, T_Unlock op b Done))
      | Op_Get k \<Rightarrow>
          run_bind (Some (mem_read (entry_data e) 0 (data_length e))) (\<lambda>d.
          Some (Inr (s, T_Unlock op b (Got (Some d) (data_length e))))))"

text \<open>The next step of a thread inside a call; \<open>None\<close> while it waits for the mutex.\<close>

fun kv_advance :: "kv_store_t \<Rightarrow> kv_pc \<Rightarrow> (kv_store_t \<times> kv_pc) run" where
  "kv_advance s T_Idle = None"
| "kv_advance s (T_Lock op r b) = run_bind (bucket_lock s b) (\<lambda>s'. Some (Inr (s', T_Head op r b)))"
| "kv_advance s (T_Head op r b) =
     run_bind (bucket_read s b) (\<lambda>chain.
     if chain = [] then kv_missing s op r b chain else Some (Inr (s, T_Walk op r b 0)))"
| "kv_advance s (T_Walk op r b k) =
     run_bind (bucket_read s b) (\<lambda>chain.
     if \<not> k < length chain then Some (Inl Dangling)
     else if memcmp20 r (entry_key (chain ! k)) then kv_found s op b (chain ! k)
     else if k + 1 < length chain then Some (Inr (s, T_Walk op r b (k + 1)))
     else kv_missing s op r b chain)"
| "kv_advance s (T_Unlock op b res) = Some (Inr (bucket_unlock s b, T_Idle))"

record kv_state =
  cs_store :: kv_store_t
  cs_threads :: "kv_pc list"
  cs_crash :: "c_fault option"
  cs_log :: "(nat \<times> kv_op \<times> kv_result) list"
  cs_returned :: "(nat \<times> kv_op \<times> kv_result) list"

fun at_unlock :: "nat \<Rightarrow> kv_pc \<Rightarrow> (nat \<times> kv_op \<times> kv_result) list" where
  "at_unlock i (T_Unlock op b res) = [(i, op, res)]"
| "at_unlock i _ = []"

inductive kv_inner :: "kv_state \<Rightarrow> kv_state \<Rightarrow> bool" where
  advance: "cs_crash s = None \<Longrightarrow> i < length (cs_threads s) \<Longrightarrow>
    kv_advance (cs_store s) (cs_threads s ! i) = Some (Inr (st, pc)) \<Longrightarrow>
    kv_inner s (s\<lparr>cs_store := st, cs_threads := (cs_threads s)[i := pc],
      cs_log := cs_log s @ at_unlock i pc, cs_returned := cs_returned s @ at_unlock i (cs_threads s ! i)\<rparr>)"
| fault: "cs_crash s = None \<Longrightarrow> i < length (cs_threads s) \<Longrightarrow>
    kv_advance (cs_store s) (cs_threads s ! i) = Some (Inl f) \<Longrightarrow> kv_inner s (s\<lparr>cs_crash := Some f\<rparr>)"

text \<open>An idle thread calls any operation.\<close>

inductive kv_outer :: "kv_state \<Rightarrow> kv_state \<Rightarrow> bool" where
  call: "cs_crash s = None \<Longrightarrow> i < length (cs_threads s) \<Longrightarrow> cs_threads s ! i = T_Idle \<Longrightarrow>
    kv_begin (cs_store s) op = Some (Inr pc) \<Longrightarrow>
    kv_outer s (s\<lparr>cs_threads := (cs_threads s)[i := pc]\<rparr>)"

definition kv_threads_new :: "size_t \<Rightarrow> nat \<Rightarrow> kv_state" where
  "kv_threads_new n threads =
     \<lparr>cs_store = kv_store_new n, cs_threads = replicate threads T_Idle, cs_crash = None, cs_log = [], cs_returned = []\<rparr>"

inductive kv_reach :: "size_t \<Rightarrow> nat \<Rightarrow> kv_state \<Rightarrow> bool" for n threads where
  start: "n \<noteq> 0 \<Longrightarrow> kv_reach n threads (kv_threads_new n threads)"
| inner: "kv_reach n threads s \<Longrightarrow> kv_inner s s' \<Longrightarrow> kv_reach n threads s'"
| outer: "kv_reach n threads s \<Longrightarrow> kv_outer s s' \<Longrightarrow> kv_reach n threads s'"

inductive_cases kv_innerE: "kv_inner s s'"
inductive_cases kv_outerE: "kv_outer s s'"

subsection \<open>The sequential map\<close>

abbreviation op_digest :: "kv_op \<Rightarrow> byte list" where
  "op_digest op \<equiv> digest (op_key op) (word_of_nat (length (op_key op)))"

fun kv_spec :: "(byte list \<rightharpoonup> byte list) \<Rightarrow> kv_op \<Rightarrow> (byte list \<rightharpoonup> byte list) \<times> kv_result" where
  "kv_spec m (Op_Put k v) =
     ((case m (op_digest (Op_Put k v)) of None \<Rightarrow> m(op_digest (Op_Put k v) \<mapsto> v) | Some _ \<Rightarrow> m), Done)"
| "kv_spec m (Op_Get k) =
     (m, case m (op_digest (Op_Get k)) of None \<Rightarrow> Got None 0 | Some v \<Rightarrow> Got (Some v) (length v))"

fun kv_spec_run :: "(byte list \<rightharpoonup> byte list) \<Rightarrow> kv_op list \<Rightarrow> (byte list \<rightharpoonup> byte list) \<times> kv_result list" where
  "kv_spec_run m [] = (m, [])"
| "kv_spec_run m (op # ops) =
     (let (m1, r) = kv_spec m op; (m2, rs) = kv_spec_run m1 ops in (m2, r # rs))"

lemma kv_spec_run_snoc:
  "kv_spec_run m (ops @ [op]) =
     (fst (kv_spec (fst (kv_spec_run m ops)) op), snd (kv_spec_run m ops) @ [snd (kv_spec (fst (kv_spec_run m ops)) op)])"
  by (induction ops arbitrary: m) (simp_all add: split_def Let_def)

subsection \<open>The store under the locks\<close>

definition unlocked :: "kv_store_t \<Rightarrow> kv_store_t" where
  "unlocked s = s\<lparr>bucket_locks := replicate (unat (bucket_count s)) False\<rparr>"

lemma unlocked_simps [simp]:
  "buckets (unlocked s) = buckets s" "bucket_count (unlocked s) = bucket_count s"
  "kv_index (unlocked s) = kv_index s" "kv_abs (unlocked s) = kv_abs s"
  "unlocked (s\<lparr>bucket_locks := ls\<rparr>) = unlocked s"
  by (simp_all add: unlocked_def kv_index_def kv_abs_def fun_eq_iff)

lemma kv_insert_unlocked: "unlocked (kv_insert s d dat len) = kv_insert (unlocked s) d dat len"
  by (simp add: kv_insert_def Let_def) (simp add: unlocked_def)

definition chains_ok :: "kv_store_t \<Rightarrow> bool" where
  "chains_ok s \<longleftrightarrow> kv_wf (unlocked s) \<and> length (bucket_locks s) = length (buckets s)"

text \<open>The bucket whose mutex a thread has.\<close>

fun pc_lock :: "kv_pc \<Rightarrow> nat option" where
  "pc_lock (T_Head op r b) = Some b"
| "pc_lock (T_Walk op r b k) = Some b"
| "pc_lock (T_Unlock op b res) = Some b"
| "pc_lock _ = None"

text \<open>What a thread's local variables say of the store.\<close>

fun pc_ok :: "kv_store_t \<Rightarrow> kv_pc \<Rightarrow> bool" where
  "pc_ok s T_Idle = True"
| "pc_ok s (T_Lock op r b) = (r = op_digest op \<and> b = kv_index s r)"
| "pc_ok s (T_Head op r b) = (r = op_digest op \<and> b = kv_index s r)"
| "pc_ok s (T_Walk op r b k) =
     (r = op_digest op \<and> b = kv_index s r \<and> k < length (buckets s ! b)
      \<and> (\<forall>e \<in> set (take k (buckets s ! b)). entry_key e \<noteq> r))"
| "pc_ok s (T_Unlock op b res) = (b < length (buckets s))"

lemma length_digest [simp]: "length (digest k n) = 20"
  by simp

lemma digest_length_le: "unat (ucast (word_of_nat (length k) :: size_t) :: u32) \<le> length k"
  by (simp add: unsigned_ucast_eq unat_of_nat take_bit_eq_mod mod_mod_cancel)

lemma chains_index:
  assumes "chains_ok s" "length d = 20"
  shows "kv_index s d < length (buckets s)" "kv_index s d < length (bucket_locks s)"
    "sha1_mod_bucket d (bucket_count s) = Inr (word_of_nat (kv_index s d))"
    "unat (word_of_nat (kv_index s d) :: size_t) = kv_index s d"
  using kv_index_less [of "unlocked s" d] kv_index_unat [of "unlocked s" d] assms by (simp_all add: chains_ok_def)

lemma chains_entries:
  assumes "chains_ok s" "b < length (buckets s)"
  shows "list_all entry_ok (buckets s ! b)"
  using assms by (simp add: chains_ok_def kv_wf_def)

lemma kv_begin_ok:
  assumes "chains_ok s"
  shows "kv_begin s op = Some (Inr (T_Lock op (op_digest op) (kv_index s (op_digest op))))"
  unfolding kv_begin_def SHA1_fips_sha1 [OF digest_length_le]
  using chains_index [OF assms length_digest] by simp

lemma chains_insert:
  assumes "chains_ok s" "length d = 20"
  shows "chains_ok (kv_insert s d dat (length dat))"
    "kv_abs (kv_insert s d dat (length dat)) = (case kv_abs s d of None \<Rightarrow> (kv_abs s)(d \<mapsto> dat) | Some _ \<Rightarrow> kv_abs s)"
proof -
  have wf: "kv_wf (unlocked s)" using assms(1) by (simp add: chains_ok_def)
  have "kv_wf (unlocked (kv_insert s d dat (length dat)))"
    using kv_insert_wf [OF wf assms(2), of "length dat" dat] by (simp add: kv_insert_unlocked)
  then show "chains_ok (kv_insert s d dat (length dat))"
    using assms(1) by (simp add: chains_ok_def kv_insert_def Let_def)
  have "kv_abs (unlocked (kv_insert s d dat (length dat))) =
      (case kv_abs (unlocked s) d of None \<Rightarrow> (kv_abs (unlocked s))(d \<mapsto> dat) | Some _ \<Rightarrow> kv_abs (unlocked s))"
    unfolding kv_insert_unlocked
    using kv_insert_abs [OF wf assms(2), of "length dat" dat] unfolding take_all [OF order_refl] by (simp only: order_refl)
  then show "kv_abs (kv_insert s d dat (length dat)) = (case kv_abs s d of None \<Rightarrow> (kv_abs s)(d \<mapsto> dat) | Some _ \<Rightarrow> kv_abs s)"
    by (simp cong: option.case_cong)
qed

text \<open>The effect of the two ends of a walk, in terms of the map.\<close>

lemma chain_find_abs: "length d = 20 \<Longrightarrow> kv_abs s d = map_option entry_data (chain_find d (buckets s ! kv_index s d))"
  by (simp add: kv_abs_def)

lemma kv_missing_ok:
  assumes "chains_ok s" "chain_find (op_digest op) (buckets s ! kv_index s (op_digest op)) = None"
  shows "\<exists>s' res. kv_missing s op (op_digest op) (kv_index s (op_digest op)) (buckets s ! kv_index s (op_digest op)) =
             Some (Inr (s', T_Unlock op (kv_index s (op_digest op)) res))
           \<and> kv_spec (kv_abs s) op = (kv_abs s', res)
           \<and> s' = (case op of Op_Put k dat \<Rightarrow> kv_insert s (op_digest op) dat (length dat) | Op_Get k \<Rightarrow> s)"
proof (cases op)
  case (Op_Put k dat)
  with assms show ?thesis
    using chains_insert [OF assms(1), of "op_digest op" dat]
    by (simp add: kv_missing_def kv_entry_new_def mem_read_def kv_insert_def Let_def cong: option.case_cong)
next
  case (Op_Get k)
  with assms show ?thesis by (simp add: kv_missing_def chain_find_abs)
qed

lemma find_nth_first:
  assumes "k < length xs" "P (xs ! k)" "\<forall>x \<in> set (take k xs). \<not> P x"
  shows "find P xs = Some (xs ! k)"
proof -
  have "\<not> P (xs ! j)" if "j < k" for j
    using assms(1,3) that by (metis (no_types) in_set_conv_nth length_take min_less_iff_conj nth_take order.strict_trans)
  with assms(1,2) show ?thesis by (auto simp: find_Some_iff)
qed

lemma kv_found_ok:
  assumes "chains_ok s" "chain_find (op_digest op) (buckets s ! kv_index s (op_digest op)) = Some e"
  shows "\<exists>res. kv_found s op (kv_index s (op_digest op)) e =
             Some (Inr (s, T_Unlock op (kv_index s (op_digest op)) res)) \<and> kv_spec (kv_abs s) op = (kv_abs s, res)"
proof -
  have "entry_ok e"
    using chains_entries [OF assms(1) chains_index(1) [OF assms(1) length_digest]] chain_find_SomeD [OF assms(2)]
    by (auto simp: list_all_iff)
  moreover have "kv_abs s (op_digest op) = Some (entry_data e)" using assms(2) by (simp add: chain_find_abs)
  ultimately show ?thesis
    by (cases op) (auto simp: kv_found_def mem_read_def entry_ok_def)
qed

subsection \<open>One step of one thread\<close>

text \<open>What a step does to the locks, and what it leaves to the other threads.\<close>

fun pc_locks :: "kv_pc \<Rightarrow> bool list \<Rightarrow> bool list" where
  "pc_locks (T_Lock op r b) ls = ls[b := True]"
| "pc_locks (T_Unlock op b res) ls = ls[b := False]"
| "pc_locks _ ls = ls"

fun pc_effect :: "kv_pc \<Rightarrow> (byte list \<rightharpoonup> byte list) \<Rightarrow> (byte list \<rightharpoonup> byte list) \<Rightarrow> bool" where
  "pc_effect (T_Unlock op b res) m m' = (kv_spec m op = (m', res))"
| "pc_effect _ m m' = (m' = m)"

fun pc_next :: "kv_pc \<Rightarrow> kv_pc \<Rightarrow> bool" where
  "pc_next (T_Lock op r b) pc = (pc = T_Head op r b)"
| "pc_next (T_Unlock op b res) pc = (pc = T_Idle)"
| "pc_next (T_Head op r b) pc = (pc = T_Walk op r b 0 \<or> (\<exists>res. pc = T_Unlock op b res))"
| "pc_next (T_Walk op r b k) pc = (pc = T_Walk op r b (k + 1) \<or> (\<exists>res. pc = T_Unlock op b res))"
| "pc_next T_Idle pc = False"

text \<open>The entries of the store and the puts that may still add one.\<close>

definition kv_entries :: "kv_store_t \<Rightarrow> nat" where
  "kv_entries s = sum_list (map length (buckets s))"

fun op_adds :: "kv_op \<Rightarrow> nat" where
  "op_adds (Op_Put k v) = 1"
| "op_adds (Op_Get k) = 0"

fun pc_adds :: "kv_pc \<Rightarrow> nat" where
  "pc_adds (T_Lock op r b) = op_adds op"
| "pc_adds (T_Head op r b) = op_adds op"
| "pc_adds (T_Walk op r b k) = op_adds op"
| "pc_adds _ = 0"

definition step_ok :: "kv_store_t \<Rightarrow> kv_pc \<Rightarrow> kv_store_t \<Rightarrow> kv_pc \<Rightarrow> bool" where
  "step_ok s pc s' pc' \<longleftrightarrow>
     chains_ok s' \<and> pc_ok s' pc' \<and> pc_next pc pc' \<and> pc_effect pc' (kv_abs s) (kv_abs s')
     \<and> bucket_count s' = bucket_count s \<and> length (buckets s') = length (buckets s)
     \<and> (\<forall>b. pc_lock pc \<noteq> Some b \<longrightarrow> buckets s' ! b = buckets s ! b)
     \<and> bucket_locks s' = pc_locks pc (bucket_locks s)
     \<and> kv_entries s' + pc_adds pc' \<le> kv_entries s + pc_adds pc"

lemma insert_frame:
  "bucket_count (kv_insert s d dat n) = bucket_count s" "length (buckets (kv_insert s d dat n)) = length (buckets s)"
  "bucket_locks (kv_insert s d dat n) = bucket_locks s"
  "b \<noteq> kv_index s d \<Longrightarrow> buckets (kv_insert s d dat n) ! b = buckets s ! b"
  by (simp_all add: kv_insert_def Let_def)

lemma insert_entries: "kv_index s d < length (buckets s) \<Longrightarrow> kv_entries (kv_insert s d dat n) \<le> kv_entries s + 1"
  by (cases "chain_find d (buckets s ! kv_index s d)")
    (simp_all add: kv_entries_def kv_insert_def Let_def map_update sum_list_update elem_le_sum_list)

lemma missing_step:
  assumes "chains_ok s" "pc_lock pc = Some (kv_index s (op_digest op))" "pc_locks pc = (\<lambda>ls. ls)"
    "\<And>res. pc_next pc (T_Unlock op (kv_index s (op_digest op)) res)"
    "chain_find (op_digest op) (buckets s ! kv_index s (op_digest op)) = None" "pc_adds pc = op_adds op"
  shows "\<exists>s' pc'. kv_missing s op (op_digest op) (kv_index s (op_digest op)) (buckets s ! kv_index s (op_digest op)) =
             Some (Inr (s', pc')) \<and> step_ok s pc s' pc'"
proof -
  obtain s' res where s': "kv_missing s op (op_digest op) (kv_index s (op_digest op)) (buckets s ! kv_index s (op_digest op)) =
      Some (Inr (s', T_Unlock op (kv_index s (op_digest op)) res))" "kv_spec (kv_abs s) op = (kv_abs s', res)"
    "s' = (case op of Op_Put k dat \<Rightarrow> kv_insert s (op_digest op) dat (length dat) | Op_Get k \<Rightarrow> s)"
    using kv_missing_ok [OF assms(1,5)] by blast
  have "chains_ok s'" "bucket_count s' = bucket_count s" "length (buckets s') = length (buckets s)"
    "bucket_locks s' = bucket_locks s" "\<forall>b. pc_lock pc \<noteq> Some b \<longrightarrow> buckets s' ! b = buckets s ! b"
    using s'(3) assms(1,2) chains_insert(1) [OF assms(1) length_digest]
    by (cases op; auto simp: insert_frame)+
  moreover have i: "kv_index s (op_digest op) < length (buckets s)" using chains_index(1) [OF assms(1) length_digest] .
  moreover have "kv_entries s' \<le> kv_entries s + op_adds op"
    using s'(3) insert_entries [OF i] by (cases op) simp_all
  ultimately show ?thesis using s'(1,2) assms(3,4,6) by (auto simp: step_ok_def)
qed

lemma found_step:
  assumes "chains_ok s" "pc_locks pc = (\<lambda>ls. ls)"
    "\<And>res. pc_next pc (T_Unlock op (kv_index s (op_digest op)) res)"
    "chain_find (op_digest op) (buckets s ! kv_index s (op_digest op)) = Some e"
  shows "\<exists>s' pc'. kv_found s op (kv_index s (op_digest op)) e = Some (Inr (s', pc')) \<and> step_ok s pc s' pc'"
  using kv_found_ok [OF assms(1,4)] assms(1-3) chains_index(1) [OF assms(1), of "op_digest op"]
  by (fastforce simp: step_ok_def)

lemma walk_step:
  assumes "chains_ok s" "pc_ok s (T_Walk op r b k)"
  shows "\<exists>s' pc'. kv_advance s (T_Walk op r b k) = Some (Inr (s', pc')) \<and> step_ok s (T_Walk op r b k) s' pc'"
proof -
  let ?c = "buckets s ! b"
  have r: "r = op_digest op" "b = kv_index s (op_digest op)" and k: "k < length ?c"
    and before: "\<forall>e \<in> set (take k ?c). entry_key e \<noteq> r" using assms(2) by auto
  have b: "b < length (buckets s)" using chains_index(1) [OF assms(1) length_digest] r by simp
  have "entry_ok (?c ! k)" using chains_entries [OF assms(1) b] k by (simp add: list_all_length)
  then have cmp: "memcmp20 r (entry_key (?c ! k)) \<longleftrightarrow> entry_key (?c ! k) = r"
    using memcmp20_eq [of r "entry_key (?c ! k)"] r by (auto simp: entry_ok_def)
  consider "entry_key (?c ! k) = r" | "entry_key (?c ! k) \<noteq> r" "k + 1 < length ?c"
    | "entry_key (?c ! k) \<noteq> r" "k + 1 = length ?c" using k by linarith
  then show ?thesis
  proof cases
    case 1
    have "chain_find r ?c = Some (?c ! k)"
      unfolding chain_find_def by (rule find_nth_first [OF k]) (use 1 before in simp_all)
    with found_step [OF assms(1), of "T_Walk op r b k" op "?c ! k"] show ?thesis
      using 1 b k r cmp by (simp add: bucket_read_def fun_eq_iff)
  next
    case 2
    have "\<forall>e \<in> set (take (k + 1) ?c). entry_key e \<noteq> r"
      using before 2(1) k by (simp add: take_Suc_conv_app_nth)
    then show ?thesis
      using 2 assms(1) b k r cmp by (simp add: bucket_read_def step_ok_def)
  next
    case 3
    have "\<forall>e \<in> set (take (k + 1) ?c). entry_key e \<noteq> r"
      using before 3(1) k by (simp add: take_Suc_conv_app_nth)
    then have "\<forall>e \<in> set ?c. entry_key e \<noteq> r" unfolding 3(2) by simp
    then have "chain_find r ?c = None" by (auto simp: chain_find_def find_None_iff)
    with missing_step [OF assms(1), of "T_Walk op r b k" op] show ?thesis
      using 3 b k r cmp by (simp add: bucket_read_def fun_eq_iff)
  qed
qed

lemma advance_ok:
  assumes "chains_ok s" "pc_ok s pc" "pc \<noteq> T_Idle" "\<And>op r b. pc = T_Lock op r b \<Longrightarrow> \<not> bucket_locks s ! b"
  shows "\<exists>s' pc'. kv_advance s pc = Some (Inr (s', pc')) \<and> step_ok s pc s' pc'"
proof (cases pc)
  case (T_Lock op r b)
  then show ?thesis
    using assms chains_index(2) [OF assms(1) length_digest]
    by (auto simp: bucket_lock_def step_ok_def chains_ok_def kv_index_def kv_abs_def kv_entries_def)
next
  case (T_Head op r b)
  have b: "r = op_digest op" "b = kv_index s (op_digest op)" "b < length (buckets s)"
    using T_Head assms(2) chains_index(1) [OF assms(1) length_digest] by simp_all
  show ?thesis
  proof (cases "buckets s ! b = []")
    case True
    then show ?thesis
      using missing_step [OF assms(1), of "T_Head op r b" op] T_Head b
      by (simp add: bucket_read_def fun_eq_iff chain_find_def)
  next
    case False
    then show ?thesis using T_Head b assms(1) by (simp add: bucket_read_def step_ok_def)
  qed
next
  case (T_Walk op r b k)
  with walk_step [OF assms(1)] assms(2) show ?thesis by blast
next
  case (T_Unlock op b res)
  with assms(1) show ?thesis
    by (auto simp: bucket_unlock_def step_ok_def chains_ok_def kv_abs_def kv_index_def kv_entries_def)
qed (use assms(3) in simp)

subsection \<open>The invariant\<close>

text \<open>A mutex is held exactly when one thread has it, and by one thread only.\<close>

definition locks_ok :: "bool list \<Rightarrow> kv_pc list \<Rightarrow> bool" where
  "locks_ok ls ts \<longleftrightarrow>
     (\<forall>i < length ts. \<forall>b. pc_lock (ts ! i) = Some b \<longrightarrow> b < length ls \<and> ls ! b)
     \<and> (\<forall>b < length ls. ls ! b \<longrightarrow> (\<exists>i < length ts. pc_lock (ts ! i) = Some b))
     \<and> (\<forall>i < length ts. \<forall>j < length ts. \<forall>b. pc_lock (ts ! i) = Some b \<and> pc_lock (ts ! j) = Some b \<longrightarrow> i = j)"

lemma locks_ok_keep:
  "locks_ok ls ts \<Longrightarrow> i < length ts \<Longrightarrow> pc_lock pc = pc_lock (ts ! i) \<Longrightarrow> locks_ok ls (ts[i := pc])"
  unfolding locks_ok_def by (auto simp: nth_list_update split: if_splits)

lemma locks_ok_acquire:
  assumes "locks_ok ls ts" "i < length ts" "pc_lock (ts ! i) = None" "pc_lock pc = Some b" "b < length ls" "\<not> ls ! b"
  shows "locks_ok (ls[b := True]) (ts[i := pc])"
proof -
  have free: "pc_lock (ts ! j) \<noteq> Some b" if "j < length ts" for j using assms(1,6) that by (auto simp: locks_ok_def)
  have "\<exists>j < length ts. pc_lock (ts[i := pc] ! j) = Some c" if c: "c < length ls" "ls[b := True] ! c" for c
  proof (cases "c = b")
    case True
    with assms(2,4) show ?thesis by auto
  next
    case False
    then obtain j where "j < length ts" "pc_lock (ts ! j) = Some c"
      using assms(1) c by (auto simp: locks_ok_def)
    moreover from this have "j \<noteq> i" using assms(3) by auto
    ultimately show ?thesis by auto
  qed
  then show ?thesis
    using assms free unfolding locks_ok_def by (auto simp: nth_list_update split: if_splits)
qed

lemma locks_ok_release:
  assumes "locks_ok ls ts" "i < length ts" "pc_lock (ts ! i) = Some b" "pc_lock pc = None"
  shows "locks_ok (ls[b := False]) (ts[i := pc])"
proof -
  have other: "pc_lock (ts ! j) \<noteq> Some b" if "j < length ts" "j \<noteq> i" for j
    using assms(1-3) that by (auto simp: locks_ok_def)
  have "\<exists>j < length ts. pc_lock (ts[i := pc] ! j) = Some c" if c: "c < length ls" "ls[b := False] ! c" for c
  proof -
    have "c \<noteq> b" using c assms(1-3) by (auto simp: locks_ok_def)
    then obtain j where "j < length ts" "pc_lock (ts ! j) = Some c"
      using assms(1) c by (auto simp: locks_ok_def)
    moreover from this have "j \<noteq> i" using assms(3) \<open>c \<noteq> b\<close> by auto
    ultimately show ?thesis by auto
  qed
  then show ?thesis
    using assms other unfolding locks_ok_def by (auto simp: nth_list_update split: if_splits)
qed

lemma pc_ok_frame:
  "pc_ok s p \<Longrightarrow> bucket_count s' = bucket_count s \<Longrightarrow> length (buckets s') = length (buckets s) \<Longrightarrow>
   (\<And>b. pc_lock p = Some b \<Longrightarrow> buckets s' ! b = buckets s ! b) \<Longrightarrow> pc_ok s' p"
  using kv_bucket_index_cong [of s' s] by (cases p) auto

text \<open>\<open>log_ok\<close>: the log is a run of the sequential map. \<open>returns_ok\<close>: what a thread returned are
  its operations in the log, in order, but for one that still has the mutex.\<close>

definition log_ok :: "kv_state \<Rightarrow> bool" where
  "log_ok s \<longleftrightarrow> kv_spec_run Map.empty (map (fst \<circ> snd) (cs_log s)) = (kv_abs (cs_store s), map (snd \<circ> snd) (cs_log s))"

definition returns_ok :: "kv_state \<Rightarrow> bool" where
  "returns_ok s \<longleftrightarrow> own_results at_unlock (cs_threads s) (cs_log s) (cs_returned s)"

definition kv_inv :: "kv_state \<Rightarrow> bool" where
  "kv_inv s \<longleftrightarrow> cs_crash s = None \<and> chains_ok (cs_store s) \<and> list_all (pc_ok (cs_store s)) (cs_threads s)
     \<and> locks_ok (bucket_locks (cs_store s)) (cs_threads s) \<and> log_ok s \<and> returns_ok s"

lemma enabled_ok:
  assumes "kv_inv s" "i < length (cs_threads s)" "kv_advance (cs_store s) (cs_threads s ! i) \<noteq> None"
  shows "\<exists>st pc. kv_advance (cs_store s) (cs_threads s ! i) = Some (Inr (st, pc))
           \<and> step_ok (cs_store s) (cs_threads s ! i) st pc"
proof (rule advance_ok)
  show "chains_ok (cs_store s)" "pc_ok (cs_store s) (cs_threads s ! i)"
    using assms(1,2) by (simp_all add: kv_inv_def list_all_length)
  show "cs_threads s ! i \<noteq> T_Idle" using assms(3) by auto
  show "\<not> bucket_locks (cs_store s) ! b" if "cs_threads s ! i = T_Lock op r b" for op r b
    using assms(3) that \<open>pc_ok (cs_store s) (cs_threads s ! i)\<close> chains_index(2) [OF \<open>chains_ok (cs_store s)\<close> length_digest]
    by (auto simp: bucket_lock_def split: if_splits)
qed

lemma locks_ok_step:
  assumes "locks_ok (bucket_locks s) ts" "i < length ts" "step_ok s (ts ! i) s' pc" "chains_ok s" "pc_ok s (ts ! i)"
    "\<And>op r b. ts ! i = T_Lock op r b \<Longrightarrow> \<not> bucket_locks s ! b"
  shows "locks_ok (bucket_locks s') (ts[i := pc])"
proof (cases "ts ! i")
  case (T_Lock op r b)
  have "b < length (bucket_locks s)" using chains_index(2) [OF assms(4) length_digest] assms(5) T_Lock by auto
  with locks_ok_acquire [OF assms(1,2), of pc b] T_Lock assms(3,6) show ?thesis by (simp add: step_ok_def)
next
  case (T_Unlock op b res)
  with locks_ok_release [OF assms(1,2), of b pc] assms(3) show ?thesis by (simp add: step_ok_def)
qed (use locks_ok_keep [OF assms(1,2), of pc] assms(3) in \<open>auto simp: step_ok_def\<close>)

lemma log_ok_step:
  assumes "log_ok s" "pc_effect pc (kv_abs (cs_store s)) (kv_abs st)"
  shows "log_ok (s\<lparr>cs_store := st, cs_threads := ts, cs_log := cs_log s @ at_unlock i pc, cs_returned := rs\<rparr>)"
  using assms by (cases pc) (simp_all add: log_ok_def kv_spec_run_snoc)

lemma at_unlock_thread: "e \<in> set (at_unlock i p) \<Longrightarrow> fst e = i"
  by (cases p) auto

lemma returns_ok_step:
  assumes "returns_ok s" "i < length (cs_threads s)" "pc_next (cs_threads s ! i) pc"
  shows "returns_ok (s\<lparr>cs_store := st, cs_threads := (cs_threads s)[i := pc], cs_log := cs_log s @ at_unlock i pc,
           cs_returned := cs_returned s @ at_unlock i (cs_threads s ! i)\<rparr>)"
proof -
  have "at_unlock i (cs_threads s ! i) = [] \<or> at_unlock i pc = []" using assms(3) by (cases "cs_threads s ! i") auto
  then show ?thesis using own_results_step [OF _ assms(2) _ at_unlock_thread] assms(1) by (simp add: returns_ok_def)
qed

lemma kv_inv_inner:
  assumes "kv_inv s" "kv_inner s s'"
  shows "kv_inv s'"
  using assms(2)
proof cases
  case (advance i st pc)
  let ?pc = "cs_threads s ! i"
  have inv: "chains_ok (cs_store s)" "list_all (pc_ok (cs_store s)) (cs_threads s)" "log_ok s" "returns_ok s"
    "locks_ok (bucket_locks (cs_store s)) (cs_threads s)" using assms(1) by (simp_all add: kv_inv_def)
  have step: "step_ok (cs_store s) ?pc st pc" using enabled_ok [OF assms(1) advance(3)] advance(4) by auto
  have pc: "pc_ok (cs_store s) ?pc" using inv(2) advance(3) by (simp add: list_all_length)
  have free: "\<not> bucket_locks (cs_store s) ! b" if "?pc = T_Lock op r b" for op r b
    using advance(4) that pc chains_index(2) [OF inv(1) length_digest] by (auto simp: bucket_lock_def split: if_splits)
  have "pc_ok st (cs_threads s ! j)" if "j < length (cs_threads s)" "j \<noteq> i" for j
  proof (rule pc_ok_frame [of "cs_store s"])
    show "pc_ok (cs_store s) (cs_threads s ! j)" using inv(2) that by (simp add: list_all_length)
    show "buckets st ! b = buckets (cs_store s) ! b" if "pc_lock (cs_threads s ! j) = Some b" for b
    proof -
      have "pc_lock ?pc \<noteq> Some b"
        using inv(5) \<open>j \<noteq> i\<close> \<open>j < length (cs_threads s)\<close> advance(3) that unfolding locks_ok_def by blast
      with step show ?thesis by (simp add: step_ok_def)
    qed
  qed (use step in \<open>simp_all add: step_ok_def\<close>)
  then have "list_all (pc_ok st) ((cs_threads s)[i := pc])"
    using step advance(3) by (auto simp: list_all_length nth_list_update step_ok_def)
  moreover have "locks_ok (bucket_locks st) ((cs_threads s)[i := pc])"
    by (rule locks_ok_step [OF inv(5) advance(3) step inv(1) pc free])
  ultimately show ?thesis
    using advance step log_ok_step [OF inv(3), of pc st] returns_ok_step [OF inv(4) advance(3), of pc st]
    by (simp add: kv_inv_def step_ok_def)
next
  case (fault i f)
  then show ?thesis using enabled_ok [OF assms(1) fault(3)] by simp
qed

lemma kv_inv_outer:
  assumes "kv_inv s" "kv_outer s s'"
  shows "kv_inv s'"
  using assms(2)
proof cases
  case (call i op pc)
  have "pc = T_Lock op (op_digest op) (kv_index (cs_store s) (op_digest op))"
    using kv_begin_ok [of "cs_store s" op] assms(1) call(5) by (simp add: kv_inv_def)
  then show ?thesis
    using assms(1) call locks_ok_keep [of _ "cs_threads s" i pc]
    by (auto simp: kv_inv_def list_all_length nth_list_update log_ok_def returns_ok_def own_results_def)
qed

lemma kv_reach_inv: "kv_reach n threads s \<Longrightarrow> kv_inv s"
proof (induction rule: kv_reach.induct)
  case start
  have "kv_wf (unlocked (kv_store_new n))" "kv_abs (kv_store_new n) = Map.empty"
    using kv_store_new_wf [OF start] kv_store_new_abs [OF start] by (simp_all add: unlocked_def kv_store_new_def)
  then show ?case
    by (simp add: kv_inv_def kv_threads_new_def chains_ok_def list_all_length locks_ok_def log_ok_def returns_ok_def own_results_def)
      (simp add: kv_store_new_def)
qed (auto intro: kv_inv_inner kv_inv_outer)

subsection \<open>Progress\<close>

definition kv_bound :: "kv_state \<Rightarrow> nat" where
  "kv_bound s = kv_entries (cs_store s) + sum_list (map pc_adds (cs_threads s))"

text \<open>At most so many steps of its own has a thread left while the chains are not longer than
  \<open>m\<close>.\<close>

fun pc_rank :: "nat \<Rightarrow> kv_pc \<Rightarrow> nat" where
  "pc_rank m T_Idle = 0"
| "pc_rank m (T_Unlock op b res) = 1"
| "pc_rank m (T_Walk op r b k) = m + 2 - k"
| "pc_rank m (T_Head op r b) = m + 3"
| "pc_rank m (T_Lock op r b) = m + 4"

definition kv_work :: "kv_state \<Rightarrow> nat" where
  "kv_work s = sum_list (map (pc_rank (kv_bound s)) (cs_threads s))"

lemma pc_rank_mono: "m \<le> m' \<Longrightarrow> pc_rank m p \<le> pc_rank m' p"
  by (cases p) auto

lemma sum_rank_mono: "m \<le> m' \<Longrightarrow> sum_list (map (pc_rank m) ts) \<le> sum_list (map (pc_rank m') ts)"
  by (intro sum_list_mono pc_rank_mono)

lemma chain_bound:
  assumes "b < length (buckets (cs_store s))"
  shows "length (buckets (cs_store s) ! b) \<le> kv_bound s"
  using elem_le_sum_list [of b "map length (buckets (cs_store s))"] assms by (simp add: kv_bound_def kv_entries_def)

lemma rank_step:
  assumes "chains_ok (cs_store s)" "pc_ok (cs_store s) pc" "pc_next pc pc'"
  shows "pc_rank (kv_bound s) pc' < pc_rank (kv_bound s) pc"
proof (cases pc)
  case (T_Walk op r b k)
  then have "k < kv_bound s"
    using assms(2) chain_bound [OF chains_index(1) [OF assms(1) length_digest]] by (auto intro: less_le_trans)
  with T_Walk assms(3) show ?thesis by auto
qed (use assms(3) in auto)

lemma kv_work_decreases:
  assumes "kv_inv s" "kv_inner s s'"
  shows "kv_work s' < kv_work s"
  using assms(2)
proof cases
  case (advance i st pc)
  let ?ts = "cs_threads s"
  have step: "step_ok (cs_store s) (?ts ! i) st pc" using enabled_ok [OF assms(1) advance(3)] advance(4) by auto
  have "pc_adds (?ts ! i) \<le> sum_list (map pc_adds ?ts)"
    using elem_le_sum_list [of i "map pc_adds ?ts"] advance(3) by simp
  moreover have "kv_entries st + pc_adds pc \<le> kv_entries (cs_store s) + pc_adds (?ts ! i)"
    using step by (simp add: step_ok_def)
  ultimately have bound: "kv_bound s' \<le> kv_bound s"
    using advance(1,3) by (simp add: kv_bound_def map_update sum_list_update)
  have "pc_rank (kv_bound s) pc < pc_rank (kv_bound s) (?ts ! i)"
    using assms(1) advance(3) step by (intro rank_step) (simp_all add: kv_inv_def list_all_length step_ok_def)
  then have "sum_list (map (pc_rank (kv_bound s)) (?ts[i := pc])) < kv_work s"
    unfolding kv_work_def by (rule sum_update_less [OF advance(3)])
  with sum_rank_mono [OF bound, of "?ts[i := pc]"] show ?thesis
    unfolding kv_work_def [of s'] using advance(1) by simp
next
  case (fault i f)
  then show ?thesis using enabled_ok [OF assms(1) fault(3)] by simp
qed

interpretation kv_steps: bounded_steps kv_inner kv_inv kv_work
  by unfold_locales (rule kv_inv_inner kv_work_decreases; assumption)+

lemma holder_enabled:
  assumes "kv_inv s" "i < length (cs_threads s)" "pc_lock (cs_threads s ! i) \<noteq> None"
  shows "\<exists>s'. kv_inner s s'"
proof -
  have "\<exists>st pc. kv_advance (cs_store s) (cs_threads s ! i) = Some (Inr (st, pc)) \<and> step_ok (cs_store s) (cs_threads s ! i) st pc"
    using assms by (intro advance_ok) (auto simp: kv_inv_def list_all_length)
  then show ?thesis using kv_inner.advance [of s i] assms(1,2) by (auto simp: kv_inv_def)
qed

lemma busy_enabled:
  assumes "kv_inv s" "i < length (cs_threads s)" "cs_threads s ! i \<noteq> T_Idle"
  shows "\<exists>s'. kv_inner s s'"
proof (cases "pc_lock (cs_threads s ! i) = None \<and> kv_advance (cs_store s) (cs_threads s ! i) = None")
  case True
  then obtain op r b where pc: "cs_threads s ! i = T_Lock op r b" using assms(3) by (cases "cs_threads s ! i") auto
  have inv: "chains_ok (cs_store s)" "pc_ok (cs_store s) (cs_threads s ! i)"
    "locks_ok (bucket_locks (cs_store s)) (cs_threads s)"
    using assms(1,2) by (simp_all add: kv_inv_def list_all_length)
  have b: "b < length (bucket_locks (cs_store s))" using pc inv(2) chains_index(2) [OF inv(1) length_digest] by auto
  then have "bucket_locks (cs_store s) ! b"
    using True pc by (auto simp: bucket_lock_def split: if_splits)
  then obtain j where "j < length (cs_threads s)" "pc_lock (cs_threads s ! j) = Some b"
    using inv(3) b by (auto simp: locks_ok_def)
  then show ?thesis using holder_enabled [OF assms(1)] by auto
next
  case False
  then show ?thesis
    using holder_enabled [OF assms(1,2)] enabled_ok [OF assms(1,2)] kv_inner.advance [of s i] assms(1,2)
    by (auto simp: kv_inv_def)
qed

lemma idle_locks:
  assumes "kv_inv s" "list_all (\<lambda>p. p = T_Idle) (cs_threads s)"
  shows "kv_wf (cs_store s)"
proof -
  have inv: "kv_wf (unlocked (cs_store s))" "length (bucket_locks (cs_store s)) = unat (bucket_count (cs_store s))"
    "locks_ok (bucket_locks (cs_store s)) (cs_threads s)"
    using assms(1) by (auto simp: kv_inv_def chains_ok_def kv_wf_def)
  have "\<forall>b < length (bucket_locks (cs_store s)). \<not> bucket_locks (cs_store s) ! b"
    using inv(3) assms(2) by (fastforce simp: locks_ok_def list_all_length)
  then have "bucket_locks (cs_store s) = replicate (unat (bucket_count (cs_store s))) False"
    using inv(2) by (auto intro: nth_equalityI)
  then have "unlocked (cs_store s) = cs_store s" by (simp add: unlocked_def)
  with inv(1) show ?thesis by simp
qed

lemma kv_reach_threads: "kv_reach n threads s \<Longrightarrow> length (cs_threads s) = threads"
  by (induction rule: kv_reach.induct) (auto simp: kv_threads_new_def elim!: kv_innerE kv_outerE)

lemma kv_run_reach: "kv_inner\<^sup>*\<^sup>* s s' \<Longrightarrow> kv_reach n threads s \<Longrightarrow> kv_reach n threads s'"
  by (induction rule: rtranclp_induct) (auto intro: kv_reach.inner)

lemma kv_log_grows: "kv_inner\<^sup>*\<^sup>* s s' \<Longrightarrow> \<exists>l. cs_log s' = cs_log s @ l"
  by (induction rule: rtranclp_induct) (auto elim!: kv_innerE)

text \<open>A run in which the first thread puts a value and still has the mutex.\<close>

lemma thread_step:
  assumes "kv_reach n threads s" "i < threads" "cs_threads s ! i = pc" "pc \<noteq> T_Idle"
    "\<And>op r b. pc = T_Lock op r b \<Longrightarrow> \<not> bucket_locks (cs_store s) ! b"
  shows "\<exists>s' pc'. kv_reach n threads s' \<and> kv_advance (cs_store s) pc = Some (Inr (cs_store s', pc'))
           \<and> step_ok (cs_store s) pc (cs_store s') pc'
           \<and> cs_threads s' = (cs_threads s)[i := pc'] \<and> cs_log s' = cs_log s @ at_unlock i pc'"
proof -
  note inv = kv_reach_inv [OF assms(1)] and len = kv_reach_threads [OF assms(1)]
  have "\<exists>st pc'. kv_advance (cs_store s) pc = Some (Inr (st, pc')) \<and> step_ok (cs_store s) pc st pc'"
    using assms(2-5) inv len by (intro advance_ok) (auto simp: kv_inv_def list_all_length)
  then obtain st pc' where a: "kv_advance (cs_store s) pc = Some (Inr (st, pc'))" "step_ok (cs_store s) pc st pc'" by blast
  let ?s' = "s\<lparr>cs_store := st, cs_threads := (cs_threads s)[i := pc'],
      cs_log := cs_log s @ at_unlock i pc', cs_returned := cs_returned s @ at_unlock i (cs_threads s ! i)\<rparr>"
  have "kv_reach n threads ?s'"
    using a assms(2,3) inv len by (intro kv_reach.inner [OF assms(1) kv_inner.advance]) (simp_all add: kv_inv_def)
  with a show ?thesis by (intro exI [of _ ?s'] exI [of _ pc']) simp
qed

lemma first_put:
  assumes "n \<noteq> 0" "0 < threads"
  shows "\<exists>s b. kv_reach n threads s \<and> cs_log s = [(0, Op_Put k v, Done)] \<and> cs_threads s ! 0 = T_Unlock (Op_Put k v) b Done"
proof -
  let ?op = "Op_Put k v" and ?s = "kv_threads_new n threads"
  let ?d = "op_digest ?op" and ?b = "kv_index (kv_store_new n) (op_digest ?op)"
  have r: "kv_reach n threads ?s" by (rule kv_reach.start [OF assms(1)])
  have ok: "chains_ok (cs_store ?s)" using kv_reach_inv [OF r] by (simp add: kv_inv_def)
  then have "kv_outer ?s (?s\<lparr>cs_threads := (cs_threads ?s)[0 := T_Lock ?op ?d ?b]\<rparr>)"
    using assms(2) kv_begin_ok [of "cs_store ?s" ?op] by (intro kv_outer.call) (simp_all add: kv_threads_new_def)
  with r have r1: "kv_reach n threads (?s\<lparr>cs_threads := (cs_threads ?s)[0 := T_Lock ?op ?d ?b]\<rparr>)" by (rule kv_reach.outer)
  have b: "?b < unat n"
    using chains_index(1) [OF ok, of ?d] by (simp add: kv_threads_new_def kv_store_new_def)
  obtain s2 where s2: "kv_reach n threads s2" "cs_threads s2 ! 0 = T_Head ?op ?d ?b" "cs_log s2 = []"
    "buckets (cs_store s2) ! ?b = []" "length (buckets (cs_store s2)) = unat n"
    using thread_step [OF r1, of 0 "T_Lock ?op ?d ?b"] assms(2) b
    by (auto simp: step_ok_def kv_threads_new_def kv_store_new_def)
  obtain s3 pc where s3: "kv_reach n threads s3" "cs_threads s3 = (cs_threads s2)[0 := pc]" "cs_log s3 = at_unlock 0 pc"
    "kv_advance (cs_store s2) (T_Head ?op ?d ?b) = Some (Inr (cs_store s3, pc))"
    using thread_step [OF s2(1) assms(2) s2(2)] s2(3) by auto
  have "pc = T_Unlock ?op ?b Done"
    using s3(4) s2(4,5) b by (simp add: bucket_read_def kv_missing_def kv_entry_new_def mem_read_def)
  with s3(1-3) kv_reach_threads [OF s2(1)] assms(2) show ?thesis by auto
qed

subsection \<open>Properties\<close>

text \<open>C1. The store is linearizable under any number of threads and any interleaving of their
  steps: no access leaves a chain, the operations in the order of their decisive steps
  have the results, and leave the contents, of a sequential map where the first write
  wins, and each thread gets the results of its own operations in the order of its calls.\<close>

theorem kv_linearizable:
  assumes "kv_reach n threads s"
  shows "cs_crash s = None
       \<and> kv_spec_run Map.empty (map (fst \<circ> snd) (cs_log s)) = (kv_abs (cs_store s), map (snd \<circ> snd) (cs_log s))
       \<and> (\<forall>i < threads. filter (\<lambda>e. fst e = i) (cs_log s) =
            filter (\<lambda>e. fst e = i) (cs_returned s) @ at_unlock i (cs_threads s ! i))"
  using kv_reach_inv [OF assms] kv_reach_threads [OF assms]
  by (simp add: kv_inv_def log_ok_def returns_ok_def own_results_def)

theorem kv_linearizable_witness:
  "\<exists>s. kv_reach 4 2 s \<and> cs_crash s = None \<and> cs_log s = [(0, Op_Put [1] [9], Done)]
     \<and> kv_abs (cs_store s) = [op_digest (Op_Put [1] [9]) \<mapsto> [9]]"
proof -
  obtain s where s: "kv_reach 4 2 s" "cs_log s = [(0, Op_Put [1] [9], Done)]"
    using first_put [of 4 2 "[1]" "[9]"] by auto
  then show ?thesis using kv_linearizable [OF s(1)] by (auto simp: split_def Let_def)
qed

text \<open>Mutual exclusion for each bucket: two threads never have the mutex of the same bucket,
  and the mutex of a bucket is held exactly while a thread is between its lock and its unlock.\<close>

lemma kv_bucket_exclusion:
  assumes "kv_reach n threads s"
  shows "(\<forall>b < length (bucket_locks (cs_store s)). bucket_locks (cs_store s) ! b \<longleftrightarrow>
            (\<exists>i < threads. pc_lock (cs_threads s ! i) = Some b))
       \<and> (\<forall>i < threads. \<forall>j < threads. \<forall>b.
            pc_lock (cs_threads s ! i) = Some b \<and> pc_lock (cs_threads s ! j) = Some b \<longrightarrow> i = j)"
  using kv_reach_inv [OF assms] kv_reach_threads [OF assms]
  unfolding kv_inv_def locks_ok_def by blast

lemma kv_bucket_exclusion_witness:
  "\<exists>s b. kv_reach 4 2 s \<and> pc_lock (cs_threads s ! 0) = Some b \<and> pc_lock (cs_threads s ! 1) \<noteq> Some b"
proof -
  obtain s b where s: "kv_reach 4 2 s" "cs_threads s ! 0 = T_Unlock (Op_Put [1] [9]) b Done"
    using first_put [of 4 2 "[1]" "[9]"] by auto
  then have "pc_lock (cs_threads s ! 0) = Some b" by simp
  moreover have "pc_lock (cs_threads s ! 1) \<noteq> Some b"
    using kv_bucket_exclusion [OF s(1)] calculation by (metis One_nat_def less_2_cases_iff zero_neq_one)
  ultimately show ?thesis using s(1) by blast
qed

text \<open>C19. No deadlock and no endless walk: from every reachable state the threads make only
  boundedly many steps before a new call, and when none can make a step, all calls
  have returned, with the results of the log, and the store is well formed with every
  mutex free.\<close>

theorem kv_threads_finish:
  assumes "kv_reach n threads s"
  shows "(\<forall>m s'. (kv_inner ^^ m) s s' \<longrightarrow> m \<le> kv_work s)
       \<and> ((\<nexists>s'. kv_inner s s') \<longrightarrow>
            cs_threads s = replicate threads T_Idle \<and> kv_wf (cs_store s)
            \<and> (\<forall>i < threads. filter (\<lambda>e. fst e = i) (cs_returned s) = filter (\<lambda>e. fst e = i) (cs_log s)))"
proof (intro conjI impI allI)
  note inv = kv_reach_inv [OF assms] and len = kv_reach_threads [OF assms]
  show "m \<le> kv_work s" if "(kv_inner ^^ m) s s'" for m s' using that inv by (rule kv_steps.run_bounded)
  assume stuck: "\<nexists>s'. kv_inner s s'"
  have idle: "cs_threads s ! i = T_Idle" if "i < threads" for i using busy_enabled [OF inv, of i] stuck that len by blast
  then show ts: "cs_threads s = replicate threads T_Idle" using len by (simp add: list_eq_iff_nth_eq)
  show "kv_wf (cs_store s)" by (rule idle_locks [OF inv]) (simp add: ts list_all_iff)
  show "filter (\<lambda>e. fst e = i) (cs_returned s) = filter (\<lambda>e. fst e = i) (cs_log s)" if "i < threads" for i
    using inv len idle [OF that] that by (simp add: kv_inv_def returns_ok_def own_results_def)
qed

theorem kv_threads_finish_witness:
  "\<exists>s. kv_reach 4 2 s \<and> cs_threads s = [T_Idle, T_Idle] \<and> kv_wf (cs_store s) \<and> hd (cs_log s) = (0, Op_Put [1] [9], Done)"
proof -
  obtain s where s: "kv_reach 4 2 s" "cs_log s = [(0, Op_Put [1] [9], Done)]"
    using first_put [of 4 2 "[1]" "[9]"] by auto
  obtain s' where s': "kv_inner\<^sup>*\<^sup>* s s'" "kv_reach 4 2 s'" "\<nexists>s''. kv_inner s' s''" using kv_steps.comes_to_rest [OF kv_reach_inv] kv_run_reach s(1) by blast
  obtain l where "cs_log s' = cs_log s @ l" using kv_log_grows [OF s'(1)] by blast
  with kv_threads_finish [OF s'(2)] s'(2,3) s(2) show ?thesis by (auto simp: numeral_2_eq_2)
qed

end
