(* ===== verification/Lookup_Heap.thy ===== *)
theory Lookup_Heap
  imports Lookup_Table
begin

text \<open>
  \<open>src/src/node/lookup_table.c\<close> once more, with its pointers: the nodes of the chain are
  objects of a heap, linked by \<open>next\<close>, allocated by \<open>create_node\<close> and freed by the removals.
  The operations follow the code statement by statement, \<open>prev\<close> and \<open>current\<close> included; reading
  or writing a node that is not allocated is a fault.

  The operations on lists in \<open>Lookup_Table\<close> are what these compute; the lemmas show it, so that
  the contract of the address book holds for the linked structure. What only this model can
  say is what the searches return: a pointer into a node that the table still owns.

  \<open>malloc\<close> is an argument: the address it gives, \<open>None\<close> when it fails.
\<close>

subsection \<open>The structures\<close>

record TableNode =
  tn_info :: node_info_t
  tn_next :: "nat option"

type_synonym tn_heap = "nat \<rightharpoonup> TableNode"

record table_mem =
  tp_heap :: tn_heap
  tp_head :: "nat option"
  tp_mutex :: bool
  tp_size :: size_t

definition tp_lock :: "table_mem \<Rightarrow> table_mem run" where
  "tp_lock t = (if tp_mutex t then None else Some (Inr (t\<lparr>tp_mutex := True\<rparr>)))"

definition tp_unlock :: "table_mem \<Rightarrow> table_mem" where
  "tp_unlock t = t\<lparr>tp_mutex := False\<rparr>"

text \<open>\<open>current->info\<close> and \<open>current->next\<close>.\<close>

definition node_at :: "tn_heap \<Rightarrow> nat \<Rightarrow> TableNode run" where
  "node_at h a = (case h a of None \<Rightarrow> Some (Inl Dangling) | Some n \<Rightarrow> Some (Inr n))"

subsection \<open>Operations\<close>

text \<open>A new table owns no node.\<close>

definition lookup_table_create_ptr :: "bool \<Rightarrow> bool \<Rightarrow> table_mem option" where
  "lookup_table_create_ptr mem_ok mutex_ok =
     (if \<not> mem_ok then None
      else if \<not> mutex_ok then None
      else Some \<lparr>tp_heap = Map.empty, tp_head = None, tp_mutex = False, tp_size = 0\<rparr>)"

text \<open>The loop of the searches; the result is the value of \<open>current\<close> when it ends.\<close>

partial_function (option) find_loop ::
    "(node_info_t \<Rightarrow> bool faulty) \<Rightarrow> tn_heap \<Rightarrow> nat option \<Rightarrow> nat option run" where
  "find_loop test h current =
     (case current of None \<Rightarrow> Some (Inr None)
      | Some a \<Rightarrow>
          run_bind (node_at h a) (\<lambda>n.
          run_bind (Some (test (tn_info n))) (\<lambda>hit.
          if hit then Some (Inr (Some a)) else find_loop test h (tn_next n))))"

text \<open>The loop of the removals: the heap and the head pointer after the node was unlinked and
  freed, or \<open>None\<close> when no node passed the test.\<close>

partial_function (option) remove_loop ::
    "(node_info_t \<Rightarrow> bool faulty) \<Rightarrow> tn_heap \<Rightarrow> nat option \<Rightarrow> nat option \<Rightarrow> nat option
     \<Rightarrow> (tn_heap \<times> nat option) option run" where
  "remove_loop test h head prev current =
     (case current of None \<Rightarrow> Some (Inr None)
      | Some a \<Rightarrow>
          run_bind (node_at h a) (\<lambda>n.
          run_bind (Some (test (tn_info n))) (\<lambda>hit.
          if hit
          then (case prev of
                  Some p \<Rightarrow>
                    run_bind (node_at h p) (\<lambda>pn.
                    Some (Inr (Some ((h(p \<mapsto> pn\<lparr>tn_next := tn_next n\<rparr>))(a := None), head))))
                | None \<Rightarrow> Some (Inr (Some (h(a := None), tn_next n))))
          else remove_loop test h head (Some a) (tn_next n))))"

text \<open>The loop of \<open>lookup_table_destroy\<close>.\<close>

partial_function (option) free_loop :: "tn_heap \<Rightarrow> nat option \<Rightarrow> tn_heap run" where
  "free_loop h current =
     (case current of None \<Rightarrow> Some (Inr h)
      | Some a \<Rightarrow> run_bind (node_at h a) (\<lambda>n. free_loop (h(a := None)) (tn_next n)))"

text \<open>What is left of the nodes' memory when the table is gone.\<close>

definition lookup_table_destroy_ptr :: "table_mem option \<Rightarrow> tn_heap option run" where
  "lookup_table_destroy_ptr table =
     (case table of None \<Rightarrow> Some (Inr None)
      | Some t \<Rightarrow>
          run_bind (tp_lock t) (\<lambda>t1.
          run_bind (free_loop (tp_heap t1) (tp_head t1)) (\<lambda>h. Some (Inr (Some h)))))"

definition lookup_table_add_ptr ::
    "nat option \<Rightarrow> table_mem option \<Rightarrow> byte list option \<Rightarrow> c_int \<Rightarrow> byte list option
     \<Rightarrow> (c_int \<times> table_mem option) run" where
  "lookup_table_add_ptr malloc table host port hash =
     (case (table, host, hash) of
        (Some t, Some h, Some hs) \<Rightarrow>
          run_bind (tp_lock t) (\<lambda>t1.
          run_bind (find_loop (same_addr h port) (tp_heap t1) (tp_head t1)) (\<lambda>current.
          case current of Some _ \<Rightarrow> Some (Inr (0, Some (tp_unlock t1)))
          | None \<Rightarrow>
            run_bind (Some (create_node (malloc \<noteq> None) h port hs)) (\<lambda>info.
            case (malloc, info) of
              (Some new_node, Some n) \<Rightarrow>
                Some (Inr (1, Some (tp_unlock
                  (t1\<lparr>tp_heap := (tp_heap t1)(new_node \<mapsto> \<lparr>tn_info = n, tn_next = tp_head t1\<rparr>),
                      tp_head := Some new_node, tp_size := tp_size t1 + 1\<rparr>))))
            | _ \<Rightarrow> Some (Inr (- 1, Some (tp_unlock t1))))))
      | _ \<Rightarrow> Some (Inr (- 1, table)))"

definition remove_first_ptr ::
    "(node_info_t \<Rightarrow> bool faulty) \<Rightarrow> table_mem \<Rightarrow> (c_int \<times> table_mem option) run" where
  "remove_first_ptr test t =
     run_bind (tp_lock t) (\<lambda>t1.
     run_bind (remove_loop test (tp_heap t1) (tp_head t1) None (tp_head t1)) (\<lambda>r.
     case r of None \<Rightarrow> Some (Inr (0, Some (tp_unlock t1)))
     | Some (h, hd') \<Rightarrow>
         Some (Inr (1, Some (tp_unlock (t1\<lparr>tp_heap := h, tp_head := hd', tp_size := tp_size t1 - 1\<rparr>))))))"

definition lookup_table_remove_ptr ::
    "table_mem option \<Rightarrow> byte list option \<Rightarrow> c_int \<Rightarrow> (c_int \<times> table_mem option) run" where
  "lookup_table_remove_ptr table host port =
     (case (table, host) of (Some t, Some h) \<Rightarrow> remove_first_ptr (same_addr h port) t
      | _ \<Rightarrow> Some (Inr (- 1, table)))"

definition lookup_table_remove_by_hash_ptr ::
    "table_mem option \<Rightarrow> byte list option \<Rightarrow> (c_int \<times> table_mem option) run" where
  "lookup_table_remove_by_hash_ptr table hash =
     (case (table, hash) of
        (Some t, Some hs) \<Rightarrow> remove_first_ptr (\<lambda>n. hash_equal (info_hash n) hs) t
      | _ \<Rightarrow> Some (Inr (- 1, table)))"

text \<open>The searches return the address of the node, \<open>&current->info\<close>.\<close>

definition find_first_ptr ::
    "(node_info_t \<Rightarrow> bool faulty) \<Rightarrow> table_mem \<Rightarrow> (nat option \<times> table_mem option) run" where
  "find_first_ptr test t =
     run_bind (tp_lock t) (\<lambda>t1.
     run_bind (find_loop test (tp_heap t1) (tp_head t1)) (\<lambda>result.
     Some (Inr (result, Some (tp_unlock t1)))))"

definition lookup_table_find_ptr ::
    "table_mem option \<Rightarrow> byte list option \<Rightarrow> c_int \<Rightarrow> (nat option \<times> table_mem option) run" where
  "lookup_table_find_ptr table host port =
     (case (table, host) of (Some t, Some h) \<Rightarrow> find_first_ptr (same_addr h port) t
      | _ \<Rightarrow> Some (Inr (None, table)))"

definition lookup_table_find_by_hash_ptr ::
    "table_mem option \<Rightarrow> byte list option \<Rightarrow> (nat option \<times> table_mem option) run" where
  "lookup_table_find_by_hash_ptr table hash =
     (case (table, hash) of
        (Some t, Some hs) \<Rightarrow> find_first_ptr (\<lambda>n. hash_equal (info_hash n) hs) t
      | _ \<Rightarrow> Some (Inr (None, table)))"

subsection \<open>Chains\<close>

primrec tn_chain :: "tn_heap \<Rightarrow> nat option \<Rightarrow> nat list \<Rightarrow> bool" where
  "tn_chain h p [] = (p = None)"
| "tn_chain h p (a # as) = (p = Some a \<and> (\<exists>n. h a = Some n \<and> tn_chain h (tn_next n) as))"

abbreviation info_at :: "tn_heap \<Rightarrow> nat \<Rightarrow> node_info_t" where
  "info_at h a \<equiv> tn_info (the (h a))"

lemma tn_chain_cong: "(\<And>a. a \<in> set as \<Longrightarrow> h' a = h a) \<Longrightarrow> tn_chain h' p as = tn_chain h p as"
  by (induction as arbitrary: p) auto

lemma tn_chain_upd [simp]: "a \<notin> set as \<Longrightarrow> tn_chain (h(a := x)) p as = tn_chain h p as"
  by (rule tn_chain_cong) auto

lemma tn_chain_alive: "tn_chain h p as \<Longrightarrow> a \<in> set as \<Longrightarrow> h a \<noteq> None"
  by (induction as arbitrary: p) auto

lemma tn_chain_unlink:
  assumes "tn_chain h p (bs @ q # a # as)" "distinct (bs @ q # a # as)" "h q = Some qn" "h a = Some n"
  shows "tn_chain ((h(q \<mapsto> qn\<lparr>tn_next := tn_next n\<rparr>))(a := None)) p (bs @ q # as)"
  using assms
proof (induction bs arbitrary: p)
  case Nil
  then have "tn_chain (h(q \<mapsto> qn\<lparr>tn_next := tn_next n\<rparr>, a := None)) (tn_next n) as"
    by (simp del: fun_upd_apply)
  with Nil.prems show ?case by (auto simp del: fun_upd_apply simp: fun_upd_other fun_upd_same)
qed auto

lemma find_in: "find P xs = Some a \<Longrightarrow> a \<in> set xs \<and> P a"
  by (auto simp: find_Some_iff)

lemma find_loop_chain:
  assumes "tn_chain h p as" "\<And>a. a \<in> set as \<Longrightarrow> test (info_at h a) = Inr (P (info_at h a))"
  shows "find_loop test h p = Some (Inr (find (\<lambda>a. P (info_at h a)) as))"
  using assms
proof (induction as arbitrary: p)
  case Nil
  then show ?case by (subst find_loop.simps) simp
next
  case (Cons a as)
  then obtain n where n: "p = Some a" "h a = Some n" "tn_chain h (tn_next n) as" by auto
  have "test (tn_info n) = Inr (P (tn_info n))" using Cons.prems(2) [of a] n(2) by simp
  with n Cons.IH [OF n(3)] Cons.prems(2) show ?case
    by (subst find_loop.simps) (simp add: node_at_def)
qed

text \<open>The removal, with the nodes already passed in front.\<close>

lemma remove_loop_chain:
  assumes "tn_chain h hd0 (bs @ as)" "distinct (bs @ as)"
    "\<And>a. a \<in> set as \<Longrightarrow> test (info_at h a) = Inr (P (info_at h a))"
    "prev = (if bs = [] then None else Some (last bs))" "current = (case as of [] \<Rightarrow> None | a # _ \<Rightarrow> Some a)"
  shows "case find (\<lambda>a. P (info_at h a)) as of
           None \<Rightarrow> remove_loop test h hd0 prev current = Some (Inr None)
         | Some a \<Rightarrow> \<exists>h' hd'. remove_loop test h hd0 prev current = Some (Inr (Some (h', hd')))
             \<and> tn_chain h' hd' (bs @ remove1 a as) \<and> h' a = None \<and> dom h' = dom h - {a}
             \<and> (\<forall>c. c \<noteq> a \<longrightarrow> map_option tn_info (h' c) = map_option tn_info (h c))"
  using assms
proof (induction as arbitrary: bs prev current)
  case Nil
  then show ?case by (simp add: remove_loop.simps)
next
  case (Cons a as)
  obtain n where n: "h a = Some n" using tn_chain_alive [OF Cons.prems(1), of a] by auto
  have test: "test (tn_info n) = Inr (P (tn_info n))" using Cons.prems(3) [of a] n by simp
  show ?case
  proof (cases "P (tn_info n)")
    case True
    show ?thesis
    proof (cases "bs = []")
      case True
      have "tn_chain (h(a := None)) (tn_next n) as"
        using Cons.prems(1,2) n True by (auto simp del: fun_upd_apply)
      with True \<open>P (tn_info n)\<close> test n Cons.prems(4,5) show ?thesis
        by (simp add: remove_loop.simps [of test h] node_at_def)
    next
      case False
      then obtain cs q where bs: "bs = cs @ [q]" by (metis append_butlast_last_id)
      obtain qn where q: "h q = Some qn" using tn_chain_alive [OF Cons.prems(1), of q] bs by auto
      have "tn_chain ((h(q \<mapsto> qn\<lparr>tn_next := tn_next n\<rparr>))(a := None)) hd0 (cs @ q # as)"
        using tn_chain_unlink [of h hd0 cs q a as qn n] Cons.prems(1,2) bs q n by simp
      with \<open>P (tn_info n)\<close> test n q bs Cons.prems(2,4,5) show ?thesis
        by (simp add: remove_loop.simps [of test h] node_at_def) auto
    qed
  next
    case False
    let ?next = "case as of [] \<Rightarrow> None | c # _ \<Rightarrow> Some c"
    have "tn_next n = ?next"
      using Cons.prems(1) n by (induction bs arbitrary: hd0) (auto split: list.split)
    then have step: "remove_loop test h hd0 prev current = remove_loop test h hd0 (Some a) ?next"
      using False test n Cons.prems(5) by (subst remove_loop.simps) (simp add: node_at_def)
    have "a \<notin> set as" using Cons.prems(2) by simp
    have "case find (\<lambda>a. P (info_at h a)) as of
           None \<Rightarrow> remove_loop test h hd0 (Some a) ?next = Some (Inr None)
         | Some c \<Rightarrow> \<exists>h' hd'. remove_loop test h hd0 (Some a) ?next = Some (Inr (Some (h', hd')))
             \<and> tn_chain h' hd' ((bs @ [a]) @ remove1 c as) \<and> h' c = None \<and> dom h' = dom h - {c}
             \<and> (\<forall>b. b \<noteq> c \<longrightarrow> map_option tn_info (h' b) = map_option tn_info (h b))"
      by (rule Cons.IH [of "bs @ [a]"]) (use Cons.prems in \<open>simp_all\<close>)
    then show ?thesis
      unfolding step using False n \<open>a \<notin> set as\<close>
      by (cases "find (\<lambda>a. P (info_at h a)) as") (auto dest: find_in)
  qed
qed

lemma free_loop_chain:
  "tn_chain h p as \<Longrightarrow> distinct as \<Longrightarrow> \<exists>h'. free_loop h p = Some (Inr h') \<and> dom h' = dom h - set as"
proof (induction as arbitrary: h p)
  case Nil
  then show ?case by (subst free_loop.simps) simp
next
  case (Cons a as)
  then obtain n where n: "p = Some a" "h a = Some n" "tn_chain h (tn_next n) as" by auto
  obtain h' where "free_loop (h(a := None)) (tn_next n) = Some (Inr h')" "dom h' = dom h - {a} - set as"
    using Cons.IH [of "h(a := None)" "tn_next n"] n Cons.prems(2) by (auto simp del: fun_upd_apply)
  with n show ?case by (subst free_loop.simps) (auto simp: node_at_def)
qed

subsection \<open>The list a table holds\<close>

text \<open>The nodes from a pointer on; \<open>None\<close> when the chain is broken or cyclic.\<close>

partial_function (option) chain_nodes :: "tn_heap \<Rightarrow> nat option \<Rightarrow> node_info_t list option" where
  "chain_nodes h p =
     (case p of None \<Rightarrow> Some []
      | Some a \<Rightarrow> Option.bind (h a) (\<lambda>n. Option.bind (chain_nodes h (tn_next n)) (\<lambda>ns. Some (tn_info n # ns))))"

definition tp_view :: "table_mem \<Rightarrow> lookup_table_t" where
  "tp_view T = \<lparr>lt_head = the (chain_nodes (tp_heap T) (tp_head T)), lt_mutex = tp_mutex T, lt_size = tp_size T\<rparr>"

text \<open>The chain from \<open>head\<close> ends, meets no node twice, and is all the memory the table has.\<close>

definition tp_ok :: "table_mem \<Rightarrow> bool" where
  "tp_ok T \<longleftrightarrow> (\<exists>as. tn_chain (tp_heap T) (tp_head T) as \<and> distinct as \<and> set as = dom (tp_heap T))"

lemma chain_nodes_eq: "tn_chain h p as \<Longrightarrow> chain_nodes h p = Some (map (info_at h) as)"
proof (induction as arbitrary: p)
  case Nil
  then show ?case by (subst chain_nodes.simps) simp
next
  case (Cons a as)
  then show ?case by (subst chain_nodes.simps) auto
qed

lemma tp_view_head:
  "tn_chain (tp_heap T) (tp_head T) as \<Longrightarrow>
   tp_view T = \<lparr>lt_head = map (info_at (tp_heap T)) as, lt_mutex = tp_mutex T, lt_size = tp_size T\<rparr>"
  by (simp add: tp_view_def chain_nodes_eq)

lemma find_map: "find P (map f xs) = map_option f (find (\<lambda>x. P (f x)) xs)"
  by (induction xs) simp_all

lemma remove_first_map:
  "distinct as \<Longrightarrow> remove_first P (map f as) =
     (case find (\<lambda>x. P (f x)) as of None \<Rightarrow> map f as | Some a \<Rightarrow> map f (remove1 a as))"
proof (induction as)
  case (Cons a as)
  then show ?case by (cases "find (\<lambda>x. P (f x)) as") (auto dest: find_in)
qed simp

subsection \<open>The pointer operations implement the list operations\<close>

text \<open>One result of a pointer operation against one of a list operation: both return, with
  related values, and the new table holds the new list.\<close>

definition refines :: "('a \<Rightarrow> 'b \<Rightarrow> table_mem \<Rightarrow> bool) \<Rightarrow> ('a \<times> table_mem option) run
    \<Rightarrow> ('b \<times> lookup_table_t option) run \<Rightarrow> bool" where
  "refines R c a \<longleftrightarrow>
     (\<exists>x y T. c = Some (Inr (x, Some T)) \<and> a = Some (Inr (y, Some (tp_view T))) \<and> tp_ok T \<and> R x y T)"

lemma tp_okE:
  assumes "tp_ok T" "lt_ok (tp_view T)"
  obtains as where "tn_chain (tp_heap T) (tp_head T) as" "distinct as" "set as = dom (tp_heap T)"
    "lt_head (tp_view T) = map (info_at (tp_heap T)) as"
    "tp_lock T = Some (Inr (T\<lparr>tp_mutex := True\<rparr>))" "tp_unlock (T\<lparr>tp_mutex := True\<rparr>) = T"
  using assms by (auto simp: tp_ok_def tp_view_head lt_ok_def tp_lock_def tp_unlock_def)

lemma find_first_refines:
  assumes ok: "tp_ok T" "lt_ok (tp_view T)"
    and test: "\<forall>n \<in> set (lt_head (tp_view T)). test n = Inr (P n)"
  shows "refines (\<lambda>p i T'. T' = T \<and> i = map_option (info_at (tp_heap T)) p
             \<and> (\<forall>a. p = Some a \<longrightarrow> tp_heap T a \<noteq> None))
           (find_first_ptr test T) (lt_find_first test (tp_view T))"
proof -
  obtain as where as: "tn_chain (tp_heap T) (tp_head T) as" "distinct as" "set as = dom (tp_heap T)"
    "lt_head (tp_view T) = map (info_at (tp_heap T)) as"
    "tp_lock T = Some (Inr (T\<lparr>tp_mutex := True\<rparr>))" "tp_unlock (T\<lparr>tp_mutex := True\<rparr>) = T"
    by (rule tp_okE [OF ok])
  have "find_first_ptr test T = Some (Inr (find (\<lambda>a. P (info_at (tp_heap T) a)) as, Some T))"
    using find_loop_chain [OF as(1), of test P] test as by (simp add: find_first_ptr_def)
  then show ?thesis
    using ok(1) as(3,4) lt_find_first_eq [OF ok(2) test]
    by (auto simp: refines_def find_map dest!: find_in)
qed

lemma remove_first_refines:
  assumes ok: "tp_ok T" "lt_ok (tp_view T)"
    and test: "\<forall>n \<in> set (lt_head (tp_view T)). test n = Inr (P n)"
  shows "refines (\<lambda>c c' T'. c = c'
             \<and> (\<forall>a T1. find_first_ptr test T = Some (Inr (Some a, T1)) \<longrightarrow> c = 1 \<and> tp_heap T' a = None))
           (remove_first_ptr test T) (lt_remove_first test (tp_view T))"
proof -
  obtain as where as: "tn_chain (tp_heap T) (tp_head T) as" "distinct as" "set as = dom (tp_heap T)"
    "lt_head (tp_view T) = map (info_at (tp_heap T)) as"
    "tp_lock T = Some (Inr (T\<lparr>tp_mutex := True\<rparr>))" "tp_unlock (T\<lparr>tp_mutex := True\<rparr>) = T"
    by (rule tp_okE [OF ok])
  let ?h = "tp_heap T"
  have f: "find_first_ptr test T = Some (Inr (find (\<lambda>a. P (info_at ?h a)) as, Some T))"
    using find_loop_chain [OF as(1), of test P] test as by (simp add: find_first_ptr_def)
  have cur: "tp_head T = (case as of [] \<Rightarrow> None | a # _ \<Rightarrow> Some a)"
    using as(1) by (cases as) auto
  note loop = remove_loop_chain [of ?h "tp_head T" "[]" as test P None "tp_head T"]
  show ?thesis
  proof (cases "find (\<lambda>a. P (info_at ?h a)) as")
    case None
    then have "remove_first_ptr test T = Some (Inr (0, Some T))"
      using loop cur as test by (simp add: remove_first_ptr_def)
    moreover have "lt_remove_first test (tp_view T) = Some (Inr (0, Some (tp_view T)))"
      using lt_remove_first_eq [OF ok(2) test] None as(4) by (auto simp: find_None_iff)
    ultimately show ?thesis using ok(1) f None by (auto simp: refines_def)
  next
    case (Some a)
    then obtain h' hd' where r: "remove_loop test ?h (tp_head T) None (tp_head T) = Some (Inr (Some (h', hd')))"
      "tn_chain h' hd' (remove1 a as)" "h' a = None" "dom h' = dom ?h - {a}"
      "\<And>c. c \<noteq> a \<Longrightarrow> map_option tn_info (h' c) = map_option tn_info (?h c)"
      using loop cur as(1,2) test as(4) by auto
    define T' where "T' = T\<lparr>tp_heap := h', tp_head := hd', tp_size := tp_size T - 1\<rparr>"
    have "remove_first_ptr test T = Some (Inr (1, Some T'))"
      using r(1) as(5,6) ok(2) by (simp add: remove_first_ptr_def T'_def tp_unlock_def tp_view_def lt_ok_def)
    moreover have same: "info_at h' c = info_at ?h c" if "c \<in> set as" "c \<noteq> a" for c
    proof -
      have "c \<in> dom h'" "c \<in> dom ?h" using that as(3) r(4) by simp_all
      then show ?thesis using r(5) [OF that(2)] by auto
    qed
    have "map (info_at h') (remove1 a as) = remove_first P (map (info_at ?h) as)"
      using as(2) Some same by (simp add: remove_first_map)
    then have "tp_view T' = tp_view T\<lparr>lt_head := remove_first P (lt_head (tp_view T)), lt_size := tp_size T - 1\<rparr>"
      using r(2) as(1) by (simp add: tp_view_head T'_def)
    then have "lt_remove_first test (tp_view T) = Some (Inr (1, Some (tp_view T')))"
      using lt_remove_first_eq [OF ok(2) test] Some as(4) find_in [OF Some]
      by (auto simp: tp_view_def)
    moreover have "tp_ok T'"
      unfolding tp_ok_def T'_def using r(2,4) as(2,3) by (intro exI [of _ "remove1 a as"]) simp
    ultimately show ?thesis using f Some r(3) by (auto simp: refines_def T'_def)
  qed
qed

lemma add_refines:
  assumes ok: "tp_ok T" "lt_ok (tp_view T)" and hash: "length hs = 20"
    and malloc: "\<And>a. malloc = Some a \<Longrightarrow> tp_heap T a = None"
  shows "refines (\<lambda>c c' _. c = c') (lookup_table_add_ptr malloc (Some T) (Some host) port (Some hs))
           (lookup_table_add (malloc \<noteq> None) (Some (tp_view T)) (Some host) port (Some hs))"
proof -
  obtain as where as: "tn_chain (tp_heap T) (tp_head T) as" "distinct as" "set as = dom (tp_heap T)"
    "lt_head (tp_view T) = map (info_at (tp_heap T)) as"
    "tp_lock T = Some (Inr (T\<lparr>tp_mutex := True\<rparr>))" "tp_unlock (T\<lparr>tp_mutex := True\<rparr>) = T"
    by (rule tp_okE [OF ok])
  let ?h = "tp_heap T" and ?k = "(cstr host, port)"
  let ?n = "\<lparr>info_host = strncpy host 45 @ [0], info_port = port, info_hash = hs\<rparr>"
  have f: "find_loop (same_addr host port) ?h (tp_head T) = Some (Inr (find (\<lambda>a. lt_key (info_at ?h a) = ?k) as))"
    by (rule find_loop_chain [OF as(1)]) (simp add: same_addr_key)
  note spec = lookup_table_add_eq [OF ok(2) hash, of "malloc \<noteq> None" host port]
  show ?thesis
  proof (cases "find (\<lambda>a. lt_key (info_at ?h a) = ?k) as")
    case (Some a)
    then have "?k \<in> lt_key ` set (lt_head (tp_view T))" using find_in [OF Some] as(4) by force
    with Some show ?thesis using spec f as(5,6) ok(1) by (simp add: refines_def lookup_table_add_ptr_def)
  next
    case None
    then have new: "?k \<notin> lt_key ` set (lt_head (tp_view T))" using as(4) by (auto simp: find_None_iff)
    show ?thesis
    proof (cases malloc)
      case None
      with new \<open>find _ as = None\<close> show ?thesis
        using spec f as(5,6) ok(1) by (simp add: refines_def lookup_table_add_ptr_def create_node_def)
    next
      case (Some a)
      then have a: "?h a = None" "a \<notin> set as" using malloc as(3) by auto
      define T' where "T' = T\<lparr>tp_heap := ?h(a \<mapsto> \<lparr>tn_info = ?n, tn_next = tp_head T\<rparr>),
                               tp_head := Some a, tp_size := tp_size T + 1\<rparr>"
      have c: "tn_chain (tp_heap T') (tp_head T') (a # as)"
        using as(1) a(2) by (simp add: T'_def fun_upd_same del: fun_upd_apply)
      have "map (info_at (tp_heap T')) as = map (info_at ?h) as" using a(2) by (auto simp: T'_def)
      then have "tp_view T' = tp_view T\<lparr>lt_head := ?n # lt_head (tp_view T), lt_size := tp_size T + 1\<rparr>"
        using tp_view_head [OF c] tp_view_head [OF as(1)] by (simp add: T'_def)
      moreover have "tp_ok T'"
        unfolding tp_ok_def using c as(2,3) a by (intro exI [of _ "a # as"]) (simp add: T'_def)
      moreover have "lookup_table_add_ptr malloc (Some T) (Some host) port (Some hs) = Some (Inr (1, Some T'))"
        using Some f \<open>find _ as = None\<close> as(5) hash ok(2)
        by (simp add: lookup_table_add_ptr_def create_node_def mem_read_def T'_def tp_unlock_def tp_view_def lt_ok_def)
      ultimately show ?thesis using spec new Some by (simp add: refines_def tp_view_def)
    qed
  qed
qed

text \<open>The operations with an address as one argument; the caller of a search reads the hash
  through the pointer it got.\<close>

abbreviation ptr_add ::
    "(tn_heap \<Rightarrow> nat) \<Rightarrow> table_mem option \<Rightarrow> byte list \<times> c_int \<Rightarrow> byte list \<Rightarrow> (c_int \<times> table_mem option) run" where
  "ptr_add fresh T a v \<equiv>
     lookup_table_add_ptr (map_option (\<lambda>t. fresh (tp_heap t)) T) T (Some (fst a)) (snd a) (Some v)"

abbreviation ptr_remove :: "table_mem option \<Rightarrow> byte list \<times> c_int \<Rightarrow> (c_int \<times> table_mem option) run" where
  "ptr_remove T a \<equiv> lookup_table_remove_ptr T (Some (fst a)) (snd a)"

definition read_hash :: "table_mem option \<Rightarrow> nat option \<Rightarrow> byte list option run" where
  "read_hash T p =
     (case (T, p) of
        (Some t, Some a) \<Rightarrow> run_bind (node_at (tp_heap t) a) (\<lambda>n. Some (Inr (Some (info_hash (tn_info n)))))
      | _ \<Rightarrow> Some (Inr None))"

abbreviation ptr_find :: "table_mem option \<Rightarrow> byte list \<times> c_int \<Rightarrow> (byte list option \<times> table_mem option) run" where
  "ptr_find T a \<equiv> run_bind (lookup_table_find_ptr T (Some (fst a)) (snd a))
     (\<lambda>(p, T'). run_bind (read_hash T' p) (\<lambda>v. Some (Inr (v, T'))))"

definition ptr_inv :: "table_mem option \<Rightarrow> bool" where
  "ptr_inv T \<longleftrightarrow> (case T of None \<Rightarrow> False | Some t \<Rightarrow> tp_ok t \<and> lt_wf (tp_view t))"

lemma ptr_invE: "ptr_inv T \<Longrightarrow> (\<And>t. T = Some t \<Longrightarrow> tp_ok t \<Longrightarrow> lt_wf (tp_view t) \<Longrightarrow> P) \<Longrightarrow> P"
  by (auto simp: ptr_inv_def split: option.splits)

lemma ptr_remove_refines:
  assumes "tp_ok T" "lt_wf (tp_view T)"
  shows "refines (\<lambda>c c' T'. c = c' \<and> (\<forall>a T1. lookup_table_find_ptr (Some T) (Some h) port = Some (Inr (Some a, T1))
             \<longrightarrow> c = 1 \<and> tp_heap T' a = None))
           (lookup_table_remove_ptr (Some T) (Some h) port) (lookup_table_remove (Some (tp_view T)) (Some h) port)"
  using remove_first_refines [of T "same_addr h port" "\<lambda>n. lt_key n = (cstr h, port)"] assms
  by (simp add: lookup_table_remove_ptr_def lookup_table_remove_def lookup_table_find_ptr_def lt_wf_def same_addr_key)

lemma ptr_find_refines:
  assumes "tp_ok T" "lt_wf (tp_view T)"
  shows "refines (\<lambda>p i T'. T' = T \<and> i = map_option (info_at (tp_heap T)) p
             \<and> (\<forall>a. p = Some a \<longrightarrow> tp_heap T a \<noteq> None))
           (lookup_table_find_ptr (Some T) (Some h) port) (lookup_table_find (Some (tp_view T)) (Some h) port)"
  using find_first_refines [of T "same_addr h port" "\<lambda>n. lt_key n = (cstr h, port)"] assms
  by (simp add: lookup_table_find_ptr_def lookup_table_find_def lt_wf_def same_addr_key)

lemma tp_ok_finite: "tp_ok T \<Longrightarrow> finite (dom (tp_heap T))"
  unfolding tp_ok_def by (metis List.finite_set)

subsection \<open>The contract of the linked table\<close>

locale node_allocator = allocator fresh for fresh :: "tn_heap \<Rightarrow> nat"

text \<open>With any allocator the linked table is an address book.\<close>

sublocale node_allocator \<subseteq> linked: address_book ptr_inv "\<lambda>T. opt_abs (map_option tp_view T)" addr_key addr_valid
  "\<lambda>h. length h = 20" "ptr_add fresh" ptr_remove ptr_find
proof
  fix T k and v :: "byte list"
  assume "ptr_inv T" and k: "addr_valid k" and v: "length v = 20"
    and none: "opt_abs (map_option tp_view T) (addr_key k) = None"
  from this(1) obtain t where t: "T = Some t" "tp_ok t" "lt_wf (tp_view t)" by (rule ptr_invE)
  have "refines (\<lambda>c c' _. c = c') (ptr_add fresh T k v) (addr_add (Some (tp_view t)) k v)"
    using add_refines [of t v "Some (fresh (tp_heap t))" "fst k" "snd k"] t v fresh_free tp_ok_finite
    by (simp add: lt_wf_def)
  then show "\<exists>T'. ptr_add fresh T k v = Some (Inr (1, T')) \<and> ptr_inv T'
      \<and> opt_abs (map_option tp_view T') = (opt_abs (map_option tp_view T))(addr_key k \<mapsto> v)"
    using lt.add_new [of "Some (tp_view t)" k v] t k v none
    by (auto simp: refines_def opt_inv_def ptr_inv_def)
next
  fix T k and v w :: "byte list"
  assume "ptr_inv T" and k: "addr_valid k" and v: "length v = 20"
    and some: "opt_abs (map_option tp_view T) (addr_key k) = Some w"
  from this(1) obtain t where t: "T = Some t" "tp_ok t" "lt_wf (tp_view t)" by (rule ptr_invE)
  obtain as where as: "tn_chain (tp_heap t) (tp_head t) as" "lt_head (tp_view t) = map (info_at (tp_heap t)) as"
    "tp_lock t = Some (Inr (t\<lparr>tp_mutex := True\<rparr>))" "tp_unlock (t\<lparr>tp_mutex := True\<rparr>) = t"
    using tp_okE [OF t(2)] t(3) unfolding lt_wf_def by metis
  have f: "find_loop (same_addr (fst k) (snd k)) (tp_heap t) (tp_head t) =
      Some (Inr (find (\<lambda>a. lt_key (info_at (tp_heap t) a) = addr_key k) as))"
    by (rule find_loop_chain [OF as(1)]) (simp add: same_addr_key addr_key_def)
  have "find (\<lambda>a. lt_key (info_at (tp_heap t) a) = addr_key k) as \<noteq> None"
    using some lt_abs_find [of "tp_view t" "addr_key k"] by (auto simp: t(1) opt_abs_def as(2) find_map)
  then show "ptr_add fresh T k v = Some (Inr (0, T))"
    using f as(3,4) by (auto simp: t(1) lookup_table_add_ptr_def)
next
  fix T k
  assume "ptr_inv T" and k: "addr_valid k"
  from this(1) obtain t where t: "T = Some t" "tp_ok t" "lt_wf (tp_view t)" by (rule ptr_invE)
  show "\<exists>T'. ptr_remove T k =
        Some (Inr (case opt_abs (map_option tp_view T) (addr_key k) of None \<Rightarrow> 0 | Some _ \<Rightarrow> 1, T'))
      \<and> ptr_inv T' \<and> opt_abs (map_option tp_view T') = (opt_abs (map_option tp_view T))(addr_key k := None)"
    using lt.rm_ok [of "Some (tp_view t)" k] ptr_remove_refines [OF t(2,3), of "fst k" "snd k"] t k
    by (auto simp: refines_def opt_inv_def ptr_inv_def)
next
  fix T k
  assume "ptr_inv T" and k: "addr_valid k"
  from this(1) obtain t where t: "T = Some t" "tp_ok t" "lt_wf (tp_view t)" by (rule ptr_invE)
  obtain p where p: "lookup_table_find_ptr T (Some (fst k)) (snd k) = Some (Inr (p, T))"
    "lookup_table_find (Some (tp_view t)) (Some (fst k)) (snd k) =
       Some (Inr (map_option (info_at (tp_heap t)) p, Some (tp_view t)))"
    "\<And>a. p = Some a \<Longrightarrow> tp_heap t a \<noteq> None"
    using ptr_find_refines [OF t(2,3), of "fst k" "snd k"] by (auto simp: refines_def t(1))
  have "read_hash T p = Some (Inr (map_option info_hash (map_option (info_at (tp_heap t)) p)))"
    using p(3) by (cases p) (auto simp: read_hash_def t(1) node_at_def)
  with p show "ptr_find T k = Some (Inr (opt_abs (map_option tp_view T) (addr_key k), T))"
    using lt.fnd_ok [of "Some (tp_view t)" k] t k by (simp add: opt_inv_def)
qed

context node_allocator
begin

lemmas linked_run = linked.run_refines

end

interpretation bump_node: node_allocator next_addr
  by (rule node_allocator.intro) (rule bump.allocator_axioms)

subsection \<open>Properties\<close>

text \<open>The operations by hash follow the list operations in the same way.\<close>

lemma by_hash_refines:
  assumes "tp_ok T" "lt_ok (tp_view T)" "length hs = 20"
  shows "refines (\<lambda>c c' _. c = c') (lookup_table_remove_by_hash_ptr (Some T) (Some hs))
           (lookup_table_remove_by_hash (Some (tp_view T)) (Some hs))"
    and "refines (\<lambda>p i T'. T' = T \<and> i = map_option (info_at (tp_heap T)) p)
           (lookup_table_find_by_hash_ptr (Some T) (Some hs))
           (lookup_table_find_by_hash (Some (tp_view T)) (Some hs))"
  using remove_first_refines [OF assms(1,2) hash_test [OF assms(2,3)]]
    find_first_refines [OF assms(1,2) hash_test [OF assms(2,3)]]
  by (auto simp: refines_def lookup_table_remove_by_hash_ptr_def lookup_table_remove_by_hash_def
      lookup_table_find_by_hash_ptr_def lookup_table_find_by_hash_def)

lemma tp_ok_destroy:
  assumes "tp_ok T" "\<not> tp_mutex T"
  shows "lookup_table_destroy_ptr (Some T) = Some (Inr (Some Map.empty))"
proof -
  obtain as where "tn_chain (tp_heap T) (tp_head T) as" "distinct as" "set as = dom (tp_heap T)"
    using assms(1) by (auto simp: tp_ok_def)
  then obtain h where "free_loop (tp_heap T) (tp_head T) = Some (Inr h)" "dom h = {}"
    using free_loop_chain by force
  then show ?thesis using assms(2) by (simp add: lookup_table_destroy_ptr_def tp_lock_def)
qed

text \<open>C8. The linked table is an address book too: whatever address \<open>malloc\<close> chooses among the
  free ones, any sequence of additions, removals and searches for hosts of at most 45 characters on a new table gives the
  answers of the map. No operation reads a node that was freed or writes one, no unlinking
  breaks the chain or makes it cyclic, and no node is lost: the nodes of the chain are all the
  memory the table holds, and \<open>lookup_table_destroy\<close> gives every one of them back.\<close>

theorem lookup_table_linked:
  assumes "\<And>h. finite (dom h) \<Longrightarrow> h (fresh h) = None"
    and "list_all (op_valid addr_valid (\<lambda>h. length h = 20)) ops"
  shows "\<exists>T. book_run (ptr_add fresh) ptr_remove ptr_find (lookup_table_create_ptr True True) ops =
             Some (Inr (book_spec_run addr_key Map.empty ops, Some T))
           \<and> tp_ok T \<and> lookup_table_destroy_ptr (Some T) = Some (Inr (Some Map.empty))"
proof -
  let ?T = "\<lparr>tp_heap = Map.empty, tp_head = None, tp_mutex = False, tp_size = 0\<rparr>"
  have v: "tp_view ?T = \<lparr>lt_head = [], lt_mutex = False, lt_size = 0\<rparr>"
    by (rule tp_view_head [of ?T "[]", simplified])
  have "ptr_inv (Some ?T)" "opt_abs (Some (tp_view ?T)) = Map.empty"
    using lookup_table_create_wf by (auto simp: v ptr_inv_def tp_ok_def opt_abs_def lookup_table_create_def)
  then obtain S where S: "book_run (ptr_add fresh) ptr_remove ptr_find (Some ?T) ops =
      Some (Inr (book_spec_run addr_key Map.empty ops, S))" "ptr_inv S"
    using node_allocator.linked_run [OF node_allocator.intro [OF allocator.intro [of fresh]], where s = "Some ?T" and ops = ops] assms by auto
  from S(2) obtain T where T: "S = Some T" "tp_ok T" "lt_wf (tp_view T)" by (rule ptr_invE)
  then have "\<not> tp_mutex T" by (simp add: lt_wf_def lt_ok_def tp_view_def)
  with S(1) T tp_ok_destroy [of T] show ?thesis by (simp add: lookup_table_create_ptr_def)
qed

theorem lookup_table_linked_witness:
  "\<exists>T. book_run (ptr_add next_addr) ptr_remove ptr_find (lookup_table_create_ptr True True)
       [Book_Add (host_a, 9000) hash_a, Book_Add (host_a, 9001) (replicate 20 1),
        Book_Remove (host_a, 9000), Book_Find (host_a, 9001), Book_Find (host_a, 9000)] =
     Some (Inr ([Code 1, Code 1, Code 1, Found (Some (replicate 20 1)), Found None], Some T))
     \<and> tp_ok T \<and> lookup_table_destroy_ptr (Some T) = Some (Inr (Some Map.empty))"
proof -
  have "h (next_addr h) = None" if "finite (dom h)" for h :: tn_heap by (rule bump.fresh_free [OF that])
  then show ?thesis
    using lookup_table_linked [where fresh = next_addr and
        ops = "[Book_Add (host_a, 9000) hash_a, Book_Add (host_a, 9001) (replicate 20 1),
               Book_Remove (host_a, 9000), Book_Find (host_a, 9001), Book_Find (host_a, 9000)]"]
    by (simp add: addr_valid_def hash_a_def host_a_def cstr_def addr_key_def)
qed

text \<open>\<open>lookup_table_find\<close> hands out a pointer into a node that the table still owns, after
  it has given the mutex back: once another call removes that address, the node is freed,
  and reading through the pointer, valid before, is a use after free.\<close>

lemma lookup_table_find_escapes:
  assumes "tp_ok T" and "lt_wf (tp_view T)"
    and "lookup_table_find_ptr (Some T) (Some host) port = Some (Inr (Some a, T1))"
  shows "\<exists>T' hash. read_hash T1 (Some a) = Some (Inr (Some hash))
           \<and> lookup_table_remove_ptr T1 (Some host) port = Some (Inr (1, Some T'))
           \<and> read_hash (Some T') (Some a) = Some (Inl Dangling)"
proof -
  have T1: "T1 = Some T" and live: "tp_heap T a \<noteq> None"
    using ptr_find_refines [OF assms(1,2), of host port] assms(3) by (auto simp: refines_def)
  obtain T' where "lookup_table_remove_ptr (Some T) (Some host) port = Some (Inr (1, Some T'))" "tp_heap T' a = None"
    using ptr_remove_refines [OF assms(1,2), of host port] assms(3) by (auto simp: refines_def)
  with T1 live show ?thesis by (auto simp: read_hash_def node_at_def)
qed

definition sample_mem :: table_mem where
  "sample_mem = \<lparr>tp_heap = [3 \<mapsto> \<lparr>tn_info = \<lparr>info_host = strncpy host_a 45 @ [0], info_port = 9000, info_hash = hash_a\<rparr>,
                                  tn_next = None\<rparr>],
                 tp_head = Some 3, tp_mutex = False, tp_size = 1\<rparr>"

lemma lookup_table_find_escapes_witness:
  "\<exists>T' hash. read_hash (Some sample_mem) (Some 3) = Some (Inr (Some hash))
     \<and> lookup_table_remove_ptr (Some sample_mem) (Some host_a) 9000 = Some (Inr (1, Some T'))
     \<and> read_hash (Some T') (Some 3) = Some (Inl Dangling)"
proof -
  have c: "tn_chain (tp_heap sample_mem) (tp_head sample_mem) [3]" by (simp add: sample_mem_def)
  then have "tp_ok sample_mem"
    unfolding tp_ok_def by (intro exI [of _ "[3]"]) (simp add: sample_mem_def)
  moreover have "lt_wf (tp_view sample_mem)"
    unfolding tp_view_head [OF c] by (simp add: sample_mem_def lt_wf_def lt_ok_def node_ok_def hash_a_def)
  moreover have "cstr (strncpy host_a 45 @ [0]) = cstr host_a"
    by (simp add: cstr_strncpy) (simp add: host_a_def cstr_def)
  then have "lookup_table_find_ptr (Some sample_mem) (Some host_a) 9000 = Some (Inr (Some 3, Some sample_mem))"
    by (simp add: lookup_table_find_ptr_def find_first_ptr_def sample_mem_def tp_lock_def tp_unlock_def
        find_loop.simps node_at_def same_addr_key lt_key_def)
  ultimately show ?thesis by (rule lookup_table_find_escapes)
qed

end
