(* ===== verification/Lookup_Threads.thy ===== *)
theory Lookup_Threads
  imports Lookup_Table Threads
begin

text \<open>
  \<open>src/src/node/lookup_table.c\<close> run by several threads, which share one table and its one mutex.

  A thread is inside one call, or idle. A step is one access to the shared state: taking the
  mutex, the visit of one node of the chain (the test of \<open>current\<close>, the comparison, and
  the change or result it leads to), the new node at the end of an unsuccessful
  \<open>lookup_table_add\<close>, the read of the size, releasing the mutex. Calls with a null argument return
  before the mutex and are left out, as is \<open>lookup_table_print\<close>, which only reads. The rest of
  \<open>lookup_table_serialize\<close> behind the call of \<open>lookup_table_serialized_size\<close> is one step: it is not
  reached. \<open>ls_log\<close> records the operations in the order in which they took effect, \<open>ls_returned\<close> in the
  order in which they returned.

  The results: the calls take effect one after the other, with the results of the sequential
  functions of \<open>Lookup_Table\<close>; they end, if no thread calls \<open>lookup_table_serialize\<close>; and once a
  thread has, no call of any thread returns any more.
\<close>

subsection \<open>The threads\<close>

datatype lt_op =
    Op_Add bool "byte list" c_int "byte list"       \<comment> \<open>whether the allocation succeeds, host, port, hash\<close>
  | Op_Remove "byte list" c_int
  | Op_Remove_Hash "byte list"
  | Op_Find "byte list" c_int
  | Op_Find_Hash "byte list"
  | Op_Size
  | Op_Serialized_Size
  | Op_Serialize "byte list" size_t

datatype lt_result =
    R_Code c_int
  | R_Node "node_info_t option"
  | R_Size size_t
  | R_Buffer c_int "byte list"

datatype lt_pc =
    L_Idle
  | L_Lock lt_op                     \<comment> \<open>before the mutex\<close>
  | L_Walk lt_op nat                 \<comment> \<open>has the mutex, \<open>current\<close> is the node of that number, null behind the last\<close>
  | L_Read lt_op                     \<comment> \<open>has the mutex, before the read of the size\<close>
  | L_Relock lt_op                   \<comment> \<open>has the mutex, in the call of \<open>lookup_table_serialized_size\<close>\<close>
  | L_Unlock lt_op lt_result         \<comment> \<open>has the mutex and the result\<close>

primrec op_start :: "lt_op \<Rightarrow> lt_pc" where
  "op_start (Op_Add m h p hs) = L_Walk (Op_Add m h p hs) 0"
| "op_start (Op_Remove h p) = L_Walk (Op_Remove h p) 0"
| "op_start (Op_Remove_Hash hs) = L_Walk (Op_Remove_Hash hs) 0"
| "op_start (Op_Find h p) = L_Walk (Op_Find h p) 0"
| "op_start (Op_Find_Hash hs) = L_Walk (Op_Find_Hash hs) 0"
| "op_start Op_Size = L_Read Op_Size"
| "op_start Op_Serialized_Size = L_Read Op_Serialized_Size"
| "op_start (Op_Serialize b n) = L_Relock (Op_Serialize b n)"

text \<open>The comparison inside the loop; the operations without a loop have none.\<close>

fun op_test :: "lt_op \<Rightarrow> node_info_t \<Rightarrow> bool faulty" where
  "op_test (Op_Add m h p hs) n = same_addr h p n"
| "op_test (Op_Remove h p) n = same_addr h p n"
| "op_test (Op_Remove_Hash hs) n = hash_equal (info_hash n) hs"
| "op_test (Op_Find h p) n = same_addr h p n"
| "op_test (Op_Find_Hash hs) n = hash_equal (info_hash n) hs"
| "op_test _ n = Inr False"

text \<open>What is done with the node that passes the comparison.\<close>

definition lt_unlink :: "lookup_table_t \<Rightarrow> nat \<Rightarrow> lookup_table_t" where
  "lt_unlink t k = t\<lparr>lt_head := take k (lt_head t) @ drop (Suc k) (lt_head t), lt_size := lt_size t - 1\<rparr>"

fun op_hit :: "lookup_table_t \<Rightarrow> lt_op \<Rightarrow> nat \<Rightarrow> lookup_table_t \<times> lt_result" where
  "op_hit t (Op_Add m h p hs) k = (t, R_Code 0)"
| "op_hit t (Op_Remove h p) k = (lt_unlink t k, R_Code 1)"
| "op_hit t (Op_Remove_Hash hs) k = (lt_unlink t k, R_Code 1)"
| "op_hit t op k = (t, R_Node (Some (lt_head t ! k)))"

text \<open>What is done when no node passes it.\<close>

fun op_end :: "lookup_table_t \<Rightarrow> lt_op \<Rightarrow> (lookup_table_t \<times> lt_result) faulty" where
  "op_end t (Op_Add m h p hs) =
     fault_bind (create_node m h p hs) (\<lambda>new_node.
     case new_node of None \<Rightarrow> Inr (t, R_Code (- 1))
     | Some n \<Rightarrow> Inr (t\<lparr>lt_head := n # lt_head t, lt_size := lt_size t + 1\<rparr>, R_Code 1))"
| "op_end t (Op_Remove h p) = Inr (t, R_Code 0)"
| "op_end t (Op_Remove_Hash hs) = Inr (t, R_Code 0)"
| "op_end t op = Inr (t, R_Node None)"

fun op_read :: "lookup_table_t \<Rightarrow> lt_op \<Rightarrow> size_t" where
  "op_read t Op_Serialized_Size = 8 + lt_size t * (46 + 4 + 20)"
| "op_read t op = lt_size t"

text \<open>The next step of a thread inside a call; \<open>None\<close> while it waits for the mutex.\<close>

fun lt_advance :: "lookup_table_t \<Rightarrow> lt_pc \<Rightarrow> (lookup_table_t \<times> lt_pc) run" where
  "lt_advance t L_Idle = None"
| "lt_advance t (L_Lock op) = run_bind (lt_lock t) (\<lambda>t1. Some (Inr (t1, op_start op)))"
| "lt_advance t (L_Walk op k) =
     (if k < length (lt_head t)
      then run_bind (Some (op_test op (lt_head t ! k))) (\<lambda>hit.
           if hit then (case op_hit t op k of (t1, res) \<Rightarrow> Some (Inr (t1, L_Unlock op res)))
           else Some (Inr (t, L_Walk op (k + 1))))
      else run_bind (Some (op_end t op)) (\<lambda>(t1, res). Some (Inr (t1, L_Unlock op res))))"
| "lt_advance t (L_Read op) = Some (Inr (t, L_Unlock op (R_Size (op_read t op))))"
| "lt_advance t (L_Relock op) =
     run_bind (lookup_table_serialized_size (Some t)) (\<lambda>(required_size, t1).
     case (op, t1) of
       (Op_Serialize b n, Some t2) \<Rightarrow>
         if n < required_size then Some (Inr (t2, L_Unlock op (R_Buffer (- 1) b)))
         else run_bind (Some (serialize_body t2 b)) (\<lambda>b'. Some (Inr (t2, L_Unlock op (R_Buffer 0 b'))))
     | _ \<Rightarrow> Some (Inl Null_Deref))"
| "lt_advance t (L_Unlock op res) = Some (Inr (lt_unlock t, L_Idle))"

record lt_state =
  ls_table :: lookup_table_t
  ls_threads :: "lt_pc list"
  ls_crash :: "c_fault option"
  ls_log :: "(nat \<times> lt_op \<times> lt_result) list"
  ls_returned :: "(nat \<times> lt_op \<times> lt_result) list"

fun lt_done :: "nat \<Rightarrow> lt_pc \<Rightarrow> (nat \<times> lt_op \<times> lt_result) list" where
  "lt_done i (L_Unlock op res) = [(i, op, res)]"
| "lt_done i _ = []"

inductive lt_inner :: "lt_state \<Rightarrow> lt_state \<Rightarrow> bool" where
  advance: "ls_crash s = None \<Longrightarrow> i < length (ls_threads s) \<Longrightarrow>
    lt_advance (ls_table s) (ls_threads s ! i) = Some (Inr (t, pc)) \<Longrightarrow>
    lt_inner s (s\<lparr>ls_table := t, ls_threads := (ls_threads s)[i := pc],
      ls_log := ls_log s @ lt_done i pc, ls_returned := ls_returned s @ lt_done i (ls_threads s ! i)\<rparr>)"
| fault: "ls_crash s = None \<Longrightarrow> i < length (ls_threads s) \<Longrightarrow>
    lt_advance (ls_table s) (ls_threads s ! i) = Some (Inl f) \<Longrightarrow> lt_inner s (s\<lparr>ls_crash := Some f\<rparr>)"

text \<open>An idle thread calls any operation; a hash it passes has at least the \<open>HASH_SIZE\<close> bytes that
  the code reads of it.\<close>

primrec op_ok :: "lt_op \<Rightarrow> bool" where
  "op_ok (Op_Add m h p hs) = (20 \<le> length hs)"
| "op_ok (Op_Remove h p) = True"
| "op_ok (Op_Remove_Hash hs) = (20 \<le> length hs)"
| "op_ok (Op_Find h p) = True"
| "op_ok (Op_Find_Hash hs) = (20 \<le> length hs)"
| "op_ok Op_Size = True"
| "op_ok Op_Serialized_Size = True"
| "op_ok (Op_Serialize b n) = True"

inductive lt_outer :: "lt_state \<Rightarrow> lt_state \<Rightarrow> bool" where
  call: "ls_crash s = None \<Longrightarrow> i < length (ls_threads s) \<Longrightarrow> ls_threads s ! i = L_Idle \<Longrightarrow> op_ok op \<Longrightarrow>
    lt_outer s (s\<lparr>ls_threads := (ls_threads s)[i := L_Lock op]\<rparr>)"

definition lt_threads_new :: "lookup_table_t \<Rightarrow> nat \<Rightarrow> lt_state" where
  "lt_threads_new t threads =
     \<lparr>ls_table = t, ls_threads = replicate threads L_Idle, ls_crash = None, ls_log = [], ls_returned = []\<rparr>"

inductive lt_reach :: "lookup_table_t \<Rightarrow> nat \<Rightarrow> lt_state \<Rightarrow> bool" for t threads where
  start: "lt_ok t \<Longrightarrow> lt_reach t threads (lt_threads_new t threads)"
| inner: "lt_reach t threads s \<Longrightarrow> lt_inner s s' \<Longrightarrow> lt_reach t threads s'"
| outer: "lt_reach t threads s \<Longrightarrow> lt_outer s s' \<Longrightarrow> lt_reach t threads s'"

inductive_cases lt_innerE: "lt_inner s s'"
inductive_cases lt_outerE: "lt_outer s s'"

subsection \<open>The calls one after the other\<close>

text \<open>The operations as calls of the functions of \<open>Lookup_Table\<close>, on a table no thread is in.\<close>

primrec lt_call :: "lookup_table_t option \<Rightarrow> lt_op \<Rightarrow> (lt_result \<times> lookup_table_t option) run" where
  "lt_call t (Op_Add m h p hs) = run_bind (lookup_table_add m t (Some h) p (Some hs)) (\<lambda>(c, t'). Some (Inr (R_Code c, t')))"
| "lt_call t (Op_Remove h p) = run_bind (lookup_table_remove t (Some h) p) (\<lambda>(c, t'). Some (Inr (R_Code c, t')))"
| "lt_call t (Op_Remove_Hash hs) = run_bind (lookup_table_remove_by_hash t (Some hs)) (\<lambda>(c, t'). Some (Inr (R_Code c, t')))"
| "lt_call t (Op_Find h p) = run_bind (lookup_table_find t (Some h) p) (\<lambda>(n, t'). Some (Inr (R_Node n, t')))"
| "lt_call t (Op_Find_Hash hs) = run_bind (lookup_table_find_by_hash t (Some hs)) (\<lambda>(n, t'). Some (Inr (R_Node n, t')))"
| "lt_call t Op_Size = run_bind (lookup_table_size t) (\<lambda>(n, t'). Some (Inr (R_Size n, t')))"
| "lt_call t Op_Serialized_Size = run_bind (lookup_table_serialized_size t) (\<lambda>(n, t'). Some (Inr (R_Size n, t')))"
| "lt_call t (Op_Serialize b n) =
     run_bind (lookup_table_serialize t (Some b) n) (\<lambda>(c, t', b'). Some (Inr (R_Buffer c (case b' of None \<Rightarrow> b | Some x \<Rightarrow> x), t')))"

fun lt_calls :: "lookup_table_t option \<Rightarrow> lt_op list \<Rightarrow> (lt_result list \<times> lookup_table_t option) run" where
  "lt_calls t [] = Some (Inr ([], t))"
| "lt_calls t (op # ops) =
     run_bind (lt_call t op) (\<lambda>(r, t1). run_bind (lt_calls t1 ops) (\<lambda>(rs, t2). Some (Inr (r # rs, t2))))"

lemma lt_calls_snoc:
  "lt_calls t ops = Some (Inr (rs, t1)) \<Longrightarrow> lt_call t1 op = Some (Inr (r, t2)) \<Longrightarrow>
   lt_calls t (ops @ [op]) = Some (Inr (rs @ [r], t2))"
  by (induction ops arbitrary: t rs) (auto simp: run_bind_eq_Some_Inr)

subsection \<open>The walk along the chain\<close>

text \<open>No node before number \<open>k\<close> passes the comparison.\<close>

definition passed :: "lt_op \<Rightarrow> nat \<Rightarrow> node_info_t list \<Rightarrow> bool" where
  "passed op k ns \<longleftrightarrow> k \<le> length ns \<and> (\<forall>n \<in> set (take k ns). op_test op n = Inr False)"

lemma passed_0 [simp]: "passed op 0 ns"
  by (simp add: passed_def)

lemma passed_Suc: "passed op k ns \<Longrightarrow> k < length ns \<Longrightarrow> op_test op (ns ! k) = Inr False \<Longrightarrow> passed op (Suc k) ns"
  by (auto simp: passed_def take_Suc_conv_app_nth)

lemma find_walk_skip:
  "k \<le> length ns \<Longrightarrow> \<forall>n \<in> set (take k ns). test n = Inr False \<Longrightarrow> find_walk test ns = find_walk test (drop k ns)"
  by (induction k arbitrary: ns) (auto simp: Suc_le_length_iff)

lemma remove_walk_skip:
  "k \<le> length ns \<Longrightarrow> \<forall>n \<in> set (take k ns). test n = Inr False \<Longrightarrow>
   remove_walk test before ns = remove_walk test (rev (take k ns) @ before) (drop k ns)"
  by (induction k arbitrary: ns before) (auto simp: Suc_le_length_iff)

lemma walk_hit:
  assumes "passed op k ns" "k < length ns" "op_test op (ns ! k) = Inr True"
  shows "find_walk (op_test op) ns = Inr (Some (ns ! k))"
    "remove_walk (op_test op) [] ns = Inr (Some (take k ns @ drop (Suc k) ns))"
  using assms find_walk_skip [of k ns "op_test op"] remove_walk_skip [of k ns "op_test op" "[]"]
  by (simp_all add: passed_def Cons_nth_drop_Suc [symmetric])

lemma walk_end:
  assumes "passed op (length ns) ns"
  shows "find_walk (op_test op) ns = Inr None" "remove_walk (op_test op) [] ns = Inr None"
  using assms find_walk_skip [of "length ns" ns "op_test op"] remove_walk_skip [of "length ns" ns "op_test op" "[]"]
  by (simp_all add: passed_def)


lemma op_test_fun:
  "op_test (Op_Add m h p hs) = same_addr h p" "op_test (Op_Remove h p) = same_addr h p" "op_test (Op_Find h p) = same_addr h p"
  "op_test (Op_Remove_Hash hs) = (\<lambda>n. hash_equal (info_hash n) hs)"
  "op_test (Op_Find_Hash hs) = (\<lambda>n. hash_equal (info_hash n) hs)"
  by (simp_all add: fun_eq_iff)

lemma op_test_total: "op_ok op \<Longrightarrow> node_ok n \<Longrightarrow> \<exists>b. op_test op n = Inr b"
  by (cases op) (auto simp: same_addr_def hash_equal_def mem_read_def node_ok_def)

lemma lt_relock [simp]: "lt_mutex t \<Longrightarrow> lt_lock (lt_unlock t) = Some (Inr t)" "lt_mutex t \<Longrightarrow> lt_lock t = None"
  by (simp_all add: lt_lock_def lt_unlock_def)

definition walking :: "lt_op \<Rightarrow> bool" where
  "walking op \<longleftrightarrow> op_start op = L_Walk op 0"

text \<open>The two ends of a walk have the results of the sequential call.\<close>

lemma op_hit_call:
  assumes "walking op" "lt_mutex t" "passed op k (lt_head t)" "k < length (lt_head t)" "op_test op (lt_head t ! k) = Inr True"
    and "op_hit t op k = (t', res)"
  shows "lt_call (Some (lt_unlock t)) op = Some (Inr (res, Some (lt_unlock t')))"
  using assms walk_hit [OF assms(3-5)]
  by (cases op) (auto simp: walking_def op_test_fun lookup_table_add_def lookup_table_remove_def lookup_table_find_def
    lookup_table_remove_by_hash_def lookup_table_find_by_hash_def lt_remove_first_def lt_find_first_def lt_unlink_def)

lemma op_end_call:
  assumes "walking op" "lt_mutex t" "passed op (length (lt_head t)) (lt_head t)" "op_end t op = Inr (t', res)"
  shows "lt_call (Some (lt_unlock t)) op = Some (Inr (res, Some (lt_unlock t')))"
  using assms walk_end [OF assms(3)]
  by (cases op) (auto simp: walking_def op_test_fun lookup_table_add_def lookup_table_remove_def lookup_table_find_def
    lookup_table_remove_by_hash_def lookup_table_find_by_hash_def lt_remove_first_def lt_find_first_def
    fault_bind_eq_Inr split: option.splits)

lemma op_read_call:
  "op_start op = L_Read op \<Longrightarrow> lt_mutex t \<Longrightarrow>
   lt_call (Some (lt_unlock t)) op = Some (Inr (R_Size (op_read t op), Some (lt_unlock t)))"
  by (cases op) (simp_all add: lookup_table_size_def lookup_table_serialized_size_def)

text \<open>They keep the table well formed.\<close>

definition table_ok :: "lookup_table_t \<Rightarrow> bool" where
  "table_ok t \<longleftrightarrow> lt_ok (lt_unlock t)"

lemma table_ok_mutex [simp]: "table_ok (t\<lparr>lt_mutex := b\<rparr>) = table_ok t" "table_ok (lt_unlock t) = table_ok t"
  by (simp_all add: table_ok_def lt_unlock_def lt_ok_def)

lemma table_ok_nodes: "table_ok t \<Longrightarrow> n \<in> set (lt_head t) \<Longrightarrow> node_ok n"
  by (simp add: table_ok_def lt_ok_def lt_unlock_def list_all_iff)

lemma op_hit_ok:
  assumes "table_ok t" "k < length (lt_head t)" "op_hit t op k = (t', res)"
  shows "table_ok t' \<and> lt_mutex t' = lt_mutex t \<and> length (lt_head t') \<le> length (lt_head t)"
proof -
  have "word_of_nat (length (lt_head t)) - 1 = (word_of_nat (length (lt_head t) - 1) :: size_t)"
    using assms(2) by (simp add: of_nat_diff)
  moreover have "k + (length (lt_head t) - Suc k) = length (lt_head t) - 1" using assms(2) by simp
  ultimately have "table_ok (lt_unlink t k)"
    using assms(1,2) set_take_subset [of k "lt_head t"] set_drop_subset [of "Suc k" "lt_head t"]
    by (auto simp: table_ok_def lt_ok_def lt_unlock_def lt_unlink_def list_all_iff)
  with assms show ?thesis by (cases op) (auto simp: lt_unlink_def)
qed

fun op_adds_node :: "lt_op \<Rightarrow> nat" where
  "op_adds_node (Op_Add m h p hs) = 1"
| "op_adds_node _ = 0"

lemma op_end_ok:
  assumes "table_ok t" "op_ok op"
  shows "\<exists>t' res. op_end t op = Inr (t', res) \<and> table_ok t' \<and> lt_mutex t' = lt_mutex t
           \<and> length (lt_head t') \<le> length (lt_head t) + op_adds_node op"
proof (cases op)
  case (Op_Add m h p hs)
  then show ?thesis
    using assms by (cases m) (simp_all add: create_node_def mem_read_def table_ok_def lt_ok_def lt_unlock_def node_ok_def)
qed (use assms(1) in auto)


subsection \<open>One step of one thread\<close>

fun lt_holds :: "lt_pc \<Rightarrow> bool" where
  "lt_holds L_Idle = False"
| "lt_holds (L_Lock op) = False"
| "lt_holds _ = True"

text \<open>What a thread's local variables say of the table.\<close>

fun lt_pc_ok :: "lookup_table_t \<Rightarrow> lt_pc \<Rightarrow> bool" where
  "lt_pc_ok t (L_Lock op) = op_ok op"
| "lt_pc_ok t (L_Walk op k) = (op_ok op \<and> walking op \<and> passed op k (lt_head t))"
| "lt_pc_ok t (L_Read op) = (op_start op = L_Read op)"
| "lt_pc_ok t _ = True"

fun lt_effect :: "lookup_table_t \<Rightarrow> lookup_table_t \<Rightarrow> lt_pc \<Rightarrow> bool" where
  "lt_effect t t' (L_Unlock op res) = (lt_call (Some (lt_unlock t)) op = Some (Inr (res, Some (lt_unlock t'))))"
| "lt_effect t t' _ = (lt_unlock t' = lt_unlock t)"

fun lt_next :: "lt_pc \<Rightarrow> lt_pc \<Rightarrow> bool" where
  "lt_next L_Idle pc = False"
| "lt_next (L_Lock op) pc = (pc = op_start op)"
| "lt_next (L_Walk op k) pc = (pc = L_Walk op (k + 1) \<or> (\<exists>res. pc = L_Unlock op res))"
| "lt_next (L_Read op) pc = (\<exists>res. pc = L_Unlock op res)"
| "lt_next (L_Relock op) pc = False"
| "lt_next (L_Unlock op res) pc = (pc = L_Idle)"

fun lt_adds :: "lt_pc \<Rightarrow> nat" where
  "lt_adds (L_Lock op) = op_adds_node op"
| "lt_adds (L_Walk op k) = op_adds_node op"
| "lt_adds _ = 0"

definition lt_step_ok :: "lookup_table_t \<Rightarrow> lt_pc \<Rightarrow> lookup_table_t \<Rightarrow> lt_pc \<Rightarrow> bool" where
  "lt_step_ok t pc t' pc' \<longleftrightarrow>
     table_ok t' \<and> lt_pc_ok t' pc' \<and> lt_next pc pc' \<and> lt_effect t t' pc' \<and> lt_mutex t' = lt_holds pc'
     \<and> length (lt_head t') + lt_adds pc' \<le> length (lt_head t) + lt_adds pc"

lemma op_start_cases:
  obtains "walking op" "op_start op = L_Walk op 0" | "op_start op = L_Read op" | "op_start op = L_Relock op"
  by (cases op) (auto simp: walking_def)

lemma lt_walk_step:
  assumes "table_ok t" "lt_mutex t" "lt_pc_ok t (L_Walk op k)"
  shows "\<exists>t' pc'. lt_advance t (L_Walk op k) = Some (Inr (t', pc')) \<and> lt_step_ok t (L_Walk op k) t' pc'"
proof (cases "k < length (lt_head t)")
  case True
  have op: "op_ok op" "walking op" "passed op k (lt_head t)" using assms(3) by simp_all
  obtain b where b: "op_test op (lt_head t ! k) = Inr b"
    using op_test_total [OF op(1) table_ok_nodes [OF assms(1)]] True by fastforce
  show ?thesis
  proof (cases b)
    case hit: True
    obtain t' res where h: "op_hit t op k = (t', res)" by fastforce
    then show ?thesis
      using op_hit_call [OF op(2) assms(2) op(3) True _ h] op_hit_ok [OF assms(1) True h] True b hit assms(2)
      by (simp add: lt_step_ok_def)
  next
    case False
    then show ?thesis using passed_Suc [OF op(3) True] op b True assms by (simp add: lt_step_ok_def)
  qed
next
  case False
  have op: "op_ok op" "walking op" "passed op (length (lt_head t)) (lt_head t)"
    using assms(3) False by (auto simp: passed_def)
  obtain t' res where e: "op_end t op = Inr (t', res)" "table_ok t'" "lt_mutex t' = lt_mutex t"
    "length (lt_head t') \<le> length (lt_head t) + op_adds_node op" using op_end_ok [OF assms(1) op(1)] by blast
  then show ?thesis using op_end_call [OF op(2) assms(2) op(3) e(1)] False assms(2) by (simp add: lt_step_ok_def)
qed

text \<open>A thread waits in front of the mutex and in the call inside \<open>lookup_table_serialize\<close>, else it has a step.\<close>

fun waiting :: "lt_pc \<Rightarrow> bool" where
  "waiting L_Idle = True"
| "waiting (L_Relock op) = True"
| "waiting _ = False"

lemma lt_advance_ok:
  assumes "table_ok t" "lt_pc_ok t pc" "\<not> waiting pc" "lt_mutex t = lt_holds pc"
  shows "\<exists>t' pc'. lt_advance t pc = Some (Inr (t', pc')) \<and> lt_step_ok t pc t' pc'"
proof (cases pc)
  case (L_Lock op)
  then have "lt_step_ok t (L_Lock op) (t\<lparr>lt_mutex := True\<rparr>) (op_start op)"
    using assms op_start_cases [of op] by (cases op) (auto simp: lt_step_ok_def lt_unlock_def walking_def)
  with L_Lock assms(4) show ?thesis by (simp add: lt_lock_def)
next
  case (L_Walk op k)
  with lt_walk_step [of t op k] assms show ?thesis by simp
next
  case (L_Read op)
  with assms op_read_call [of op t] show ?thesis by (simp add: lt_step_ok_def)
next
  case (L_Unlock op res)
  with assms show ?thesis by (auto simp: lt_step_ok_def lt_unlock_def)
qed (use assms(3) in simp_all)

subsection \<open>The invariant\<close>

definition holder_ok :: "lookup_table_t \<Rightarrow> lt_pc list \<Rightarrow> bool" where
  "holder_ok t ts \<longleftrightarrow> (lt_mutex t \<longleftrightarrow> (\<exists>i < length ts. lt_holds (ts ! i)))
     \<and> (\<forall>i < length ts. \<forall>j < length ts. lt_holds (ts ! i) \<and> lt_holds (ts ! j) \<longrightarrow> i = j)"

definition lt_log_ok :: "lookup_table_t \<Rightarrow> lt_state \<Rightarrow> bool" where
  "lt_log_ok t0 s \<longleftrightarrow>
     lt_calls (Some t0) (map (fst \<circ> snd) (ls_log s)) = Some (Inr (map (snd \<circ> snd) (ls_log s), Some (lt_unlock (ls_table s))))"

definition lt_returns_ok :: "lt_state \<Rightarrow> bool" where
  "lt_returns_ok s \<longleftrightarrow> own_results lt_done (ls_threads s) (ls_log s) (ls_returned s)"

definition lt_inv :: "lookup_table_t \<Rightarrow> lt_state \<Rightarrow> bool" where
  "lt_inv t0 s \<longleftrightarrow> ls_crash s = None \<and> table_ok (ls_table s) \<and> list_all (lt_pc_ok (ls_table s)) (ls_threads s)
     \<and> holder_ok (ls_table s) (ls_threads s) \<and> lt_log_ok t0 s \<and> lt_returns_ok s"

lemma lt_enabled:
  assumes "lt_inv t0 s" "i < length (ls_threads s)" "lt_advance (ls_table s) (ls_threads s ! i) \<noteq> None"
  shows "lt_mutex (ls_table s) = lt_holds (ls_threads s ! i)"
    "\<exists>t pc. lt_advance (ls_table s) (ls_threads s ! i) = Some (Inr (t, pc)) \<and> lt_step_ok (ls_table s) (ls_threads s ! i) t pc"
proof -
  let ?t = "ls_table s" and ?p = "ls_threads s ! i"
  have inv: "table_ok ?t" "lt_pc_ok ?t ?p" "holder_ok ?t (ls_threads s)"
    using assms(1,2) by (simp_all add: lt_inv_def list_all_length)
  have held: "lt_mutex ?t" if "lt_holds ?p" using inv(3) assms(2) that by (auto simp: holder_ok_def)
  then show m: "lt_mutex ?t = lt_holds ?p"
    using assms(3) by (cases ?p) (auto simp: lt_lock_def split: if_splits)
  have "\<not> waiting ?p"
    using assms(3) held by (cases ?p) (auto simp: lookup_table_serialized_size_def)
  then show "\<exists>t pc. lt_advance ?t ?p = Some (Inr (t, pc)) \<and> lt_step_ok ?t ?p t pc"
    by (rule lt_advance_ok [OF inv(1,2) _ m])
qed

lemma holder_ok_step:
  assumes "holder_ok t ts" "i < length ts" "lt_mutex t = lt_holds (ts ! i)" "lt_mutex t' = lt_holds pc"
  shows "holder_ok t' (ts[i := pc])"
proof -
  have "\<not> lt_holds (ts ! j)" if "j < length ts" "j \<noteq> i" for j
    using assms(1-3) that by (auto simp: holder_ok_def)
  then show ?thesis
    using assms(2,4) unfolding holder_ok_def by (auto simp: nth_list_update split: if_splits)
qed

lemma lt_log_ok_step:
  assumes "lt_log_ok t0 s" "lt_effect (ls_table s) t pc"
  shows "lt_log_ok t0 (s\<lparr>ls_table := t, ls_threads := ts, ls_log := ls_log s @ lt_done i pc, ls_returned := rs\<rparr>)"
  using assms by (cases pc) (simp_all add: lt_log_ok_def lt_calls_snoc)

lemma lt_done_thread: "e \<in> set (lt_done i p) \<Longrightarrow> fst e = i"
  by (cases p) auto

lemma lt_returns_ok_step:
  assumes "lt_returns_ok s" "i < length (ls_threads s)" "lt_next (ls_threads s ! i) pc"
  shows "lt_returns_ok (s\<lparr>ls_table := t, ls_threads := (ls_threads s)[i := pc], ls_log := ls_log s @ lt_done i pc,
           ls_returned := ls_returned s @ lt_done i (ls_threads s ! i)\<rparr>)"
proof -
  have "lt_done i (ls_threads s ! i) = [] \<or> lt_done i pc = []" using assms(3) by (cases "ls_threads s ! i") auto
  then show ?thesis using own_results_step [OF _ assms(2) _ lt_done_thread] assms(1) by (simp add: lt_returns_ok_def)
qed

lemma lt_pc_ok_frame: "lt_pc_ok t p \<Longrightarrow> \<not> lt_holds p \<Longrightarrow> lt_pc_ok t' p"
  by (cases p) simp_all

lemma lt_inv_inner:
  assumes "lt_inv t0 s" "lt_inner s s'"
  shows "lt_inv t0 s'"
  using assms(2)
proof cases
  case (advance i t pc)
  let ?p = "ls_threads s ! i"
  have inv: "list_all (lt_pc_ok (ls_table s)) (ls_threads s)" "holder_ok (ls_table s) (ls_threads s)" "lt_log_ok t0 s" "lt_returns_ok s"
    using assms(1) by (simp_all add: lt_inv_def)
  have step: "lt_step_ok (ls_table s) ?p t pc" and m: "lt_mutex (ls_table s) = lt_holds ?p"
    using lt_enabled [OF assms(1) advance(3)] advance(4) by auto
  have "lt_pc_ok t (ls_threads s ! j)" if "j < length (ls_threads s)" "j \<noteq> i" for j
  proof (rule lt_pc_ok_frame [of "ls_table s"])
    show "lt_pc_ok (ls_table s) (ls_threads s ! j)" using inv(1) that by (simp add: list_all_length)
    show "\<not> lt_holds (ls_threads s ! j)" using inv(2) m that advance(3) by (auto simp: holder_ok_def)
  qed
  then have "list_all (lt_pc_ok t) ((ls_threads s)[i := pc])"
    using step advance(3) by (auto simp: list_all_length nth_list_update lt_step_ok_def)
  moreover have "holder_ok t ((ls_threads s)[i := pc])"
    using step by (intro holder_ok_step [OF inv(2) advance(3) m]) (simp add: lt_step_ok_def)
  ultimately show ?thesis
    using advance step lt_log_ok_step [OF inv(3), of t pc] lt_returns_ok_step [OF inv(4) advance(3), of pc t]
    by (simp add: lt_inv_def lt_step_ok_def)
next
  case (fault i f)
  then show ?thesis using lt_enabled(2) [OF assms(1) fault(3)] by simp
qed

lemma lt_inv_outer:
  assumes "lt_inv t0 s" "lt_outer s s'"
  shows "lt_inv t0 s'"
  using assms(2)
proof cases
  case (call i op)
  have "holder_ok (ls_table s) ((ls_threads s)[i := L_Lock op])"
    using assms(1) call(3,4) unfolding lt_inv_def holder_ok_def
    by (metis (no_types, lifting) length_list_update lt_holds.simps(1,2) nth_list_update)
  then show ?thesis
    using assms(1) call
    by (auto simp: lt_inv_def list_all_length nth_list_update lt_log_ok_def lt_returns_ok_def own_results_def)
qed

lemma lt_reach_inv: "lt_reach t0 threads s \<Longrightarrow> lt_inv t0 s"
proof (induction rule: lt_reach.induct)
  case start
  then have "table_ok t0" "lt_unlock t0 = t0" "\<not> lt_mutex t0"
    by (simp_all add: table_ok_def lt_ok_def lt_unlock_def)
  then show ?case
    by (simp add: lt_inv_def lt_threads_new_def list_all_length holder_ok_def lt_log_ok_def lt_returns_ok_def own_results_def)
qed (auto intro: lt_inv_inner lt_inv_outer)

lemma lt_reach_threads: "lt_reach t0 threads s \<Longrightarrow> length (ls_threads s) = threads"
  by (induction rule: lt_reach.induct) (auto simp: lt_threads_new_def elim!: lt_innerE lt_outerE)


subsection \<open>Progress\<close>

definition lt_bound :: "lt_state \<Rightarrow> nat" where
  "lt_bound s = length (lt_head (ls_table s)) + sum_list (map lt_adds (ls_threads s))"

text \<open>At most so many steps of its own has a thread left while the chain is not longer than \<open>m\<close>.\<close>

fun lt_rank :: "nat \<Rightarrow> lt_pc \<Rightarrow> nat" where
  "lt_rank m (L_Lock op) = m + 3"
| "lt_rank m (L_Walk op k) = m + 2 - k"
| "lt_rank m (L_Read op) = 2"
| "lt_rank m (L_Unlock op res) = 1"
| "lt_rank m _ = 0"

definition lt_work :: "lt_state \<Rightarrow> nat" where
  "lt_work s = sum_list (map (lt_rank (lt_bound s)) (ls_threads s))"

lemma lt_rank_mono: "m \<le> m' \<Longrightarrow> lt_rank m p \<le> lt_rank m' p"
  by (cases p) auto

lemma lt_rank_step:
  assumes "lt_pc_ok t p" "lt_next p p'" "length (lt_head t) \<le> m"
  shows "lt_rank m p' < lt_rank m p"
proof (cases p)
  case (L_Lock op)
  with assms(2) show ?thesis by (cases op) auto
qed (use assms in \<open>auto simp: passed_def\<close>)

lemma lt_work_decreases:
  assumes "lt_inv t0 s" "lt_inner s s'"
  shows "lt_work s' < lt_work s"
  using assms(2)
proof cases
  case (advance i t pc)
  let ?ts = "ls_threads s"
  have step: "lt_step_ok (ls_table s) (?ts ! i) t pc" using lt_enabled(2) [OF assms(1) advance(3)] advance(4) by auto
  have "lt_adds (?ts ! i) \<le> sum_list (map lt_adds ?ts)"
    using elem_le_sum_list [of i "map lt_adds ?ts"] advance(3) by simp
  moreover have "length (lt_head t) + lt_adds pc \<le> length (lt_head (ls_table s)) + lt_adds (?ts ! i)"
    using step by (simp add: lt_step_ok_def)
  ultimately have bound: "lt_bound s' \<le> lt_bound s"
    using advance(1,3) by (simp add: lt_bound_def map_update sum_list_update)
  have "lt_rank (lt_bound s) pc < lt_rank (lt_bound s) (?ts ! i)"
    using assms(1) advance(3) step
    by (intro lt_rank_step [of "ls_table s"]) (simp_all add: lt_inv_def list_all_length lt_step_ok_def lt_bound_def)
  then have "sum_list (map (lt_rank (lt_bound s)) (?ts[i := pc])) < lt_work s"
    unfolding lt_work_def by (rule sum_update_less [OF advance(3)])
  moreover have "sum_list (map (lt_rank (lt_bound s')) (?ts[i := pc])) \<le> sum_list (map (lt_rank (lt_bound s)) (?ts[i := pc]))"
    using bound by (intro sum_list_mono lt_rank_mono)
  ultimately show ?thesis unfolding lt_work_def [of s'] using advance(1) by simp
next
  case (fault i f)
  then show ?thesis using lt_enabled(2) [OF assms(1) fault(3)] by simp
qed

interpretation lt_steps: bounded_steps lt_inner "lt_inv t0" lt_work for t0
  by unfold_locales (rule lt_inv_inner lt_work_decreases; assumption)+

lemma lt_thread_enabled:
  assumes "lt_inv t0 s" "i < length (ls_threads s)" "\<not> waiting (ls_threads s ! i)"
    "lt_mutex (ls_table s) = lt_holds (ls_threads s ! i)"
  shows "\<exists>s'. lt_inner s s'"
proof -
  have "table_ok (ls_table s)" "lt_pc_ok (ls_table s) (ls_threads s ! i)" "ls_crash s = None"
    using assms(1,2) by (simp_all add: lt_inv_def list_all_length)
  then show ?thesis using lt_advance_ok [OF _ _ assms(3,4)] lt_inner.advance [OF _ assms(2)] by blast
qed

lemma lt_stuck_idle:
  assumes inv: "lt_inv t0 s" and stuck: "\<nexists>s'. lt_inner s s'" and i: "i < length (ls_threads s)"
    and none: "\<forall>j < length (ls_threads s). \<forall>op. ls_threads s ! j \<noteq> L_Relock op"
  shows "ls_threads s ! i = L_Idle"
proof -
  have h: "holder_ok (ls_table s) (ls_threads s)" using inv by (simp add: lt_inv_def)
  have free: "\<not> lt_holds (ls_threads s ! j)" if j: "j < length (ls_threads s)" for j
  proof
    assume held: "lt_holds (ls_threads s ! j)"
    then have "lt_mutex (ls_table s) = lt_holds (ls_threads s ! j)" using h j by (auto simp: holder_ok_def)
    moreover have "\<not> waiting (ls_threads s ! j)" using held none j by (cases "ls_threads s ! j") auto
    ultimately show False using lt_thread_enabled [OF inv j] stuck by blast
  qed
  then have "lt_mutex (ls_table s) = lt_holds (ls_threads s ! i)" using h i by (auto simp: holder_ok_def)
  then have "waiting (ls_threads s ! i)" using lt_thread_enabled [OF inv i] stuck by blast
  then show ?thesis using none i by (cases "ls_threads s ! i") auto
qed

subsection \<open>A thread inside \<open>lookup_table_serialize\<close>\<close>

definition lt_any :: "lt_state \<Rightarrow> lt_state \<Rightarrow> bool" where
  "lt_any s s' \<longleftrightarrow> lt_inner s s' \<or> lt_outer s s'"

lemma relock_stuck:
  assumes "lt_inv t0 s" "i < length (ls_threads s)" "ls_threads s ! i = L_Relock op"
  shows "\<nexists>s'. lt_inner s s'"
proof -
  have h: "lt_mutex (ls_table s)" "\<forall>j < length (ls_threads s). lt_holds (ls_threads s ! j) \<longrightarrow> j = i"
    using assms by (auto simp: lt_inv_def holder_ok_def)
  have "lt_advance (ls_table s) (ls_threads s ! j) = None" if "j < length (ls_threads s)" for j
  proof (cases "j = i")
    case True
    then show ?thesis using h(1) assms(3) by (simp add: lookup_table_serialized_size_def)
  next
    case False
    then show ?thesis using h that by (cases "ls_threads s ! j") auto
  qed
  then show ?thesis by (auto elim!: lt_innerE)
qed

lemma relock_run:
  assumes "lt_any\<^sup>*\<^sup>* s s'" "lt_inv t0 s" "i < length (ls_threads s)" "ls_threads s ! i = L_Relock op"
  shows "lt_inv t0 s' \<and> length (ls_threads s') = length (ls_threads s) \<and> ls_threads s' ! i = L_Relock op
           \<and> ls_returned s' = ls_returned s \<and> ls_table s' = ls_table s"
  using assms(1)
proof (induction rule: rtranclp_induct)
  case (step s1 s2)
  then have "lt_outer s1 s2" using relock_stuck [of t0 s1 i op] assms(3) by (auto simp: lt_any_def)
  moreover have "lt_inv t0 s2" using lt_inv_outer [OF _ calculation] step.IH by blast
  ultimately show ?case
    using step.IH by (auto elim!: lt_outerE simp: nth_list_update)
qed (use assms in simp)

subsection \<open>Runs by a schedule\<close>

text \<open>The threads with these numbers make a step in turn.\<close>

fun lt_schedule :: "lt_state \<Rightarrow> nat list \<Rightarrow> lt_state option" where
  "lt_schedule s [] = Some s"
| "lt_schedule s (i # is) =
     (if i < length (ls_threads s) then
        (case lt_advance (ls_table s) (ls_threads s ! i) of
           Some (Inr (t, pc)) \<Rightarrow>
             lt_schedule (s\<lparr>ls_table := t, ls_threads := (ls_threads s)[i := pc], ls_log := ls_log s @ lt_done i pc,
               ls_returned := ls_returned s @ lt_done i (ls_threads s ! i)\<rparr>) is
         | _ \<Rightarrow> None)
      else None)"

lemma lt_schedule_reach: "lt_schedule s is = Some s' \<Longrightarrow> lt_reach t0 threads s \<Longrightarrow> lt_reach t0 threads s'"
proof (induction "is" arbitrary: s)
  case (Cons i "is")
  let ?next = "\<lambda>t pc. s\<lparr>ls_table := t, ls_threads := (ls_threads s)[i := pc], ls_log := ls_log s @ lt_done i pc,
      ls_returned := ls_returned s @ lt_done i (ls_threads s ! i)\<rparr>"
  obtain t pc where a: "i < length (ls_threads s)" "lt_advance (ls_table s) (ls_threads s ! i) = Some (Inr (t, pc))"
    "lt_schedule (?next t pc) is = Some s'"
    using Cons.prems(1) by (auto split: if_splits option.splits sum.splits prod.splits)
  have "lt_reach t0 threads (?next t pc)"
    using lt_reach_inv [OF Cons.prems(2)] a(1,2) by (intro lt_reach.inner [OF Cons.prems(2) lt_inner.advance]) (simp_all add: lt_inv_def)
  with Cons.IH a(3) show ?case by blast
qed simp


lemma two_calls:
  assumes "lt_ok t0" "op_ok op1" "op_ok op2"
  shows "lt_reach t0 2 \<lparr>ls_table = t0, ls_threads = [L_Lock op1, L_Lock op2], ls_crash = None, ls_log = [], ls_returned = []\<rparr>"
proof -
  let ?s = "lt_threads_new t0 2"
  have "lt_outer ?s (?s\<lparr>ls_threads := (ls_threads ?s)[0 := L_Lock op1]\<rparr>)"
    using assms(2) by (intro lt_outer.call) (simp_all add: lt_threads_new_def)
  with lt_reach.start [OF assms(1)] have r: "lt_reach t0 2 (?s\<lparr>ls_threads := (ls_threads ?s)[0 := L_Lock op1]\<rparr>)"
    by (rule lt_reach.outer)
  have "lt_outer (?s\<lparr>ls_threads := (ls_threads ?s)[0 := L_Lock op1]\<rparr>)
      \<lparr>ls_table = t0, ls_threads = [L_Lock op1, L_Lock op2], ls_crash = None, ls_log = [], ls_returned = []\<rparr>"
    using lt_outer.call [of "?s\<lparr>ls_threads := (ls_threads ?s)[0 := L_Lock op1]\<rparr>" 1 op2] assms(3)
    by (simp add: lt_threads_new_def numeral_2_eq_2)
  with r show ?thesis by (rule lt_reach.outer)
qed

definition empty_table :: lookup_table_t where
  "empty_table = \<lparr>lt_head = [], lt_mutex = False, lt_size = 0\<rparr>"

definition peer :: node_info_t where
  "peer = \<lparr>info_host = strncpy [49] 45 @ [0], info_port = 9000, info_hash = replicate 20 7\<rparr>"

abbreviation add_peer :: lt_op where "add_peer \<equiv> Op_Add True [49] 9000 (replicate 20 7)"
abbreviation find_peer :: lt_op where "find_peer \<equiv> Op_Find [49] 9000"

lemma empty_table_ok: "lt_ok empty_table"
  by (simp add: empty_table_def lt_ok_def)

lemma create_peer: "create_node True [49] 9000 (replicate 20 7) = Inr (Some peer)"
  by (simp add: create_node_def mem_read_def peer_def)

lemma peer_found: "same_addr [49] 9000 peer = Inr True"
  by (simp add: same_addr_def peer_def strcmp_eq_def cstr_strncpy) (simp add: cstr_def)

text \<open>Thread 0 adds a peer; thread 1, which was waiting, finds it.\<close>

lemma add_then_find:
  "lt_reach empty_table 2
     \<lparr>ls_table = \<lparr>lt_head = [peer], lt_mutex = False, lt_size = 1\<rparr>, ls_threads = [L_Idle, L_Idle], ls_crash = None,
      ls_log = [(0, add_peer, R_Code 1), (1, find_peer, R_Node (Some peer))],
      ls_returned = [(0, add_peer, R_Code 1), (1, find_peer, R_Node (Some peer))]\<rparr>"
  by (rule lt_schedule_reach [OF _ two_calls [OF empty_table_ok, of add_peer find_peer], of "[0, 0, 0, 1, 1, 1]"])
    (simp_all add: empty_table_def lt_lock_def lt_unlock_def create_peer peer_found del: replicate.simps replicate_Suc)

text \<open>Thread 0 is inside \<open>lookup_table_serialize\<close>; thread 1 waits to find a peer.\<close>

lemma serialize_and_find:
  "lt_reach empty_table 2
     \<lparr>ls_table = empty_table\<lparr>lt_mutex := True\<rparr>, ls_threads = [L_Relock (Op_Serialize b n), L_Lock find_peer], ls_crash = None,
      ls_log = [], ls_returned = []\<rparr>"
  by (rule lt_schedule_reach [OF _ two_calls [OF empty_table_ok, of "Op_Serialize b n" find_peer], of "[0]"])
    (simp_all add: empty_table_def lt_lock_def)

subsection \<open>Properties\<close>

text \<open>C7. The lookup table is linearizable under any number of threads and any interleaving of their steps:
  no step faults, the operations in the order in which they took effect have the results, and leave the
  table, of the same calls made one after the other, and each thread gets the results of its own
  operations in the order of its calls.\<close>

theorem lt_linearizable:
  assumes "lt_reach t0 threads s"
  shows "ls_crash s = None
       \<and> lt_calls (Some t0) (map (fst \<circ> snd) (ls_log s)) =
           Some (Inr (map (snd \<circ> snd) (ls_log s), Some (lt_unlock (ls_table s))))
       \<and> lt_ok (lt_unlock (ls_table s))
       \<and> (\<forall>i < threads. filter (\<lambda>e. fst e = i) (ls_log s) =
            filter (\<lambda>e. fst e = i) (ls_returned s) @ lt_done i (ls_threads s ! i))"
  using lt_reach_inv [OF assms] lt_reach_threads [OF assms]
  by (simp add: lt_inv_def lt_log_ok_def lt_returns_ok_def own_results_def table_ok_def)

theorem lt_linearizable_witness:
  "\<exists>t. lt_calls (Some empty_table) [add_peer, find_peer] = Some (Inr ([R_Code 1, R_Node (Some peer)], Some t)) \<and> lt_ok t"
  using lt_linearizable [OF add_then_find] by (simp del: lt_calls.simps)

text \<open>C20. The calls end: from every reachable state the threads make only boundedly many steps before a new
  call, and when none can make a step and no thread is inside \<open>lookup_table_serialize\<close>, all calls have
  returned with the results of the log, and the mutex is free.\<close>

theorem lt_threads_finish:
  assumes "lt_reach t0 threads s"
  shows "(\<forall>m s'. (lt_inner ^^ m) s s' \<longrightarrow> m \<le> lt_work s)
       \<and> ((\<nexists>s'. lt_inner s s') \<and> (\<forall>j < threads. \<forall>op. ls_threads s ! j \<noteq> L_Relock op) \<longrightarrow>
            ls_threads s = replicate threads L_Idle \<and> lt_ok (ls_table s)
            \<and> (\<forall>i < threads. filter (\<lambda>e. fst e = i) (ls_returned s) = filter (\<lambda>e. fst e = i) (ls_log s)))"
proof (intro conjI impI allI)
  note inv = lt_reach_inv [OF assms] and len = lt_reach_threads [OF assms]
  show "m \<le> lt_work s" if "(lt_inner ^^ m) s s'" for m s' using that inv by (rule lt_steps.run_bounded)
  assume stuck: "(\<nexists>s'. lt_inner s s') \<and> (\<forall>j < threads. \<forall>op. ls_threads s ! j \<noteq> L_Relock op)"
  have idle: "ls_threads s ! i = L_Idle" if "i < threads" for i using lt_stuck_idle [OF inv] stuck that len by blast
  then show "ls_threads s = replicate threads L_Idle" using len by (simp add: list_eq_iff_nth_eq)
  have "\<not> lt_mutex (ls_table s)" using inv idle len by (auto simp: lt_inv_def holder_ok_def)
  then have "lt_unlock (ls_table s) = ls_table s" by (simp add: lt_unlock_def)
  then show "lt_ok (ls_table s)" using inv by (simp add: lt_inv_def table_ok_def)
  show "filter (\<lambda>e. fst e = i) (ls_returned s) = filter (\<lambda>e. fst e = i) (ls_log s)" if "i < threads" for i
    using inv len idle [OF that] that by (simp add: lt_inv_def lt_returns_ok_def own_results_def)
qed

theorem lt_threads_finish_witness:
  "\<exists>s. lt_reach empty_table 2 s \<and> ls_threads s = [L_Idle, L_Idle] \<and> lt_ok (ls_table s)
     \<and> filter (\<lambda>e. fst e = 1) (ls_returned s) = [(1, find_peer, R_Node (Some peer))]"
proof -
  obtain s where s: "lt_reach empty_table 2 s" "ls_threads s = [L_Idle, L_Idle]"
    "ls_log s = [(0, add_peer, R_Code 1), (1, find_peer, R_Node (Some peer))]"
    using add_then_find by fastforce
  have idle: "ls_threads s ! j = L_Idle" if "j < 2" for j using that s(2) by (auto simp: less_2_cases_iff)
  have "\<nexists>s'. lt_inner s s'" using s(2) idle by (auto elim!: lt_innerE)
  with lt_threads_finish [OF s(1)] idle s show ?thesis by auto
qed

text \<open>C36. One call of \<open>lookup_table_serialize\<close> stops the table for every thread: once a thread has taken the
  mutex in it, that thread stays there, whatever the others call and in whatever order; no thread
  makes a step any more, no call of any thread returns, and the table does not change.\<close>

theorem lt_serialize_stops:
  assumes "lt_reach t0 threads s" and "i < threads" and "ls_threads s ! i = L_Relock op" and "lt_any\<^sup>*\<^sup>* s s'"
  shows "ls_threads s' ! i = L_Relock op \<and> (\<nexists>s''. lt_inner s' s'')
       \<and> ls_returned s' = ls_returned s \<and> ls_table s' = ls_table s"
proof -
  have len: "i < length (ls_threads s)" using lt_reach_threads [OF assms(1)] assms(2) by simp
  note r = relock_run [OF assms(4) lt_reach_inv [OF assms(1)] len assms(3)]
  then show ?thesis using relock_stuck [of t0 s' i op] len by simp
qed

theorem lt_serialize_stops_witness:
  "\<exists>s. lt_reach empty_table 2 s \<and> ls_threads s ! 1 = L_Lock find_peer
     \<and> (\<forall>s'. lt_any\<^sup>*\<^sup>* s s' \<longrightarrow> (\<nexists>s''. lt_inner s' s'') \<and> ls_returned s' = [])"
  using lt_serialize_stops [OF serialize_and_find [of "[]" 0], of 0 "Op_Serialize [] 0"] serialize_and_find [of "[]" 0]
  by (intro exI [of _ "\<lparr>ls_table = empty_table\<lparr>lt_mutex := True\<rparr>, ls_threads = [L_Relock (Op_Serialize [] 0), L_Lock find_peer],
      ls_crash = None, ls_log = [], ls_returned = []\<rparr>"]) simp

end
