(* ===== verification/Memory.thy ===== *)
theory Memory
  imports Node
begin

text \<open>
  The blocks the code allocates while it serves a datagram or asks a seed, and who frees them:
  \<open>packet_from_bytes\<close>, \<open>packet_new\<close>, \<open>packet_to_bytes\<close>, \<open>packet_to_string\<close> and
  \<open>packet_destroy\<close> (\<open>src/src/packet/packet.c\<close>), the commands and the request handler, the loops
  of \<open>src/src/transfer/udp.c\<close>, and the exchange of \<open>src/src/transfer/udp_client.c\<close> as \<open>main\<close> uses it.

  Memory is a map from addresses to blocks; the pointers inside a block are addresses. Freeing a
  block that is not allocated, or reading one, is a fault, \<open>free(NULL)\<close> does nothing. A block is
  allocated with the contents that the statements behind the \<open>malloc\<close> give it, which are
  computed by the operations of the other theories. \<open>fresh\<close> is \<open>malloc\<close>'s choice of address.
\<close>

subsection \<open>Blocks\<close>

text \<open>A packet structure: its fields, and the pointer \<open>payload\<close>.\<close>

record mem_packet =
  mp_fields :: packet_t
  mp_payload :: "nat option"

record 'a mem_request =
  mr_addr :: 'a
  mr_data :: nat
  mr_length :: int

datatype 'a block =
    Bytes_Block "byte list"
  | Text_Block string
  | Packet_Struct mem_packet
  | Request_Struct "'a mem_request"
  | Client_Struct udp_client_t

type_synonym 'a memory = "nat \<rightharpoonup> 'a block"
type_synonym ('a, 'r) mem_op = "'a memory \<Rightarrow> ('r \<times> 'a memory) faulty"

definition mem_return :: "'r \<Rightarrow> ('a, 'r) mem_op" where
  "mem_return x h = Inr (x, h)"

definition mem_bind :: "('a, 'r) mem_op \<Rightarrow> ('r \<Rightarrow> ('a, 's) mem_op) \<Rightarrow> ('a, 's) mem_op" where
  "mem_bind m f h = fault_bind (m h) (\<lambda>(x, h1). f x h1)"

text \<open>A computation that allocates nothing.\<close>

definition mem_pure :: "'r faulty \<Rightarrow> ('a, 'r) mem_op" where
  "mem_pure r h = fault_bind r (\<lambda>x. Inr (x, h))"

definition mem_malloc :: "('a memory \<Rightarrow> nat) \<Rightarrow> 'a block \<Rightarrow> ('a, nat) mem_op" where
  "mem_malloc fresh b h = Inr (fresh h, h(fresh h \<mapsto> b))"

definition mem_free :: "nat option \<Rightarrow> ('a, unit) mem_op" where
  "mem_free p h =
     (case p of None \<Rightarrow> Inr ((), h)
      | Some a \<Rightarrow> if h a = None then Inl Dangling else Inr ((), h(a := None)))"

definition mem_store :: "nat \<Rightarrow> 'a block \<Rightarrow> ('a, unit) mem_op" where
  "mem_store a b h = (if h a = None then Inl Dangling else Inr ((), h(a \<mapsto> b)))"

definition block_at :: "nat \<Rightarrow> ('a, 'a block) mem_op" where
  "block_at a h = (case h a of None \<Rightarrow> Inl Dangling | Some b \<Rightarrow> Inr (b, h))"

text \<open>The bytes behind a pointer, \<open>None\<close> for the null pointer.\<close>

definition bytes_at :: "nat option \<Rightarrow> ('a, byte list option) mem_op" where
  "bytes_at p =
     (case p of None \<Rightarrow> mem_return None
      | Some a \<Rightarrow> mem_bind (block_at a) (\<lambda>b.
          case b of Bytes_Block d \<Rightarrow> mem_return (Some d) | _ \<Rightarrow> mem_pure (Inl Dangling)))"

definition struct_at :: "nat \<Rightarrow> ('a, mem_packet) mem_op" where
  "struct_at a = mem_bind (block_at a) (\<lambda>b.
     case b of Packet_Struct s \<Rightarrow> mem_return s | _ \<Rightarrow> mem_pure (Inl Dangling))"

text \<open>The packet behind a pointer, with the bytes behind its \<open>payload\<close>.\<close>

definition packet_at :: "nat \<Rightarrow> ('a, packet_t) mem_op" where
  "packet_at a =
     mem_bind (struct_at a) (\<lambda>s.
     mem_bind (bytes_at (mp_payload s)) (\<lambda>d. mem_return ((mp_fields s)\<lparr>payload := d\<rparr>)))"

text \<open>The fields \<open>packet_from_bytes\<close> reads before it looks at the length.\<close>

definition packet_header :: "byte list \<Rightarrow> packet_t faulty" where
  "packet_header bytes =
     fault_bind (mem_read bytes 0 1) (\<lambda>v.
     fault_bind (mem_read bytes 1 1) (\<lambda>t.
     fault_bind (mem_read bytes 2 2) (\<lambda>req_raw.
     fault_bind (mem_read bytes 4 20) (\<lambda>h.
     fault_bind (mem_read bytes 24 2) (\<lambda>payload_raw.
     Inr \<lparr>version = hd v, ptype = hd t, req_id = ntohs (le_word req_raw),
          sender_node_hash = h, payload_len = ntohs (le_word payload_raw), payload = None\<rparr>)))))"

subsection \<open>Packets\<close>

definition packet_from_bytes_mem :: "('a memory \<Rightarrow> nat) \<Rightarrow> byte list \<Rightarrow> nat \<Rightarrow> ('a, nat option) mem_op" where
  "packet_from_bytes_mem fresh bytes len =
     (if len < HEADER_SIZE then mem_return None
      else
        mem_bind (mem_pure (packet_header bytes)) (\<lambda>pack.
        mem_bind (mem_malloc fresh (Packet_Struct \<lparr>mp_fields = pack, mp_payload = None\<rparr>)) (\<lambda>packet.
        if len < HEADER_SIZE + unat (payload_len pack)
        then mem_bind (mem_free (Some packet)) (\<lambda>_. mem_return None)
        else if 0 < payload_len pack
        then mem_bind (mem_pure (mem_read bytes HEADER_SIZE (unat (payload_len pack)))) (\<lambda>d.
             mem_bind (mem_malloc fresh (Bytes_Block d)) (\<lambda>pl.
             mem_bind (mem_store packet (Packet_Struct \<lparr>mp_fields = pack, mp_payload = Some pl\<rparr>)) (\<lambda>_.
             mem_return (Some packet))))
        else mem_return (Some packet))))"

definition packet_new_mem ::
    "('a memory \<Rightarrow> nat) \<Rightarrow> byte list option \<Rightarrow> byte \<Rightarrow> packet_type_t \<Rightarrow> u16 \<Rightarrow> byte list option \<Rightarrow> u16
     \<Rightarrow> ('a, nat) mem_op" where
  "packet_new_mem fresh global_node ver ty rid pl pl_length =
     mem_bind (mem_pure (packet_new global_node ver ty rid pl pl_length)) (\<lambda>p.
     mem_bind (mem_malloc fresh (Packet_Struct \<lparr>mp_fields = p\<lparr>payload := None\<rparr>, mp_payload = None\<rparr>)) (\<lambda>packet.
     case payload p of None \<Rightarrow> mem_return packet
     | Some d \<Rightarrow>
         mem_bind (mem_malloc fresh (Bytes_Block d)) (\<lambda>q.
         mem_bind (mem_store packet (Packet_Struct \<lparr>mp_fields = p\<lparr>payload := None\<rparr>, mp_payload = Some q\<rparr>)) (\<lambda>_.
         mem_return packet))))"

definition packet_destroy_mem :: "nat option \<Rightarrow> ('a, unit) mem_op" where
  "packet_destroy_mem packet =
     (case packet of None \<Rightarrow> mem_return ()
      | Some a \<Rightarrow>
          mem_bind (struct_at a) (\<lambda>s.
          mem_bind (mem_free (mp_payload s)) (\<lambda>_. mem_free (Some a))))"

text \<open>The output block and its length.\<close>

definition packet_to_bytes_mem ::
    "('a memory \<Rightarrow> nat) \<Rightarrow> (nat \<Rightarrow> byte) \<Rightarrow> nat \<Rightarrow> ('a, nat \<times> nat) mem_op" where
  "packet_to_bytes_mem fresh g packet =
     mem_bind (packet_at packet) (\<lambda>p.
     mem_bind (mem_pure (packet_to_bytes g p)) (\<lambda>buf.
     mem_bind (mem_malloc fresh (Bytes_Block buf)) (\<lambda>output. mem_return (output, length buf))))"

text \<open>The debug string, with the two helper strings.\<close>

definition packet_to_string_mem :: "('a memory \<Rightarrow> nat) \<Rightarrow> (nat \<Rightarrow> char) \<Rightarrow> nat \<Rightarrow> ('a, nat) mem_op" where
  "packet_to_string_mem fresh gs packet =
     mem_bind (packet_at packet) (\<lambda>p.
     mem_bind (mem_pure (packet_to_string gs p)) (\<lambda>str.
     mem_bind (mem_malloc fresh (Text_Block str)) (\<lambda>output.
     mem_bind (mem_pure (cvt_sha1_to_string gs (sender_node_hash p))) (\<lambda>sender.
     mem_bind (mem_malloc fresh (Text_Block sender)) (\<lambda>sender_hash_output.
     mem_bind (mem_pure (cvt_bytes_to_hex gs True (payload p) (unat (payload_len p)))) (\<lambda>(pl, _).
     mem_bind (case pl of None \<Rightarrow> mem_return None
               | Some t \<Rightarrow> mem_bind (mem_malloc fresh (Text_Block t)) (\<lambda>a. mem_return (Some a))) (\<lambda>payload_output.
     mem_bind (mem_free (Some sender_hash_output)) (\<lambda>_.
     mem_bind (mem_free payload_output) (\<lambda>_. mem_return output)))))))))"

subsection \<open>The request handler\<close>

text \<open>The three statements by which the commands and the handler build an answer.\<close>

definition reply_mem ::
    "('a memory \<Rightarrow> nat) \<Rightarrow> (nat \<Rightarrow> byte) \<Rightarrow> byte list option \<Rightarrow> packet_type_t \<Rightarrow> u16 \<Rightarrow> byte list option \<Rightarrow> u16
     \<Rightarrow> ('a, nat \<times> nat) mem_op" where
  "reply_mem fresh g gn ty rid pl pl_length =
     mem_bind (packet_new_mem fresh gn 1 ty rid pl pl_length) (\<lambda>p.
     mem_bind (packet_to_bytes_mem fresh g p) (\<lambda>(output, len).
     mem_bind (packet_destroy_mem (Some p)) (\<lambda>_. mem_return (output, len))))"

primrec run_command_mem ::
    "command \<Rightarrow> ('a memory \<Rightarrow> nat) \<Rightarrow> byte list option \<Rightarrow> (nat \<Rightarrow> byte) \<Rightarrow> nat \<Rightarrow> ('a, nat \<times> nat) mem_op" where
  "run_command_mem Empty_Command = (\<lambda>fresh gn g packet. reply_mem fresh g gn CMD_ERROR 0 None 0)"
| "run_command_mem Command_Ping = (\<lambda>fresh gn g packet.
     mem_bind (struct_at packet) (\<lambda>s.
     reply_mem fresh g gn CMD_PING (req_id (mp_fields s)) (Some (pong @ [0])) (word_of_nat (length (cstr (pong @ [0]))))))"

definition dispatch_mem ::
    "('a memory \<Rightarrow> nat) \<Rightarrow> command option list \<Rightarrow> byte list option \<Rightarrow> (nat \<Rightarrow> byte) \<Rightarrow> nat \<Rightarrow> ('a, nat \<times> nat) mem_op" where
  "dispatch_mem fresh d gn g packet =
     mem_bind (struct_at packet) (\<lambda>s.
     mem_bind (mem_pure (mem_read d (unat (ptype (mp_fields s))) 1)) (\<lambda>slot.
     case hd slot of None \<Rightarrow> mem_pure (Inl Null_Deref) | Some c \<Rightarrow> run_command_mem c fresh gn g packet))"

text \<open>The pointer left in \<open>*output\<close> and the length returned; \<open>dat\<close> is the pointer to the
  datagram.\<close>

definition node_request_handler_mem ::
    "('a memory \<Rightarrow> nat) \<Rightarrow> command option list \<Rightarrow> byte list option \<Rightarrow> (nat \<Rightarrow> byte) \<Rightarrow> (nat \<Rightarrow> char)
     \<Rightarrow> nat \<Rightarrow> nat \<Rightarrow> ('a, nat option \<times> nat) mem_op" where
  "node_request_handler_mem fresh d gn g gs dat len_in =
     mem_bind (bytes_at (Some dat)) (\<lambda>bytes.
     mem_bind (packet_from_bytes_mem fresh (the bytes) len_in) (\<lambda>packet.
     case packet of
       None \<Rightarrow>
         mem_bind (reply_mem fresh g gn CMD_ERROR 0 None 0) (\<lambda>(output, _).
         mem_bind (packet_destroy_mem packet) (\<lambda>_. mem_return (Some output, 0)))
     | Some p \<Rightarrow>
         mem_bind (packet_to_string_mem fresh gs p) (\<lambda>packet_str.
         mem_bind (dispatch_mem fresh d gn g p) (\<lambda>(output, len).
         mem_bind (mem_free (Some packet_str)) (\<lambda>_.
         mem_bind (packet_destroy_mem packet) (\<lambda>_. mem_return (Some output, len)))))))"

subsection \<open>The server's loops\<close>

definition udp_receive_mem :: "('a memory \<Rightarrow> nat) \<Rightarrow> 'a \<Rightarrow> byte list \<Rightarrow> int \<Rightarrow> ('a, nat option) mem_op" where
  "udp_receive_mem fresh addr buffer n =
     (if 0 < n
      then mem_bind (mem_malloc fresh (Request_Struct \<lparr>mr_addr = addr, mr_data = 0, mr_length = n\<rparr>)) (\<lambda>req.
           mem_bind (mem_pure (mem_read buffer 0 (nat n))) (\<lambda>d.
           mem_bind (mem_malloc fresh (Bytes_Block d)) (\<lambda>dat.
           mem_bind (mem_store req (Request_Struct \<lparr>mr_addr = addr, mr_data = dat, mr_length = n\<rparr>)) (\<lambda>_.
           mem_return (Some req)))))
      else mem_return None)"

definition request_at :: "nat \<Rightarrow> ('a, 'a mem_request) mem_op" where
  "request_at a = mem_bind (block_at a) (\<lambda>b.
     case b of Request_Struct r \<Rightarrow> mem_return r | _ \<Rightarrow> mem_pure (Inl Dangling))"

definition worker_serve_mem ::
    "(nat \<Rightarrow> nat \<Rightarrow> ('a, nat option \<times> nat) mem_op) option \<Rightarrow> nat option \<Rightarrow> ('a, ('a \<times> byte list) list) mem_op" where
  "worker_serve_mem H req =
     (case req of None \<Rightarrow> mem_return []
      | Some r \<Rightarrow>
          mem_bind (request_at r) (\<lambda>rq.
          mem_bind (case H of None \<Rightarrow> mem_return (None, [])
                    | Some request_handler \<Rightarrow>
                        mem_bind (request_handler (mr_data rq) (nat (mr_length rq))) (\<lambda>(output, len).
                        mem_bind (bytes_at output) (\<lambda>b.
                        mem_bind (mem_pure (ptr_read b len)) (\<lambda>d. mem_return (output, [(mr_addr rq, d)]))))) (\<lambda>(output, sent).
          mem_bind (mem_free output) (\<lambda>_.
          mem_bind (mem_free (Some (mr_data rq))) (\<lambda>_.
          mem_bind (mem_free (Some r)) (\<lambda>_. mem_return sent))))))"

subsection \<open>The client\<close>

text \<open>What \<open>udp_client_new\<close> leaves in \<open>*client\<close>: when the socket cannot be made, the block is
  freed and the pointer to it stays.\<close>

definition udp_client_new_mem :: "('a memory \<Rightarrow> nat) \<Rightarrow> bool \<Rightarrow> int \<Rightarrow> int \<Rightarrow> ('a, nat option) mem_op" where
  "udp_client_new_mem fresh mem_ok socket_result ms =
     (if \<not> mem_ok then mem_return None
      else mem_bind (mem_malloc fresh (Client_Struct \<lparr>client_fd = socket_result, timeout_ms = ms\<rparr>)) (\<lambda>client.
           if socket_result < 0
           then mem_bind (mem_free (Some client)) (\<lambda>_. mem_return (Some client))
           else mem_return (Some client)))"

definition client_at :: "nat \<Rightarrow> ('a, udp_client_t) mem_op" where
  "client_at a = mem_bind (block_at a) (\<lambda>b.
     case b of Client_Struct c \<Rightarrow> mem_return c | _ \<Rightarrow> mem_pure (Inl Dangling))"

definition udp_client_destroy_mem :: "nat option \<Rightarrow> ('a, unit) mem_op" where
  "udp_client_destroy_mem client =
     (case client of None \<Rightarrow> mem_return ()
      | Some a \<Rightarrow> mem_bind (client_at a) (\<lambda>_. mem_free (Some a)))"

text \<open>The response packet, for arguments that are not null.\<close>

definition udp_client_send_packet_mem ::
    "('a memory \<Rightarrow> nat) \<Rightarrow> (nat \<Rightarrow> byte) \<Rightarrow> nat \<Rightarrow> net_outcome \<Rightarrow> nat \<Rightarrow> ('a, nat option) mem_op" where
  "udp_client_send_packet_mem fresh g client net request_packet =
     mem_bind (packet_to_bytes_mem fresh g request_packet) (\<lambda>(request_bytes, request_len).
     if request_len = 0 then mem_return None
     else if pton_result net \<le> 0
     then mem_bind (mem_free (Some request_bytes)) (\<lambda>_. mem_return None)
     else mem_bind (client_at client) (\<lambda>k.
          mem_bind (mem_free (Some request_bytes)) (\<lambda>_.
          if sendto_result net < 0 then mem_return None
          else if \<not> fd_ok k then mem_pure (Inl Out_Of_Bounds)
          else if select_result net < 0 then mem_return None
          else if select_result net = 0 then mem_return None
          else if fd_isset net then
            if recvfrom_result net < 0 then mem_return None
            else packet_from_bytes_mem fresh (recv_buffer net) (nat (recvfrom_result net))
          else mem_return None)))"

text \<open>The body of the handshake loop of \<open>main\<close>.\<close>

definition handshake_one_mem ::
    "('a memory \<Rightarrow> nat) \<Rightarrow> (nat \<Rightarrow> byte) \<Rightarrow> byte list option \<Rightarrow> seed_env \<Rightarrow> ('a, bool) mem_op" where
  "handshake_one_mem fresh g gn env =
     mem_bind (packet_new_mem fresh gn 1 CMD_PING 1 None 0) (\<lambda>req.
     mem_bind (udp_client_new_mem fresh (seed_mem env) (seed_socket env) 1000) (\<lambda>client.
     mem_bind (case client of None \<Rightarrow> mem_return None
               | Some c \<Rightarrow> udp_client_send_packet_mem fresh g c (seed_net env) req) (\<lambda>res.
     mem_bind (case res of None \<Rightarrow> mem_return False
               | Some r \<Rightarrow> mem_bind (packet_at r) (\<lambda>p.
                   mem_pure (case payload p of None \<Rightarrow> Inl Null_Deref
                             | Some d \<Rightarrow> fault_bind (mem_read d 0 4) (\<lambda>d4. Inr (d4 = pong))))) (\<lambda>online.
     mem_bind (udp_client_destroy_mem client) (\<lambda>_.
     mem_bind (packet_destroy_mem (Some req)) (\<lambda>_.
     mem_bind (packet_destroy_mem res) (\<lambda>_. mem_return online)))))))"

subsection \<open>Ownership\<close>

lemma mem_simps [simp]:
  "mem_return x h = Inr (x, h)"
  "mem_pure (Inr x) h = Inr (x, h)"
  "mem_pure (Inl f) h = Inl f"
  by (simp_all add: mem_return_def mem_pure_def)

lemma mem_bind_Inr: "m h = Inr (x, h1) \<Longrightarrow> mem_bind m f h = f x h1"
  by (simp add: mem_bind_def)

lemma mem_bind_Inl: "m h = Inl e \<Longrightarrow> mem_bind m f h = Inl e"
  by (simp add: mem_bind_def)

lemmas mem_defs = mem_bind_def mem_malloc_def mem_free_def mem_store_def block_at_def bytes_at_def struct_at_def
  request_at_def client_at_def

abbreviation struct_of :: "packet_t \<Rightarrow> nat option \<Rightarrow> 'a block" where
  "struct_of pk q \<equiv> Packet_Struct \<lparr>mp_fields = pk\<lparr>payload := None\<rparr>, mp_payload = q\<rparr>"

text \<open>\<open>h\<close> is the memory \<open>h0\<close> with a packet at \<open>p\<close> in it and, unless its pointer is null, the
  block of its payload.\<close>

definition owns :: "'a memory \<Rightarrow> nat \<Rightarrow> packet_t \<Rightarrow> 'a memory \<Rightarrow> bool" where
  "owns h0 p pk h \<longleftrightarrow> h0 p = None \<and> (case payload pk of
     None \<Rightarrow> h = h0(p \<mapsto> struct_of pk None)
   | Some d \<Rightarrow> \<exists>q. q \<noteq> p \<and> h0 q = None \<and>
       h = h0(p \<mapsto> struct_of pk (Some q), q \<mapsto> Bytes_Block d))"

lemma payload_update_id: "payload pk = d \<Longrightarrow> pk\<lparr>payload := d\<rparr> = pk"
  by auto

lemma ownsE:
  assumes "owns h0 p pk h"
  obtains (null) "payload pk = None" "h0 p = None"
      "h = h0(p \<mapsto> struct_of pk None)"
  | (bytes) d q where "payload pk = Some d" "h0 p = None" "q \<noteq> p" "h0 q = None"
      "h = h0(p \<mapsto> struct_of pk (Some q), q \<mapsto> Bytes_Block d)"
  using assms by (auto simp: owns_def split: option.splits)

lemma owns_struct:
  assumes "owns h0 p pk h"
  obtains q where "struct_at p h = Inr (\<lparr>mp_fields = pk\<lparr>payload := None\<rparr>, mp_payload = q\<rparr>, h)"
    "bytes_at q h = Inr (payload pk, h)"
  using assms
proof (cases rule: ownsE)
  case null
  then show ?thesis using that [of None] by (simp add: mem_defs)
next
  case (bytes d q)
  then show ?thesis using that [of "Some q"] by (simp add: mem_defs)
qed

lemma owns_packet:
  assumes "owns h0 p pk h"
  shows "packet_at p h = Inr (pk, h)"
proof -
  obtain q where "struct_at p h = Inr (\<lparr>mp_fields = pk\<lparr>payload := None\<rparr>, mp_payload = q\<rparr>, h)"
    "bytes_at q h = Inr (payload pk, h)"
    by (rule owns_struct [OF assms])
  then show ?thesis by (simp add: packet_at_def mem_bind_Inr payload_update_id)
qed

lemma owns_destroy:
  assumes "owns h0 p pk h"
  shows "packet_destroy_mem (Some p) h = Inr ((), h0)"
  using assms
proof (cases rule: ownsE)
  case null
  then show ?thesis by (simp add: packet_destroy_mem_def mem_defs fun_upd_idem)
next
  case (bytes d q)
  then have "h(q := None, p := None) = h0" by (simp add: fun_eq_iff)
  with bytes show ?thesis by (simp add: packet_destroy_mem_def mem_defs)
qed

lemma owns_frame:
  assumes "owns h0 p pk h" "h a = None"
  shows "owns (h0(a \<mapsto> b)) p pk (h(a \<mapsto> b))"
  using assms(1)
proof (cases rule: ownsE)
  case null
  with assms(2) show ?thesis by (auto simp: owns_def fun_upd_twist split: if_splits)
next
  case (bytes d q)
  then have "a \<noteq> p" "a \<noteq> q" using assms(2) by auto
  with bytes show ?thesis by (auto simp: owns_def fun_eq_iff)
qed

lemma owns_mono: "owns h0 p pk h \<Longrightarrow> h a = None \<Longrightarrow> h0 a = None"
  by (erule ownsE) (auto split: if_splits)

lemma owns_finite: "owns h0 p pk h \<Longrightarrow> finite (dom h0) \<Longrightarrow> finite (dom h)"
  by (erule ownsE) auto

lemma owns_release:
  assumes "owns h0 p pk h" "h0 c \<noteq> None"
  shows "h c = h0 c \<and> owns (h0(c := None)) p pk (h(c := None))"
  using assms(1)
proof (cases rule: ownsE)
  case null
  then have "c \<noteq> p" using assms(2) by auto
  with null show ?thesis by (simp add: owns_def fun_upd_twist)
next
  case (bytes d q)
  then have "c \<noteq> p" "c \<noteq> q" using assms(2) by auto
  with bytes show ?thesis by (auto simp: owns_def fun_eq_iff)
qed

text \<open>Of two packets either can be freed first.\<close>

lemma owns_commute:
  assumes p: "owns h p pk h1" and q: "owns h1 q r h2"
  shows "\<exists>h'. owns h q r h' \<and> owns h' p pk h2"
  using q
proof (cases rule: ownsE)
  case null
  then show ?thesis
    using owns_frame [OF p null(2), of "struct_of r None"] owns_mono [OF p null(2)] by (auto simp: owns_def [of h q])
next
  case (bytes d b)
  let ?s = "struct_of r (Some b)"
  have b: "(h1(q \<mapsto> ?s)) b = None" "h b = None" "h q = None"
    using bytes owns_mono [OF p] by auto
  have "owns (h(q \<mapsto> ?s, b \<mapsto> Bytes_Block d)) p pk h2"
    using owns_frame [OF owns_frame [OF p bytes(2), of ?s] b(1), of "Bytes_Block d"] bytes(5)
    by (simp del: fun_upd_apply)
  moreover have "owns h q r (h(q \<mapsto> ?s, b \<mapsto> Bytes_Block d))"
    using bytes(1,3) b by (auto simp: owns_def)
  ultimately show ?thesis by blast
qed

lemma fault_bind_assoc: "fault_bind (fault_bind m f) k = fault_bind m (\<lambda>x. fault_bind (f x) k)"
  by (cases m) simp_all

lemma packet_from_bytes_header:
  "packet_from_bytes bytes len =
     (if len < HEADER_SIZE then Inr None
      else fault_bind (packet_header bytes) (\<lambda>pack.
        if len < HEADER_SIZE + unat (payload_len pack) then Inr None
        else if 0 < payload_len pack
        then fault_bind (mem_read bytes HEADER_SIZE (unat (payload_len pack))) (\<lambda>d.
             Inr (Some (pack\<lparr>payload := Some d\<rparr>)))
        else Inr (Some pack)))"
  by (simp add: packet_from_bytes_def packet_header_def fault_bind_assoc Let_def cong: if_cong)

lemma packet_header_payload: "packet_header bytes = Inr pack \<Longrightarrow> payload pack = None"
  by (auto simp: packet_header_def fault_bind_eq_Inr)

subsection \<open>What the operations allocate and free\<close>

text \<open>An operation that yields a new block against the computation of its contents: the same
  fault, or one block more.\<close>

definition yields :: "'a memory \<Rightarrow> 'c faulty \<Rightarrow> ('r \<times> 'a memory) faulty \<Rightarrow> ('c \<Rightarrow> nat \<Rightarrow> 'r) \<Rightarrow> ('c \<Rightarrow> 'a block) \<Rightarrow> bool" where
  "yields h spec m res mk \<longleftrightarrow>
     (case spec of Inl f \<Rightarrow> m = Inl f
      | Inr x \<Rightarrow> \<exists>a. h a = None \<and> m = Inr (res x a, h(a \<mapsto> mk x)))"

lemma yields_Inl [simp]: "yields h (Inl f) m res mk \<longleftrightarrow> m = Inl f"
  by (simp add: yields_def)

lemma yields_Inr [simp]:
  "yields h (Inr x) m res mk \<longleftrightarrow> (\<exists>a. h a = None \<and> m = Inr (res x a, h(a \<mapsto> mk x)))"
  by (simp add: yields_def)

lemma node_request_handler_output:
  assumes "node_request_handler d gn g gs bytes n = Inr x"
  shows "fst x \<noteq> None"
proof -
  have run: "fst y \<noteq> None" if "run_command c gn g pk = Inr y" for c pk y
    using that by (cases c) (auto simp: empty_command_def command_ping_def fault_bind_eq_Inr)
  have disp: "fst y \<noteq> None" if "dispatch d gn g pk = Inr y" for pk y
    using that run by (cases y) (auto simp: dispatch_def fault_bind_eq_Inr split: option.splits)
  show ?thesis
    using assms disp by (cases x) (auto simp: node_request_handler_def fault_bind_eq_Inr split: option.splits)
qed

locale block_allocator = allocator fresh for fresh :: "'a memory \<Rightarrow> nat"
begin

lemma malloc:
  assumes "finite (dom h)"
  obtains a where "h a = None" "mem_malloc fresh b h = Inr (a, h(a \<mapsto> b))"
  using that fresh_free [OF assms] by (simp add: mem_malloc_def)

lemma new_packet_owned:
  assumes "finite (dom h)" "payload pk = Some d"
  shows "\<exists>p q h'. mem_malloc fresh (struct_of pk None) h = Inr (p, h(p \<mapsto> struct_of pk None))
     \<and> mem_malloc fresh (Bytes_Block d) (h(p \<mapsto> struct_of pk None)) =
         Inr (q, h(p \<mapsto> struct_of pk None, q \<mapsto> Bytes_Block d))
     \<and> mem_store p (struct_of pk (Some q)) (h(p \<mapsto> struct_of pk None, q \<mapsto> Bytes_Block d)) = Inr ((), h')
     \<and> owns h p pk h'"
proof -
  let ?s = "struct_of pk None"
  obtain p where p: "h p = None" "mem_malloc fresh ?s h = Inr (p, h(p \<mapsto> ?s))" by (rule malloc [OF assms(1)])
  have "finite (dom (h(p \<mapsto> ?s)))" using assms(1) by simp
  then obtain q where q: "(h(p \<mapsto> ?s)) q = None"
    "mem_malloc fresh (Bytes_Block d) (h(p \<mapsto> ?s)) = Inr (q, h(p \<mapsto> ?s, q \<mapsto> Bytes_Block d))" by (rule malloc)
  then have "q \<noteq> p" "h q = None" by (auto split: if_splits)
  then show ?thesis
    using p q assms(2) by (intro exI [of _ p] exI [of _ q]) (auto simp: mem_store_def owns_def fun_upd_twist)
qed

lemma from_bytes_mem:
  assumes fin: "finite (dom h)"
  shows "case packet_from_bytes bytes len of
           Inl f \<Rightarrow> packet_from_bytes_mem fresh bytes len h = Inl f
         | Inr None \<Rightarrow> packet_from_bytes_mem fresh bytes len h = Inr (None, h)
         | Inr (Some pk) \<Rightarrow> \<exists>p h'. packet_from_bytes_mem fresh bytes len h = Inr (Some p, h') \<and> owns h p pk h'"
proof (cases "len < HEADER_SIZE")
  case True
  then show ?thesis by (simp add: packet_from_bytes_mem_def packet_from_bytes_header)
next
  case False
  note d = packet_from_bytes_mem_def packet_from_bytes_header
  show ?thesis
  proof (cases "packet_header bytes")
    case (Inl f)
    with False show ?thesis by (simp add: d mem_bind_Inl)
  next
    case (Inr pack)
    have pn: "payload pack = None" by (rule packet_header_payload [OF Inr])
    let ?s = "Packet_Struct \<lparr>mp_fields = pack, mp_payload = None\<rparr>"
    have id: "pack\<lparr>payload := None\<rparr> = pack" using pn by (rule payload_update_id)
    obtain p where p: "h p = None" "mem_malloc fresh ?s h = Inr (p, h(p \<mapsto> ?s))" by (rule malloc [OF fin])
    consider "len < HEADER_SIZE + unat (payload_len pack)" | "\<not> len < HEADER_SIZE + unat (payload_len pack)" "payload_len pack = 0"
      | "\<not> len < HEADER_SIZE + unat (payload_len pack)" "0 < payload_len pack" by (metis word_gt_0)
    then show ?thesis
    proof cases
      case 1
      with False Inr p show ?thesis by (simp add: d mem_bind_Inr mem_free_def mem_bind_def fun_upd_idem)
    next
      case 2
      have "owns h p pack (h(p \<mapsto> ?s))" unfolding owns_def id using p(1) pn by simp
      with 2 False Inr p show ?thesis by (simp add: d mem_bind_Inr)
    next
      case 3
      show ?thesis
      proof (cases "mem_read bytes HEADER_SIZE (unat (payload_len pack))")
        case (Inl f)
        with 3 False Inr p show ?thesis by (simp add: d mem_bind_Inr mem_bind_Inl)
      next
        case data: (Inr x)
        then show ?thesis
          using 3 False Inr new_packet_owned [OF fin, of "pack\<lparr>payload := Some x\<rparr>" x] id
          by (auto simp: d mem_bind_Inr mem_bind_def)
      qed
    qed
  qed
qed

lemma new_mem:
  assumes fin: "finite (dom h)"
  shows "case packet_new gn ver ty rid pl n of
           Inl f \<Rightarrow> packet_new_mem fresh gn ver ty rid pl n h = Inl f
         | Inr pk \<Rightarrow> \<exists>p h'. packet_new_mem fresh gn ver ty rid pl n h = Inr (p, h') \<and> owns h p pk h'"
proof (cases "packet_new gn ver ty rid pl n")
  case (Inl f)
  then show ?thesis by (simp add: packet_new_mem_def mem_bind_Inl)
next
  case (Inr pk)
  then obtain d where d: "payload pk = Some d"
    by (auto simp: packet_new_def fault_bind_eq_Inr split: option.splits)
  show ?thesis
    using new_packet_owned [OF fin d] Inr d by (auto simp: packet_new_mem_def mem_bind_Inr mem_bind_def)
qed

lemma to_bytes_mem:
  assumes "owns h0 p pk h" "finite (dom h)"
  shows "yields h (packet_to_bytes g pk) (packet_to_bytes_mem fresh g p h) (\<lambda>out a. (a, length out)) Bytes_Block"
proof (cases "packet_to_bytes g pk")
  case (Inl f)
  then show ?thesis using owns_packet [OF assms(1)] by (simp add: packet_to_bytes_mem_def mem_bind_def)
next
  case (Inr out)
  obtain a where "h a = None" "mem_malloc fresh (Bytes_Block out) h = Inr (a, h(a \<mapsto> Bytes_Block out))"
    by (rule malloc [OF assms(2)])
  with Inr show ?thesis
    using owns_packet [OF assms(1)] by (auto simp: packet_to_bytes_mem_def mem_bind_def)
qed

lemma to_string_mem:
  assumes "owns h0 p pk h" "finite (dom h)"
  shows "yields h (packet_to_string gs pk) (packet_to_string_mem fresh gs p h) (\<lambda>_ a. a) Text_Block"
proof (cases "packet_to_string gs pk")
  case (Inl f)
  then show ?thesis using owns_packet [OF assms(1)] by (simp add: packet_to_string_mem_def mem_bind_def)
next
  case (Inr str)
  then obtain sender t n where parts: "cvt_sha1_to_string gs (sender_node_hash pk) = Inr sender"
    "cvt_bytes_to_hex gs True (payload pk) (unat (payload_len pk)) = Inr (Some t, n)"
    by (auto simp: packet_to_string_def fault_bind_eq_Inr split: option.splits)
  obtain a where a: "h a = None" "mem_malloc fresh (Text_Block str) h = Inr (a, h(a \<mapsto> Text_Block str))"
    by (rule malloc [OF assms(2)])
  let ?h1 = "h(a \<mapsto> Text_Block str)"
  have "finite (dom ?h1)" using assms(2) by simp
  then obtain b where b: "?h1 b = None" "mem_malloc fresh (Text_Block sender) ?h1 = Inr (b, ?h1(b \<mapsto> Text_Block sender))"
    by (rule malloc)
  let ?h2 = "?h1(b \<mapsto> Text_Block sender)"
  have "finite (dom ?h2)" using assms(2) by simp
  then obtain c where c: "?h2 c = None" "mem_malloc fresh (Text_Block t) ?h2 = Inr (c, ?h2(c \<mapsto> Text_Block t))"
    by (rule malloc)
  have "b \<noteq> c" "(?h2(c \<mapsto> Text_Block t))(b := None, c := None) = ?h1"
    using b(1) c(1) by (auto simp: fun_eq_iff split: if_splits)
  then have "packet_to_string_mem fresh gs p h = Inr (a, ?h1)"
    using owns_packet [OF assms(1)] Inr parts a(2) b(2) c(2)
    by (simp add: packet_to_string_mem_def mem_bind_Inr mem_free_def del: fun_upd_apply)
      (simp add: mem_bind_def mem_free_def)
  with Inr a(1) show ?thesis by auto
qed

lemma reply_mem_yields:
  assumes fin: "finite (dom h)"
  shows "yields h (fault_bind (packet_new gn 1 ty rid pl n) (packet_to_bytes g)) (reply_mem fresh g gn ty rid pl n h)
           (\<lambda>out a. (a, length out)) Bytes_Block"
proof (cases "packet_new gn 1 ty rid pl n")
  case (Inl f)
  then show ?thesis using new_mem [OF fin, of gn 1 ty rid pl n] by (simp add: reply_mem_def mem_bind_Inl)
next
  case (Inr pk)
  then obtain p h1 where p: "packet_new_mem fresh gn 1 ty rid pl n h = Inr (p, h1)" "owns h p pk h1"
    using new_mem [OF fin, of gn 1 ty rid pl n] by auto
  note tb = to_bytes_mem [OF p(2) owns_finite [OF p(2) fin], of g]
  show ?thesis
  proof (cases "packet_to_bytes g pk")
    case f: (Inl f)
    with tb Inr p(1) show ?thesis by (simp add: reply_mem_def mem_bind_Inr mem_bind_Inl)
  next
    case out: (Inr out)
    then obtain a where a: "h1 a = None" "packet_to_bytes_mem fresh g p h1 = Inr ((a, length out), h1(a \<mapsto> Bytes_Block out))"
      using tb by auto
    have "reply_mem fresh g gn ty rid pl n h = Inr ((a, length out), h(a \<mapsto> Bytes_Block out))"
      using p(1) a(2) owns_destroy [OF owns_frame [OF p(2) a(1)]] by (simp add: reply_mem_def mem_bind_def)
    with Inr out owns_mono [OF p(2) a(1)] show ?thesis by auto
  qed
qed

lemma dispatch_mem_yields:
  assumes own: "owns h0 p pk h" and fin: "finite (dom h)"
  shows "yields h (dispatch d gn g pk) (dispatch_mem fresh d gn g p h) (\<lambda>(_, len) a. (a, len))
           (\<lambda>(out, _). Bytes_Block (the out))"
proof -
  obtain q where s: "struct_at p h = Inr (\<lparr>mp_fields = pk\<lparr>payload := None\<rparr>, mp_payload = q\<rparr>, h)"
    by (rule owns_struct [OF own])
  have run: "yields h (run_command c gn g pk) (run_command_mem c fresh gn g p h) (\<lambda>(_, len) a. (a, len))
      (\<lambda>(out, _). Bytes_Block (the out))" for c
  proof (cases c)
    case Empty_Command
    then show ?thesis
      using reply_mem_yields [OF fin, of gn CMD_ERROR 0 None 0 g]
      by (cases "packet_new gn 1 CMD_ERROR 0 None 0"; cases "fault_bind (packet_new gn 1 CMD_ERROR 0 None 0) (packet_to_bytes g)")
        (auto simp: empty_command_def fault_bind_eq_Inr)
  next
    case Command_Ping
    then show ?thesis
      using reply_mem_yields [OF fin, of gn CMD_PING "req_id pk" "Some (pong @ [0])" "word_of_nat (length (cstr (pong @ [0])))" g] s
      by (cases "fault_bind (packet_new gn 1 CMD_PING (req_id pk) (Some (pong @ [0])) (word_of_nat (length (cstr (pong @ [0]))))) (packet_to_bytes g)")
        (auto simp: command_ping_def fault_bind_assoc [symmetric] mem_bind_Inr)
  qed
  show ?thesis
  proof (cases "mem_read d (unat (ptype pk)) 1")
    case (Inl f)
    then show ?thesis using s by (simp add: dispatch_def dispatch_mem_def mem_bind_Inr mem_bind_Inl)
  next
    case (Inr slot)
    then show ?thesis
      using s run by (cases "hd slot") (simp_all add: dispatch_def dispatch_mem_def mem_bind_Inr)
  qed
qed

text \<open>The handler behind a successful parse.\<close>

lemma serve_packet_yields:
  assumes p: "owns h p pk h1" and fin: "finite (dom h1)"
  shows "yields h (fault_bind (packet_to_string gs pk) (\<lambda>_. dispatch d gn g pk))
           (mem_bind (packet_to_string_mem fresh gs p) (\<lambda>packet_str.
            mem_bind (dispatch_mem fresh d gn g p) (\<lambda>(output, len).
            mem_bind (mem_free (Some packet_str)) (\<lambda>_.
            mem_bind (packet_destroy_mem (Some p)) (\<lambda>_. mem_return (Some output, len))))) h1)
           (\<lambda>(_, len) a. (Some a, len)) (\<lambda>(out, _). Bytes_Block (the out))"
proof (cases "packet_to_string gs pk")
  case (Inl f)
  then show ?thesis using to_string_mem [OF assms, of gs] by (simp add: mem_bind_Inl)
next
  case t: (Inr t)
  then obtain a where a: "h1 a = None" "packet_to_string_mem fresh gs p h1 = Inr (a, h1(a \<mapsto> Text_Block t))"
    using to_string_mem [OF assms, of gs] by auto
  let ?h2 = "h1(a \<mapsto> Text_Block t)"
  have "finite (dom ?h2)" using fin by simp
  note disp = dispatch_mem_yields [OF owns_frame [OF p a(1)] this, of d gn g]
  show ?thesis
  proof (cases "dispatch d gn g pk")
    case (Inl f)
    with disp t a(2) show ?thesis by (simp add: mem_bind_Inr mem_bind_Inl)
  next
    case (Inr x)
    obtain out len where x: "x = (out, len)" by (cases x)
    let ?b = "Bytes_Block (the out)"
    obtain c where c: "?h2 c = None" "dispatch_mem fresh d gn g p ?h2 = Inr ((c, len), ?h2(c \<mapsto> ?b))"
      using disp Inr x by auto
    have ne: "c \<noteq> a" "h1 c = None" using c(1) by (auto split: if_splits)
    have "(?h2(c \<mapsto> ?b))(a := None) = h1(c \<mapsto> ?b)" using a(1) ne by (auto simp: fun_eq_iff)
    then have "mem_free (Some a) (?h2(c \<mapsto> ?b)) = Inr ((), h1(c \<mapsto> ?b))" using ne by (simp add: mem_free_def)
    moreover have "packet_destroy_mem (Some p) (h1(c \<mapsto> ?b)) = Inr ((), h(c \<mapsto> ?b))"
      by (rule owns_destroy [OF owns_frame [OF p ne(2)]])
    ultimately show ?thesis
      using t x Inr a(2) c(2) owns_mono [OF p ne(2)] by (auto simp: mem_bind_def)
  qed
qed

lemma handler_mem_yields:
  assumes fin: "finite (dom h)" and dat: "h dat = Some (Bytes_Block bytes)"
  shows "yields h (node_request_handler d gn g gs bytes n) (node_request_handler_mem fresh d gn g gs dat n h)
           (\<lambda>(_, len) a. (Some a, len)) (\<lambda>(out, _). Bytes_Block (the out))"
proof -
  note defs = node_request_handler_def node_request_handler_mem_def
  have b: "bytes_at (Some dat) h = Inr (Some bytes, h)" using dat by (simp add: mem_defs)
  note parse = from_bytes_mem [OF fin, of bytes n]
  show ?thesis
  proof (cases "packet_from_bytes bytes n")
    case (Inl f)
    with parse b show ?thesis by (simp add: defs mem_bind_Inr mem_bind_Inl)
  next
    case (Inr r)
    show ?thesis
    proof (cases r)
      case None
      then show ?thesis
        using Inr parse b reply_mem_yields [OF fin, of gn CMD_ERROR 0 None 0 g]
        by (cases "fault_bind (packet_new gn 1 CMD_ERROR 0 None 0) (packet_to_bytes g)")
          (auto simp: defs mem_bind_Inr mem_bind_Inl packet_destroy_mem_def mem_bind_def fault_bind_assoc [symmetric])
    next
      case (Some pk)
      then obtain p h1 where p: "packet_from_bytes_mem fresh bytes n h = Inr (Some p, h1)" "owns h p pk h1"
        using Inr parse by auto
      then show ?thesis
        using Inr Some b serve_packet_yields [OF p(2) owns_finite [OF p(2) fin], of gs d gn g]
        by (simp add: defs mem_bind_Inr)
    qed
  qed
qed

lemma receive_mem:
  assumes fin: "finite (dom h)" and rq: "udp_receive addr buffer n = Inr (Some rq)"
  obtains r d where "r \<noteq> d" "h r = None" "h d = None"
    "udp_receive_mem fresh addr buffer n h =
       Inr (Some r, h(r \<mapsto> Request_Struct \<lparr>mr_addr = req_addr rq, mr_data = d, mr_length = req_length rq\<rparr>,
                      d \<mapsto> Bytes_Block (req_data rq)))"
proof -
  have n: "0 < n" and rq': "mem_read buffer 0 (nat n) = Inr (req_data rq)" "req_addr rq = addr" "req_length rq = n"
    using rq by (auto simp: udp_receive_def fault_bind_eq_Inr split: if_splits)
  let ?s = "Request_Struct \<lparr>mr_addr = addr, mr_data = 0, mr_length = n\<rparr>"
  obtain r where r: "h r = None" "mem_malloc fresh ?s h = Inr (r, h(r \<mapsto> ?s))" by (rule malloc [OF fin])
  have "finite (dom (h(r \<mapsto> ?s)))" using fin by simp
  then obtain d where d: "(h(r \<mapsto> ?s)) d = None"
    "mem_malloc fresh (Bytes_Block (req_data rq)) (h(r \<mapsto> ?s)) = Inr (d, h(r \<mapsto> ?s, d \<mapsto> Bytes_Block (req_data rq)))"
    by (rule malloc)
  then have ne: "r \<noteq> d" "h d = None" by (auto split: if_splits)
  show ?thesis
    by (rule that [OF ne(1) r(1) ne(2)])
      (use n rq' r d ne in \<open>simp add: udp_receive_mem_def mem_bind_def mem_store_def fun_upd_twist\<close>)
qed

lemma worker_mem:
  assumes fin: "finite (dom h)" and r: "h r = Some (Request_Struct \<lparr>mr_addr = a, mr_data = dat, mr_length = n\<rparr>)"
    and dat: "h dat = Some (Bytes_Block bytes)"
  shows "worker_serve_mem (Some (node_request_handler_mem fresh d gn g gs)) (Some r) h =
           (case worker_serve (Some (node_request_handler d gn g gs)) (Some \<lparr>req_addr = a, req_data = bytes, req_length = n\<rparr>) of
              Inl f \<Rightarrow> Inl f | Inr sent \<Rightarrow> Inr (sent, h(dat := None, r := None)))"
proof -
  note y = handler_mem_yields [OF fin dat, of d gn g gs "nat n"]
  have rq: "request_at r h = Inr (\<lparr>mr_addr = a, mr_data = dat, mr_length = n\<rparr>, h)" using r by (simp add: mem_defs)
  have ne: "r \<noteq> dat" using r dat by auto
  show ?thesis
  proof (cases "node_request_handler d gn g gs bytes (nat n)")
    case (Inl f)
    with y rq show ?thesis by (simp add: worker_serve_mem_def worker_serve_def mem_bind_def)
  next
    case (Inr x)
    obtain out len where x: "x = (Some out, len)" using node_request_handler_output [OF Inr] by (cases x) auto
    with Inr y obtain w where w: "h w = None"
      "node_request_handler_mem fresh d gn g gs dat (nat n) h = Inr ((Some w, len), h(w \<mapsto> Bytes_Block out))"
      by auto
    have "w \<noteq> r" "w \<noteq> dat" using w(1) r dat by auto
    then have "h(w \<mapsto> Bytes_Block out, w := None) = h" "(h(w \<mapsto> Bytes_Block out)) w = Some (Bytes_Block out)"
      using w(1) by (simp_all add: fun_upd_idem)
    then show ?thesis
      using Inr x rq w(2) r dat ne
      by (cases "ptr_read (Some out) len")
        (simp_all add: worker_serve_mem_def worker_serve_def mem_bind_def mem_free_def bytes_at_def block_at_def)
  qed
qed

lemma send_packet_mem:
  assumes own: "owns h0 p pk h" and fin: "finite (dom h)" and wf: "packet_wf pk" and c: "h c = Some (Client_Struct k)"
  shows "case udp_client_send_packet g (Client k) (Some ip) port net (Some pk) True of
           Inl f \<Rightarrow> udp_client_send_packet_mem fresh g c net p h = Inl f
         | Inr (_, None, _) \<Rightarrow> udp_client_send_packet_mem fresh g c net p h = Inr (None, h)
         | Inr (_, Some r, _) \<Rightarrow> \<exists>q h'. udp_client_send_packet_mem fresh g c net p h = Inr (Some q, h') \<and> owns h q r h'"
proof -
  have out: "packet_to_bytes g pk = Inr (wire pk)" "wire pk \<noteq> []"
    using packet_to_bytes_wire [OF wf] by (simp_all add: wire_def)
  obtain a where a: "h a = None" "packet_to_bytes_mem fresh g p h = Inr ((a, length (wire pk)), h(a \<mapsto> Bytes_Block (wire pk)))"
    using to_bytes_mem [OF own fin, of g] out by auto
  let ?h1 = "h(a \<mapsto> Bytes_Block (wire pk))"
  have "c \<noteq> a" using a(1) c by auto
  then have f: "mem_free (Some a) ?h1 = Inr ((), h)" "client_at c ?h1 = Inr (k, ?h1)"
    using a(1) c by (simp_all add: mem_free_def mem_defs fun_upd_idem)
  note parse = from_bytes_mem [OF fin, of "recv_buffer net" "nat (recvfrom_result net)"]
  show ?thesis
    using parse f a(2) out
    by (cases "packet_from_bytes (recv_buffer net) (nat (recvfrom_result net))")
      (auto simp: udp_client_send_packet_def udp_client_send_packet_mem_def mem_bind_Inr Let_def split: option.splits)
qed

lemma handshake_mem:
  assumes fin: "finite (dom h)" and hash: "length hash = 20" and ready: "seed_ready env"
  shows "handshake_one_mem fresh g (Some hash) env h =
           (case handshake_one g (Some hash) seed env of Inl f \<Rightarrow> Inl f | Inr online \<Rightarrow> Inr (online, h))"
proof -
  note req = ping_request_new [OF hash]
  let ?k = "\<lparr>client_fd = seed_socket env, timeout_ms = 1000\<rparr>" and ?pk = "ping_request hash"
  have seed: "seed_mem env" "\<not> seed_socket env < 0" using ready by (simp_all add: seed_ready_def)
  obtain p h1 where p: "packet_new_mem fresh (Some hash) 1 CMD_PING 1 None 0 h = Inr (p, h1)" "owns h p ?pk h1"
    using new_mem [OF fin, of "Some hash" 1 CMD_PING 1 None 0] req by auto
  obtain c where c: "h1 c = None" "mem_malloc fresh (Client_Struct ?k) h1 = Inr (c, h1(c \<mapsto> Client_Struct ?k))"
    by (rule malloc [OF owns_finite [OF p(2) fin]])
  let ?h2 = "h1(c \<mapsto> Client_Struct ?k)" and ?h0 = "h(c \<mapsto> Client_Struct ?k)"
  have own: "owns ?h0 p ?pk ?h2" by (rule owns_frame [OF p(2) c(1)])
  have fin2: "finite (dom ?h2)" using owns_finite [OF p(2) fin] by simp
  have new: "udp_client_new_mem fresh (seed_mem env) (seed_socket env) 1000 h1 = Inr (Some c, ?h2)"
    using seed c(2) by (simp add: udp_client_new_mem_def mem_bind_Inr)
  note send = send_packet_mem [OF own fin2 conjunct2 [OF req], where c = c and k = ?k and g = g and ip = "addr_host seed"
      and port = "addr_port seed" and net = "seed_net env"]
  note defs = handshake_one_def handshake_one_mem_def udp_client_new_def udp_client_destroy_def
  let ?S = "udp_client_send_packet g (Client ?k) (Some (addr_host seed)) (addr_port seed) (seed_net env) (Some ?pk) True"
  have finish: "udp_client_destroy_mem (Some c) k = Inr ((), k(c := None))" if "k c = Some (Client_Struct ?k)" for k
    using that by (simp add: udp_client_destroy_mem_def mem_defs)
  show ?thesis
  proof (cases ?S)
    case (Inl f)
    with send p(1) new req seed show ?thesis by (simp add: defs mem_bind_Inr mem_bind_Inl)
  next
    case (Inr x)
    obtain code res sent where x: "x = (code, res, sent)" by (cases x)
    show ?thesis
    proof (cases res)
      case None
      with Inr x send p(1) new req seed finish [of ?h2] owns_destroy [OF p(2)] c(1) show ?thesis
        by (simp add: defs mem_bind_Inr mem_bind_def packet_destroy_mem_def [of None] fun_upd_idem)
    next
      case (Some r)
      then obtain q h3 where q: "udp_client_send_packet_mem fresh g c (seed_net env) p ?h2 = Inr (Some q, h3)" "owns ?h2 q r h3"
        using send Inr x by auto
      have rel: "h3 c = Some (Client_Struct ?k)" "owns h1 q r (h3(c := None))"
        using owns_release [OF q(2), of c] c(1) by (simp_all add: fun_upd_idem)
      obtain h' where h': "owns h q r h'" "owns h' p ?pk (h3(c := None))"
        using owns_commute [OF p(2) rel(2)] by blast
      show ?thesis
        using Some Inr x p(1) new req seed q(1) owns_packet [OF q(2)] finish [of h3] rel(1) owns_destroy [OF h'(1)]
          owns_destroy [OF h'(2)]
        by (cases "case payload r of None \<Rightarrow> Inl Null_Deref | Some d \<Rightarrow> fault_bind (mem_read d 0 4) (\<lambda>d4. Inr (d4 = pong))")
          (simp_all add: defs mem_bind_def)
    qed
  qed
qed

text \<open>Without a socket the client is freed, and the pointer to it used.\<close>

lemma handshake_no_socket:
  assumes fin: "finite (dom h)" and hash: "length hash = 20" and seed: "seed_mem env" "seed_socket env < 0"
  shows "handshake_one_mem fresh g (Some hash) env h = Inl Dangling"
proof -
  note req = ping_request_new [OF hash]
  let ?k = "\<lparr>client_fd = seed_socket env, timeout_ms = 1000\<rparr>" and ?pk = "ping_request hash"
  obtain p h1 where p: "packet_new_mem fresh (Some hash) 1 CMD_PING 1 None 0 h = Inr (p, h1)" "owns h p ?pk h1"
    using new_mem [OF fin, of "Some hash" 1 CMD_PING 1 None 0] req by auto
  have fin1: "finite (dom h1)" by (rule owns_finite [OF p(2) fin])
  obtain c where c: "h1 c = None" "mem_malloc fresh (Client_Struct ?k) h1 = Inr (c, h1(c \<mapsto> Client_Struct ?k))"
    by (rule malloc [OF fin1])
  have new: "udp_client_new_mem fresh (seed_mem env) (seed_socket env) 1000 h1 = Inr (Some c, h1)"
    using seed c by (simp add: udp_client_new_mem_def mem_bind_Inr mem_free_def mem_bind_def fun_upd_idem)
  have out: "packet_to_bytes g ?pk = Inr (wire ?pk)" "wire ?pk \<noteq> []"
    using packet_to_bytes_wire [OF conjunct2 [OF req]] by (simp_all add: wire_def)
  obtain a where a: "h1 a = None" "packet_to_bytes_mem fresh g p h1 = Inr ((a, length (wire ?pk)), h1(a \<mapsto> Bytes_Block (wire ?pk)))"
    using to_bytes_mem [OF p(2) fin1, of g] out by auto
  have freed: "client_at c h1 = Inl Dangling" "client_at c (h1(a \<mapsto> Bytes_Block (wire ?pk))) = Inl Dangling"
    using c(1) by (simp_all add: mem_defs)
  have give: "mem_free (Some a) (h1(a \<mapsto> Bytes_Block (wire ?pk))) = Inr ((), h1)"
    using a(1) by (simp add: mem_free_def fun_upd_idem)
  have "udp_client_send_packet_mem fresh g c (seed_net env) p h1 = (if pton_result (seed_net env) \<le> 0 then Inr (None, h1) else Inl Dangling)"
    using a(2) out(2) freed(2) give by (simp add: udp_client_send_packet_mem_def mem_bind_Inr mem_bind_Inl)
  then show ?thesis
    using p(1) new freed(1) by (simp add: handshake_one_mem_def mem_bind_def udp_client_destroy_mem_def)
qed

end

interpretation bump_block: block_allocator next_addr
  by (rule block_allocator.intro) (rule bump.allocator_axioms)

subsection \<open>Properties\<close>

text \<open>C5. Serving a datagram leaks nothing and frees nothing twice. The receiving loop adds two
  blocks to the memory, the request and its data. A worker that later serves it, in any memory in
  which these two are still there, sends what the request handler answers, frees the two blocks
  and leaves everything else as it was: the packet, its payload, the debug strings, the answer and
  its packet are all given back, on every path through the handler; when the handler faults, it
  is a fault of its computation and never one of a freed block.\<close>

theorem request_memory:
  assumes alloc: "\<And>h :: 'a memory. finite (dom h) \<Longrightarrow> h (fresh h) = None"
    and "finite (dom h)" and "udp_receive addr buffer n = Inr (Some rq)"
  shows "\<exists>r d. r \<noteq> d \<and> h r = None \<and> h d = None \<and>
           udp_receive_mem fresh addr buffer n h =
             Inr (Some r, h(r \<mapsto> Request_Struct \<lparr>mr_addr = req_addr rq, mr_data = d, mr_length = req_length rq\<rparr>,
                            d \<mapsto> Bytes_Block (req_data rq))) \<and>
           (\<forall>h2. finite (dom h2) \<and> h2 d = Some (Bytes_Block (req_data rq)) \<and>
              h2 r = Some (Request_Struct \<lparr>mr_addr = req_addr rq, mr_data = d, mr_length = req_length rq\<rparr>) \<longrightarrow>
              worker_serve_mem (Some (node_request_handler_mem fresh cmds gn g gs)) (Some r) h2 =
                (case worker_serve (Some (node_request_handler cmds gn g gs)) (Some rq) of
                   Inl f \<Rightarrow> Inl f | Inr sent \<Rightarrow> Inr (sent, h2(d := None, r := None))))"
proof -
  have A: "block_allocator fresh" by (intro block_allocator.intro allocator.intro alloc)
  obtain r d where rd: "r \<noteq> d" "h r = None" "h d = None"
    "udp_receive_mem fresh addr buffer n h =
       Inr (Some r, h(r \<mapsto> Request_Struct \<lparr>mr_addr = req_addr rq, mr_data = d, mr_length = req_length rq\<rparr>,
                      d \<mapsto> Bytes_Block (req_data rq)))"
    by (rule block_allocator.receive_mem [OF A assms(2,3)])
  have rq: "rq = \<lparr>req_addr = req_addr rq, req_data = req_data rq, req_length = req_length rq\<rparr>" by simp
  show ?thesis
    using rd block_allocator.worker_mem [OF A, where bytes = "req_data rq" and a = "req_addr rq" and n = "req_length rq"
        and d = cmds and gn = gn and g = g and gs = gs and r = r and dat = d] rq by (intro exI [of _ r] exI [of _ d]) auto
qed

theorem request_memory_witness:
  "\<exists>r h. udp_receive_mem next_addr (7::nat) [80, 81] 2 Map.empty = Inr (Some r, h)
     \<and> worker_serve_mem (Some (node_request_handler_mem next_addr initial_dispatcher (Some (replicate 20 1)) (\<lambda>_. 0) (\<lambda>_. NUL)))
         (Some r) h = Inr ([(7, [])], Map.empty)"
proof -
  let ?rq = "\<lparr>req_addr = 7::nat, req_data = [80, 81], req_length = 2\<rparr>"
  let ?H = "node_request_handler initial_dispatcher (Some (replicate 20 1)) (\<lambda>_. 0) (\<lambda>_. NUL)"
  have rq: "udp_receive 7 [80, 81] 2 = Inr (Some ?rq)" by (simp add: udp_receive_def mem_read_def)
  have "worker_serve (Some ?H) (Some ?rq) = Inr [(7, [])]"
    using error_packet_new [of "replicate 20 1"] packet_to_bytes_wire [OF error_packet_wf [of "replicate 20 1"]]
    by (simp add: worker_serve_def node_request_handler_def packet_from_bytes_def ptr_read_def)
  moreover have "h (next_addr h) = None" if "finite (dom h)" for h :: "nat memory" by (rule bump.fresh_free [OF that])
  ultimately obtain r d where rd: "r \<noteq> d" and
    rec: "udp_receive_mem next_addr (7::nat) [80, 81] 2 Map.empty =
       Inr (Some r, [r \<mapsto> Request_Struct \<lparr>mr_addr = 7, mr_data = d, mr_length = 2\<rparr>, d \<mapsto> Bytes_Block [80, 81]])" and
    srv: "\<And>h2 :: nat memory. finite (dom h2) \<Longrightarrow> h2 d = Some (Bytes_Block [80, 81]) \<Longrightarrow>
       h2 r = Some (Request_Struct \<lparr>mr_addr = 7, mr_data = d, mr_length = 2\<rparr>) \<Longrightarrow>
       worker_serve_mem (Some (node_request_handler_mem next_addr initial_dispatcher (Some (replicate 20 1)) (\<lambda>_. 0) (\<lambda>_. NUL)))
         (Some r) h2 = Inr ([(7, [])], h2(d := None, r := None))"
    using request_memory [where fresh = next_addr and h = Map.empty and cmds = initial_dispatcher and rq = ?rq
        and gn = "Some (replicate 20 1)" and g = "\<lambda>_. 0" and gs = "\<lambda>_. NUL" and addr = 7 and buffer = "[80, 81]" and n = 2] rq
    by auto
  let ?h = "[r \<mapsto> Request_Struct \<lparr>mr_addr = 7::nat, mr_data = d, mr_length = 2\<rparr>, d \<mapsto> Bytes_Block [80, 81]]"
  have e: "?h(d := None, r := None) = Map.empty" by (rule ext) auto
  have "worker_serve_mem (Some (node_request_handler_mem next_addr initial_dispatcher (Some (replicate 20 1)) (\<lambda>_. 0) (\<lambda>_. NUL)))
      (Some r) ?h = Inr ([(7, [])], ?h(d := None, r := None))"
    by (rule srv) (simp_all add: rd)
  with rec show ?thesis unfolding e by blast
qed

text \<open>C21. Asking a seed leaks nothing and frees nothing twice. When a client can be made (its allocation and
  \<open>socket\<close> succeed, with a descriptor that fits an \<open>fd_set\<close>), one round of the handshake gives the result
  or the fault that the exchange determines, and when it gives a result it leaves the memory exactly as it
  found it; the request, its bytes, the client, the response and its payload are freed on every path
  to a result. When \<open>socket\<close> fails it uses the freed client.\<close>

theorem handshake_memory:
  assumes alloc: "\<And>h :: 'a memory. finite (dom h) \<Longrightarrow> h (fresh h) = None"
    and "finite (dom h)" and "length hash = 20"
  shows "(seed_ready env \<longrightarrow> handshake_one_mem fresh g (Some hash) env h =
            (case handshake_one g (Some hash) seed env of Inl f \<Rightarrow> Inl f | Inr online \<Rightarrow> Inr (online, h)))
       \<and> (seed_mem env \<and> seed_socket env < 0 \<longrightarrow> handshake_one_mem fresh g (Some hash) env h = Inl Dangling)"
proof -
  have A: "block_allocator fresh" by (intro block_allocator.intro allocator.intro alloc)
  show ?thesis
    using block_allocator.handshake_mem [OF A assms(2,3)] block_allocator.handshake_no_socket [OF A assms(2,3)] by blast
qed

theorem handshake_memory_witness:
  "handshake_one_mem next_addr (\<lambda>_. 0) (Some (replicate 20 1)) pong_env (Map.empty :: nat memory) = Inr (True, Map.empty)"
proof -
  have "length (replicate 20 (1::byte)) = 20" by simp
  then show ?thesis
    using handshake_memory [where fresh = next_addr and h = "Map.empty :: nat memory" and hash = "replicate 20 1"
        and env = pong_env and g = "\<lambda>_. 0"] bump.fresh_free pong_env_online handshake_one_online [of "replicate 20 1" pong_env "\<lambda>_. 0"]
    by auto
qed

end
