(* ===== verification/Ini_Options.thy ===== *)
theory Ini_Options
  imports Ini
begin

text \<open>
  \<open>src/src/helpers/ini.c\<close> under all the options of \<open>ini.h\<close>, not only those the build sets: the
  preprocessor's choices are tests on a record of options. That takes in what \<open>Ini\<close> leaves
  out, above all the line buffer on the heap that grows with \<open>realloc\<close>.

  The buffer is known by the size of its block, by \<open>max_line\<close>, and by whether the block is
  allocated; a read that may write behind the block, or into a freed one, is a fault. \<open>alloc k\<close>
  says whether call number \<open>k\<close> of \<open>ini_malloc\<close> and \<open>ini_realloc\<close> succeeds.

  The lemmas show that the options of \<open>ini.h\<close> give the parser of \<open>Ini\<close>, that a growing buffer reads what
  a fixed buffer of the largest size reads, and that the buffer is neither overrun nor leaked.
\<close>

subsection \<open>The options\<close>

record ini_options =
  INI_HANDLER_LINENO :: bool
  INI_ALLOW_MULTILINE :: bool
  INI_ALLOW_BOM :: bool
  INI_START_COMMENT_PREFIXES :: string
  INI_ALLOW_INLINE_COMMENTS :: bool
  INI_INLINE_COMMENT_PREFIXES :: string
  INI_USE_STACK :: bool
  INI_MAX_LINE :: nat
  INI_ALLOW_REALLOC :: bool
  INI_INITIAL_ALLOC :: nat
  INI_STOP_ON_FIRST_ERROR :: bool
  INI_CALL_HANDLER_ON_NEW_SECTION :: bool
  INI_ALLOW_NO_VALUE :: bool

definition ini_defaults :: ini_options where
  "ini_defaults =
     \<lparr>INI_HANDLER_LINENO = False, INI_ALLOW_MULTILINE = True, INI_ALLOW_BOM = True,
      INI_START_COMMENT_PREFIXES = '';#'', INI_ALLOW_INLINE_COMMENTS = True,
      INI_INLINE_COMMENT_PREFIXES = '';'', INI_USE_STACK = True, INI_MAX_LINE = 200,
      INI_ALLOW_REALLOC = False, INI_INITIAL_ALLOC = 200, INI_STOP_ON_FIRST_ERROR = False,
      INI_CALL_HANDLER_ON_NEW_SECTION = False, INI_ALLOW_NO_VALUE = False\<rparr>"

subsection \<open>One line\<close>

fun opt_find_loop :: "ini_options \<Rightarrow> string \<Rightarrow> bool \<Rightarrow> string \<Rightarrow> string \<times> string" where
  "opt_find_loop op chars was_space [] = ([], [])"
| "opt_find_loop op chars was_space (c # s) =
     (if c \<in> set chars \<or> (INI_ALLOW_INLINE_COMMENTS op \<and> was_space \<and> c \<in> set (INI_INLINE_COMMENT_PREFIXES op))
      then ([], c # s)
      else (let (before, rest) = opt_find_loop op chars (isspace c) s in (c # before, rest)))"

definition opt_find :: "ini_options \<Rightarrow> string \<Rightarrow> string \<Rightarrow> string \<times> string" where
  "opt_find op s chars = opt_find_loop op chars False s"

text \<open>A handler gets the null pointer for a name or a value that is not there, and the line number
  when the option asks for it.\<close>

type_synonym 'u opt_handler = "'u \<Rightarrow> string \<Rightarrow> string option \<Rightarrow> string option \<Rightarrow> nat option \<Rightarrow> bool \<times> 'u"

definition opt_call ::
    "ini_options \<Rightarrow> 'u opt_handler \<Rightarrow> 'u ini_state \<Rightarrow> string option \<Rightarrow> string option \<Rightarrow> 'u ini_state" where
  "opt_call op handler st name value =
     (let (ok, u) = handler (user st) (ini_section st) name value
                      (if INI_HANDLER_LINENO op then Some (lineno st) else None)
      in if ok then st\<lparr>user := u\<rparr> else ini_fail (st\<lparr>user := u\<rparr>))"

text \<open>Without inline comments \<open>end\<close> is left of \<open>value\<close>, and \<open>ini_rstrip (value, end)\<close> does nothing.\<close>

definition opt_value :: "ini_options \<Rightarrow> string \<Rightarrow> string" where
  "opt_value op s =
     (if INI_ALLOW_INLINE_COMMENTS op then ini_rstrip (ini_lskip (fst (opt_find op s []))) else ini_lskip s)"

definition opt_section :: "ini_options \<Rightarrow> 'u opt_handler \<Rightarrow> string \<Rightarrow> 'u ini_state \<Rightarrow> 'u ini_state" where
  "opt_section op handler start st =
     (let (sec, rest) = opt_find op (tl start) '']''
      in if rest \<noteq> [] \<and> hd rest = CHR '']''
         then let st1 = st\<lparr>ini_section := ini_strncpy0 sec 50\<rparr>;
                  st2 = (if INI_ALLOW_MULTILINE op then st1\<lparr>prev_name := []\<rparr> else st1)
              in if INI_CALL_HANDLER_ON_NEW_SECTION op then opt_call op handler st2 None None else st2
         else ini_fail st)"

definition opt_pair :: "ini_options \<Rightarrow> 'u opt_handler \<Rightarrow> string \<Rightarrow> 'u ini_state \<Rightarrow> 'u ini_state" where
  "opt_pair op handler start st =
     (let (before, rest) = opt_find op start ''=:''; name = ini_rstrip before
      in if rest \<noteq> [] \<and> hd rest \<in> set ''=:''
         then let st1 = (if INI_ALLOW_MULTILINE op then st\<lparr>prev_name := ini_strncpy0 name 50\<rparr> else st)
              in opt_call op handler st1 (Some name) (Some (opt_value op (tl rest)))
         else if INI_ALLOW_NO_VALUE op then opt_call op handler st (Some name) None
         else ini_fail st)"

definition opt_process_line :: "ini_options \<Rightarrow> 'u opt_handler \<Rightarrow> string \<Rightarrow> 'u ini_state \<Rightarrow> 'u ini_state" where
  "opt_process_line op handler line st =
     (let start0 = (if INI_ALLOW_BOM op \<and> lineno st = 1 \<and> take 3 line = ini_bom then drop 3 line else line);
          start1 = ini_lskip start0;
          start = ini_rstrip start1
      in if start = [] \<or> hd start \<in> set (INI_START_COMMENT_PREFIXES op) then st
         else if INI_ALLOW_MULTILINE op \<and> prev_name st \<noteq> [] \<and> length start1 < length line
         then opt_call op handler st (Some (prev_name st))
                (Some (if INI_ALLOW_INLINE_COMMENTS op then ini_rstrip (fst (opt_find op start [])) else start))
         else if hd start = CHR ''['' then opt_section op handler start st
         else opt_pair op handler start st)"

subsection \<open>The line buffer\<close>

record ini_buf =
  line_size :: nat
  max_line :: nat
  line_live :: bool
  next_alloc :: nat

definition ini_free :: "ini_buf \<Rightarrow> ini_buf faulty" where
  "ini_free b = (if line_live b then Inr (b\<lparr>line_live := False\<rparr>) else Inl Dangling)"

text \<open>\<open>reader (line + offset, (int) num, stream)\<close>: the reader may write \<open>num\<close> bytes after the conversion of
  \<open>num\<close> to \<open>int\<close>. For the readers a negative number is like 0: they return the null pointer.\<close>

definition read_line :: "ini_buf \<Rightarrow> 's ini_reader \<Rightarrow> nat \<Rightarrow> nat \<Rightarrow> 's \<Rightarrow> (string \<times> 's) option faulty" where
  "read_line b reader offset num stream =
     (let n = nat (cast_int num)
      in if \<not> line_live b then Inl Dangling
         else if line_size b < offset + n then Inl Out_Of_Bounds
         else reader n stream)"

text \<open>The test \<open>offset == max_line - 1 && line[offset - 1] != '\n'\<close>.\<close>

definition line_full :: "ini_buf \<Rightarrow> string \<Rightarrow> bool faulty" where
  "line_full b line =
     (if Suc (length line) = max_line b
      then if line = [] then Inl Out_Of_Bounds else Inr (last line \<noteq> LF)
      else Inr False)"

text \<open>The loop that enlarges the buffer: the line and the stream, or \<open>None\<close> when \<open>ini_realloc\<close> fails
  and the parser returns \<open>-2\<close>.\<close>

partial_function (option) ini_grow ::
    "ini_options \<Rightarrow> (nat \<Rightarrow> bool) \<Rightarrow> 's ini_reader \<Rightarrow> ini_buf \<Rightarrow> string \<Rightarrow> 's \<Rightarrow> (ini_buf \<times> (string \<times> 's) option) run" where
  "ini_grow op alloc reader b line stream =
     run_bind (Some (if max_line b < INI_MAX_LINE op then line_full b line else Inr False)) (\<lambda>more.
     if \<not> more then Some (Inr (b, Some (line, stream)))
     else let m = min (max_line b * 2) (INI_MAX_LINE op);
              b1 = b\<lparr>max_line := m, next_alloc := Suc (next_alloc b)\<rparr>
          in if \<not> alloc (next_alloc b) then run_bind (Some (ini_free b1)) (\<lambda>b2. Some (Inr (b2, None)))
             else let b2 = b1\<lparr>line_size := m\<rparr> in
               run_bind (Some (read_line b2 reader (length line) (m - length line) stream)) (\<lambda>r.
               case r of None \<Rightarrow> Some (Inr (b2, Some (line, stream)))
               | Some (raw, stream') \<Rightarrow> ini_grow op alloc reader b2 (line @ c_text raw) stream'))"

definition ini_fill ::
    "ini_options \<Rightarrow> (nat \<Rightarrow> bool) \<Rightarrow> 's ini_reader \<Rightarrow> ini_buf \<Rightarrow> string \<Rightarrow> 's \<Rightarrow> (ini_buf \<times> (string \<times> 's) option) run" where
  "ini_fill op alloc reader b line stream =
     (if INI_ALLOW_REALLOC op \<and> \<not> INI_USE_STACK op then ini_grow op alloc reader b line stream
      else Some (Inr (b, Some (line, stream))))"

text \<open>The loop over the lines. The flag in the result is false when the parser gives up for lack of
  memory.\<close>

partial_function (option) opt_lines ::
    "ini_options \<Rightarrow> (nat \<Rightarrow> bool) \<Rightarrow> 's ini_reader \<Rightarrow> 'u opt_handler \<Rightarrow> ini_buf \<Rightarrow> 's \<Rightarrow> 'u ini_state \<Rightarrow>
     (ini_buf \<times> bool \<times> 'u ini_state) run" where
  "opt_lines op alloc reader handler b stream st =
     run_bind (Some (read_line b reader 0 (max_line b) stream)) (\<lambda>r.
     case r of None \<Rightarrow> Some (Inr (b, True, st))
     | Some (raw, stream1) \<Rightarrow>
         run_bind (ini_fill op alloc reader b (c_text raw) stream1) (\<lambda>(b1, filled).
         case filled of None \<Rightarrow> Some (Inr (b1, False, st))
         | Some (line, stream2) \<Rightarrow>
             run_bind (Some (next_line st)) (\<lambda>st1.
             run_bind (Some (line_full b1 line)) (\<lambda>full.
             run_bind (if full then ini_abyss reader stream2 st1 else Some (Inr (stream2, st1))) (\<lambda>(stream3, st2).
             let st3 = opt_process_line op handler line st2 in
             if INI_STOP_ON_FIRST_ERROR op \<and> ini_error st3 \<noteq> 0 then Some (Inr (b1, True, st3))
             else opt_lines op alloc reader handler b1 stream3 st3)))))"

text \<open>The value returned, the user data, and whether a block is left on the heap.\<close>

definition opt_parse_stream ::
    "ini_options \<Rightarrow> (nat \<Rightarrow> bool) \<Rightarrow> 's ini_reader \<Rightarrow> 's \<Rightarrow> 'u opt_handler \<Rightarrow> 'u \<Rightarrow> (int \<times> 'u \<times> bool) run" where
  "opt_parse_stream op alloc reader stream handler u =
     (if INI_USE_STACK op
      then run_bind (opt_lines op alloc reader handler
             \<lparr>line_size = INI_MAX_LINE op, max_line = INI_MAX_LINE op, line_live = True, next_alloc = 0\<rparr> stream (ini_start u))
             (\<lambda>(b, ok, st). Some (Inr (if ok then int (ini_error st) else - 2, user st, False)))
      else if \<not> alloc 0 then Some (Inr (- 2, u, False))
      else run_bind (opt_lines op alloc reader handler
             \<lparr>line_size = INI_INITIAL_ALLOC op, max_line = INI_INITIAL_ALLOC op, line_live = True, next_alloc = 1\<rparr> stream (ini_start u))
             (\<lambda>(b, ok, st).
               if \<not> ok then Some (Inr (- 2, user st, line_live b))
               else run_bind (Some (ini_free b)) (\<lambda>b1. Some (Inr (int (ini_error st), user st, line_live b1)))))"

definition opt_parse_file ::
    "ini_options \<Rightarrow> (nat \<Rightarrow> bool) \<Rightarrow> string \<Rightarrow> 'u opt_handler \<Rightarrow> 'u \<Rightarrow> (int \<times> 'u \<times> bool) run" where
  "opt_parse_file op alloc file handler u = opt_parse_stream op alloc fgets file handler u"

definition opt_parse_string ::
    "ini_options \<Rightarrow> (nat \<Rightarrow> bool) \<Rightarrow> string \<Rightarrow> 'u opt_handler \<Rightarrow> 'u \<Rightarrow> (int \<times> 'u \<times> bool) run" where
  "opt_parse_string op alloc s handler u =
     opt_parse_stream op alloc ini_reader_string \<lparr>ctx_ptr = s, num_left = length (c_text s)\<rparr> handler u"

subsection \<open>Errors are recorded once\<close>

lemma ini_fail_sticky [simp]: "ini_error st \<noteq> 0 \<Longrightarrow> ini_fail st = st"
  by (simp add: ini_fail_def)

lemma opt_call_error: "ini_error st \<noteq> 0 \<Longrightarrow> ini_error (opt_call op handler st n v) = ini_error st"
  by (simp add: opt_call_def split_def Let_def)

lemma opt_line_error: "ini_error st \<noteq> 0 \<Longrightarrow> ini_error (opt_process_line op handler line st) = ini_error st"
  by (simp add: opt_process_line_def opt_section_def opt_pair_def Let_def split_def opt_call_error)

lemma lineno_opt_call: "lineno (opt_call op handler st n v) = lineno st"
  by (simp add: opt_call_def Let_def split_def)

lemma lineno_opt_line [simp]: "lineno (opt_process_line op handler line st) = lineno st"
  by (simp add: opt_process_line_def opt_section_def opt_pair_def Let_def split_def lineno_opt_call)

lemma next_line_small: "lineno st < INT_MAX \<Longrightarrow> next_line st = Inr (st\<lparr>lineno := lineno st + 1\<rparr>)"
  by (simp add: next_line_def)

subsection \<open>The sizes a buffer takes\<close>

text \<open>The longest line that is read, with its terminator.\<close>

definition line_limit :: "ini_options \<Rightarrow> nat" where
  "line_limit op =
     (if INI_USE_STACK op then INI_MAX_LINE op
      else if INI_ALLOW_REALLOC op then max (INI_MAX_LINE op) (INI_INITIAL_ALLOC op)
      else INI_INITIAL_ALLOC op)"

text \<open>The first buffer has room for a character and its terminator, and the sizes are in the range of
  \<open>int\<close>, to which the code converts them.\<close>

definition ini_options_ok :: "ini_options \<Rightarrow> bool" where
  "ini_options_ok op \<longleftrightarrow> 2 \<le> (if INI_USE_STACK op then INI_MAX_LINE op else INI_INITIAL_ALLOC op) \<and> line_limit op \<le> INT_MAX"

definition buf_ok :: "ini_options \<Rightarrow> ini_buf \<Rightarrow> bool" where
  "buf_ok op b \<longleftrightarrow> line_live b \<and> line_size b = max_line b \<and> 2 \<le> max_line b \<and> max_line b \<le> line_limit op
     \<and> line_limit op \<le> INT_MAX
     \<and> (max_line b < line_limit op \<longrightarrow> INI_ALLOW_REALLOC op \<and> \<not> INI_USE_STACK op \<and> line_limit op = INI_MAX_LINE op)"

lemma buf_ok_start:
  assumes "ini_options_ok op"
  shows "INI_USE_STACK op \<Longrightarrow>
      buf_ok op \<lparr>line_size = INI_MAX_LINE op, max_line = INI_MAX_LINE op, line_live = True, next_alloc = 0\<rparr>"
    and "\<not> INI_USE_STACK op \<Longrightarrow>
      buf_ok op \<lparr>line_size = INI_INITIAL_ALLOC op, max_line = INI_INITIAL_ALLOC op, line_live = True, next_alloc = 1\<rparr>"
  using assms by (auto simp: ini_options_ok_def buf_ok_def line_limit_def max_def)

lemma read_line_small:
  "num \<le> INT_MAX \<Longrightarrow> line_live b \<Longrightarrow> offset + num \<le> line_size b \<Longrightarrow> read_line b reader offset num s = reader num s"
  by (simp add: read_line_def)

lemma buf_ok_read: "buf_ok op b \<Longrightarrow> read_line b reader 0 (max_line b) s = reader (max_line b) s"
  by (simp add: buf_ok_def read_line_def)

lemma buf_ok_full:
  "buf_ok op b \<Longrightarrow> line_full b line = Inr (Suc (length line) = max_line b \<and> last line \<noteq> LF)"
  by (auto simp: buf_ok_def line_full_def)

text \<open>One round of the loop that enlarges the buffer.\<close>

lemma buf_ok_grow:
  assumes "buf_ok op b" "max_line b < INI_MAX_LINE op" "INI_ALLOW_REALLOC op" "\<not> INI_USE_STACK op"
  defines "m \<equiv> min (max_line b * 2) (INI_MAX_LINE op)"
  shows "buf_ok op (b\<lparr>max_line := m, next_alloc := k, line_size := m\<rparr>)" "max_line b < m" "m \<le> line_limit op"
  using assms by (auto simp: buf_ok_def line_limit_def)

lemma ini_grow_stop:
  "buf_ok op b \<Longrightarrow> \<not> (max_line b < INI_MAX_LINE op \<and> Suc (length line) = max_line b \<and> last line \<noteq> LF) \<Longrightarrow>
   ini_grow op alloc reader b line s = Some (Inr (b, Some (line, s)))"
  by (subst ini_grow.simps) (auto simp: buf_ok_full)

lemma ini_grow_round:
  assumes "buf_ok op b" "max_line b < INI_MAX_LINE op" "Suc (length line) = max_line b" "last line \<noteq> LF"
    and heap: "INI_ALLOW_REALLOC op" "\<not> INI_USE_STACK op"
  defines "m \<equiv> min (max_line b * 2) (INI_MAX_LINE op)"
  shows "\<not> alloc (next_alloc b) \<Longrightarrow> ini_grow op alloc reader b line s =
      Some (Inr (b\<lparr>max_line := m, next_alloc := Suc (next_alloc b), line_live := False\<rparr>, None))"
    and "alloc (next_alloc b) \<Longrightarrow> ini_grow op alloc reader b line s =
      run_bind (Some (reader (m - length line) s)) (\<lambda>r.
        let b2 = b\<lparr>max_line := m, next_alloc := Suc (next_alloc b), line_size := m\<rparr> in
        case r of None \<Rightarrow> Some (Inr (b2, Some (line, s)))
        | Some (raw, s') \<Rightarrow> ini_grow op alloc reader b2 (line @ c_text raw) s')"
proof -
  have live: "line_live b" and len: "length line \<le> m"
    using assms(1) buf_ok_grow(2) [OF assms(1,2) heap] assms(3) by (simp_all add: buf_ok_def m_def)
  have small: "m \<le> INT_MAX" using assms(1) buf_ok_grow(3) [OF assms(1,2) heap] by (simp only: buf_ok_def m_def) linarith
  note step = ini_grow.simps [of op alloc reader b line s] buf_ok_full [OF assms(1)] m_def [symmetric]
  show "\<not> alloc (next_alloc b) \<Longrightarrow> ini_grow op alloc reader b line s =
      Some (Inr (b\<lparr>max_line := m, next_alloc := Suc (next_alloc b), line_live := False\<rparr>, None))"
    unfolding step using assms(2-4) live by (simp add: ini_free_def)
  show "alloc (next_alloc b) \<Longrightarrow> ini_grow op alloc reader b line s =
      run_bind (Some (reader (m - length line) s)) (\<lambda>r.
        let b2 = b\<lparr>max_line := m, next_alloc := Suc (next_alloc b), line_size := m\<rparr> in
        case r of None \<Rightarrow> Some (Inr (b2, Some (line, s)))
        | Some (raw, s') \<Rightarrow> ini_grow op alloc reader b2 (line @ c_text raw) s')"
    unfolding step using assms(2-4) live len small by (simp add: read_line_small Let_def)
qed

subsection \<open>Chunks of a line\<close>

lemma length_next_chunk: "length (next_chunk k cs) \<le> k"
  by (induction k cs rule: next_chunk.induct) auto

lemma next_chunk_add:
  "length (next_chunk k cs) = k \<Longrightarrow> k = 0 \<or> last (next_chunk k cs) \<noteq> LF \<Longrightarrow>
   next_chunk (k + j) cs = next_chunk k cs @ next_chunk j (drop k cs)"
proof (induction k cs rule: next_chunk.induct)
  case (3 k c cs)
  then show ?case by (cases k) (auto split: if_splits)
qed auto

lemma next_chunk_done:
  "length (next_chunk k cs) < k \<or> (next_chunk k cs \<noteq> [] \<and> last (next_chunk k cs) = LF) \<Longrightarrow> k \<le> k' \<Longrightarrow>
   next_chunk k' cs = next_chunk k cs"
proof (induction k cs arbitrary: k' rule: next_chunk.induct)
  case (2 k)
  then show ?case by (cases k') auto
next
  case (3 k c cs)
  from 3(3) obtain j where j: "k' = Suc j" "k \<le> j" by (cases k') auto
  show ?case
  proof (cases "c = LF")
    case False
    then have "next_chunk j cs = next_chunk k cs"
      using 3(1) [OF False _ j(2)] 3(2) by (cases "next_chunk k cs = []") (auto split: if_splits)
    with False j(1) show ?thesis by simp
  qed (simp add: j(1))
qed simp

subsection \<open>Reading a line\<close>

context line_reader
begin

text \<open>The growing buffer ends up with what a buffer of the largest size would have been given.\<close>

lemma grow_reads:
  assumes "\<And>k. alloc k" and heap: "INI_ALLOW_REALLOC op" "\<not> INI_USE_STACK op"
    and cs: "NUL \<notin> set cs" "cs \<noteq> []"
  shows "buf_ok op b \<Longrightarrow> good s \<Longrightarrow> line = next_chunk (max_line b - 1) cs \<Longrightarrow> contents s = drop (length line) cs \<Longrightarrow>
    \<exists>b' s'. ini_grow op alloc reader b line s = Some (Inr (b', Some (next_chunk (line_limit op - 1) cs, s')))
       \<and> buf_ok op b' \<and> good s' \<and> contents s' = drop (length (next_chunk (line_limit op - 1) cs)) cs
       \<and> line_full b' (next_chunk (line_limit op - 1) cs) =
           Inr (Suc (length (next_chunk (line_limit op - 1) cs)) = line_limit op \<and> last (next_chunk (line_limit op - 1) cs) \<noteq> LF)"
proof (induction "line_limit op - max_line b" arbitrary: b line s rule: less_induct)
  case less
  let ?L = "next_chunk (line_limit op - 1) cs"
  have b: "2 \<le> max_line b" "max_line b \<le> line_limit op" "max_line b < line_limit op \<Longrightarrow> line_limit op = INI_MAX_LINE op"
    "INI_MAX_LINE op \<le> line_limit op"
    using less.prems(1) heap by (auto simp: buf_ok_def line_limit_def)
  show ?case
  proof (cases "max_line b < INI_MAX_LINE op \<and> Suc (length line) = max_line b \<and> last line \<noteq> LF")
    case False
    have "?L = line"
    proof (cases "max_line b < line_limit op")
      case True
      then have "length line < max_line b - 1 \<or> (line \<noteq> [] \<and> last line = LF)"
        using False b length_next_chunk [of "max_line b - 1" cs] next_chunk_nonempty [OF cs(2), of "max_line b - 1"] less.prems(3)
        by fastforce
      then show ?thesis using b(2) next_chunk_done [of "max_line b - 1" cs "line_limit op - 1"] less.prems(3) by simp
    next
      case False
      then have "max_line b = line_limit op" using b(2) by simp
      then show ?thesis using less.prems(3) by simp
    qed
    moreover have "line_full b line = Inr (Suc (length line) = line_limit op \<and> last line \<noteq> LF)"
      using False b length_next_chunk [of "max_line b - 1" cs] less.prems(3) unfolding buf_ok_full [OF less.prems(1)]
      by fastforce
    ultimately show ?thesis
      using ini_grow_stop [OF less.prems(1) False] less.prems(1,2,4) by (intro exI [of _ b] exI [of _ s]) simp
  next
    case True
    define m where "m = min (max_line b * 2) (INI_MAX_LINE op)"
    let ?b = "b\<lparr>max_line := m, next_alloc := Suc (next_alloc b), line_size := m\<rparr>"
    have lt: "max_line b < m" "m \<le> line_limit op" and ok: "buf_ok op ?b"
      using buf_ok_grow(2,3) [OF less.prems(1) _ heap] buf_ok_grow(1) [OF less.prems(1) _ heap, of "Suc (next_alloc b)"] True
      by (simp_all add: m_def)
    note round = ini_grow_round(2) [OF less.prems(1) _ _ _ heap, where alloc = alloc and line = line and reader = reader and s = s, folded m_def]
    have full: "length line = max_line b - 1" "last line \<noteq> LF" using True by auto
    have add: "next_chunk (max_line b - 1 + j) cs = line @ next_chunk j (contents s)" for j
      using next_chunk_add [of "max_line b - 1" cs j] full less.prems(3,4) by simp
    have room: "2 \<le> m - length line" using lt(1) full(1) b(1) by simp
    show ?thesis
    proof (cases "contents s = []")
      case end_of_text: True
      have "next_chunk j [] = []" for j by (cases j) simp_all
      then have "?L = line" using add [of "line_limit op - max_line b"] b(1,2) end_of_text by simp
      moreover have "ini_grow op alloc reader b line s = Some (Inr (?b, Some (line, s)))"
        using round True assms(1) at_end [OF less.prems(2) end_of_text room] by (simp add: Let_def)
      moreover have "line_full ?b line = Inr (Suc (length line) = line_limit op \<and> last line \<noteq> LF)"
        using full(1) lt b(1) unfolding buf_ok_full [OF ok] by simp
      ultimately show ?thesis
        using ok less.prems(2,4) by (intro exI [of _ ?b] exI [of _ s]) simp
    next
      case False
      let ?k = "next_chunk (m - length line - 1) (contents s)"
      obtain s1 where s1: "reader (m - length line) s = Inr (Some (?k, s1))" "good s1" "contents s1 = drop (length ?k) (contents s)"
        using chunk [OF less.prems(2) False room] by blast
      have "set (contents s) \<subseteq> set cs" using less.prems(4) by (simp add: set_drop_subset)
      then have "NUL \<notin> set ?k" using set_next_chunk [of "m - length line - 1" "contents s"] cs(1) by auto
      then have "c_text ?k = ?k" by (rule c_text_id)
      then have "ini_grow op alloc reader b line s = ini_grow op alloc reader ?b (line @ ?k) s1"
        using round True assms(1) s1(1) by (simp add: Let_def)
      moreover have "line @ ?k = next_chunk (max_line ?b - 1) cs"
        using add [of "m - max_line b"] full(1) lt b(1) by simp
      moreover have "contents s1 = drop (length (line @ ?k)) cs" using s1(3) less.prems(4) by (simp add: add.commute)
      moreover have "line_limit op - max_line ?b < line_limit op - max_line b" using lt by simp
      ultimately show ?thesis using less.hyps [of ?b s1 "line @ ?k"] ok s1(2) by presburger
    qed
  qed
qed

lemma fill_reads:
  assumes "INI_USE_STACK op \<or> (\<forall>k. alloc k)" "buf_ok op b" "good s" "NUL \<notin> set (contents s)" "contents s \<noteq> []"
  defines "L \<equiv> next_chunk (line_limit op - 1) (contents s)"
  obtains raw s1 b' s' where "reader (max_line b) s = Inr (Some (raw, s1))"
    "ini_fill op alloc reader b (c_text raw) s1 = Some (Inr (b', Some (L, s')))" "buf_ok op b'"
    "good s'" "contents s' = drop (length L) (contents s)"
    "line_full b' L = Inr (Suc (length L) = line_limit op \<and> last L \<noteq> LF)"
proof -
  let ?k = "next_chunk (max_line b - 1) (contents s)"
  obtain s1 where s1: "reader (max_line b) s = Inr (Some (?k, s1))" "good s1" "contents s1 = drop (length ?k) (contents s)"
    using chunk [OF assms(3,5), of "max_line b"] assms(2) by (auto simp: buf_ok_def)
  have k: "c_text ?k = ?k" using assms(4) set_next_chunk [of "max_line b - 1" "contents s"] by (intro c_text_id) auto
  show ?thesis
  proof (cases "INI_ALLOW_REALLOC op \<and> \<not> INI_USE_STACK op")
    case True
    then obtain b' s' where "ini_grow op alloc reader b ?k s1 = Some (Inr (b', Some (L, s')))" "buf_ok op b'" "good s'"
      "contents s' = drop (length L) (contents s)" "line_full b' L = Inr (Suc (length L) = line_limit op \<and> last L \<noteq> LF)"
      using grow_reads [where alloc = alloc, OF _ _ _ assms(4,5,2) s1(2) refl s1(3)] assms(1) unfolding L_def by blast
    then show ?thesis using that [of ?k s1 b' s'] True s1(1) k by (simp add: ini_fill_def)
  next
    case False
    then have "max_line b = line_limit op" using assms(2) by (auto simp: buf_ok_def)
    then show ?thesis
      using that [of ?k s1 b s1] False s1 k assms(2) buf_ok_full [OF assms(2), of ?k] by (simp add: ini_fill_def L_def)
  qed
qed

end

subsection \<open>The reference\<close>

text \<open>The text is cut into its lines first; a line that does not fit the largest buffer is cut and
  counts as an error, unless it just fills the buffer and ends the text.\<close>

definition opt_first_line :: "ini_options \<Rightarrow> 'u opt_handler \<Rightarrow> string \<Rightarrow> 'u ini_state \<Rightarrow> 'u ini_state" where
  "opt_first_line op handler cs st =
     (let ln = takeWhile (\<lambda>c. c \<noteq> LF) cs; room = line_limit op - 1; st1 = st\<lparr>lineno := lineno st + 1\<rparr>
      in if length ln < room then opt_process_line op handler (take (Suc (length ln)) cs) st1
         else opt_process_line op handler (take room ln) (if length cs = room then st1 else ini_fail st1))"

function opt_reference :: "ini_options \<Rightarrow> 'u opt_handler \<Rightarrow> string \<Rightarrow> 'u ini_state \<Rightarrow> 'u ini_state" where
  "opt_reference op handler cs st =
     (if cs = [] then st
      else let st2 = opt_first_line op handler cs st in
           if INI_STOP_ON_FIRST_ERROR op \<and> ini_error st2 \<noteq> 0 then st2
           else opt_reference op handler (tl (dropWhile (\<lambda>c. c \<noteq> LF) cs)) st2)"
  by pat_completeness auto
termination
  by (relation "measure (\<lambda>(op, h, cs, st). length cs)") (simp_all add: rest_shorter [simplified])

declare opt_reference.simps [simp del]

context line_reader
begin

text \<open>After a line was read: its rest is consumed, and the stream is behind its line feed.\<close>

lemma line_consumed:
  assumes "good s'" "NUL \<notin> set cs" "cs \<noteq> []" "0 < room"
    and "contents s' = drop (length (next_chunk room cs)) cs"
  defines "ln \<equiv> takeWhile (\<lambda>c. c \<noteq> LF) cs" and "full \<equiv> length (next_chunk room cs) = room \<and> last (next_chunk room cs) \<noteq> LF"
  shows "\<exists>s2. (if full then ini_abyss reader s' st1 else Some (Inr (s', st1))) =
            Some (Inr (s2, if length ln < room \<or> length cs = room then st1 else ini_fail st1))
          \<and> good s2 \<and> contents s2 = tl (dropWhile (\<lambda>c. c \<noteq> LF) cs)
          \<and> next_chunk room cs = (if length ln < room then take (Suc (length ln)) cs else take room ln)"
proof (cases "length ln < room")
  case True
  note line = next_chunk_line [OF True [unfolded ln_def]]
  have "\<not> full"
  proof
    assume full
    then have "LF \<notin> set cs" using next_chunk_last [OF assms(3,4)] True by (simp add: full_def ln_def)
    then have "length ln = length cs" unfolding ln_def by (subst takeWhile_neq_id) simp_all
    then have "length (next_chunk room cs) < room" using line(1) True unfolding ln_def by simp
    with \<open>full\<close> show False by (simp add: full_def)
  qed
  with True line assms(1,5) show ?thesis by (auto simp: ln_def)
next
  case False
  then have le: "room \<le> length ln" by simp
  note long = next_chunk_long [OF le [unfolded ln_def]]
  have "LF \<notin> set (next_chunk room cs)" unfolding long(1) by (auto dest!: in_set_takeD set_takeWhileD)
  moreover have "next_chunk room cs \<noteq> []" using long(2) assms(4) by auto
  ultimately have full using long(2) last_in_set unfolding full_def by metis
  have "NUL \<notin> set (contents s')" using assms(2,5) in_set_dropD by metis
  then obtain s2 where s2: "ini_abyss reader s' st1 = Some (Inr (s2, if contents s' = [] then st1 else ini_fail st1))" "good s2"
    "contents s2 = tl (dropWhile (\<lambda>c. c \<noteq> LF) (contents s'))"
    using abyss_eq [OF assms(1)] by blast
  have "contents s' = [] \<longleftrightarrow> length cs = room"
    using assms(5) long(2) le length_takeWhile_le [of "\<lambda>c. c \<noteq> LF" cs] by (auto simp: ln_def)
  then show ?thesis using s2 False \<open>full\<close> long assms(5) by (simp add: ln_def)
qed

lemma opt_lines_eq:
  assumes alloc: "INI_USE_STACK op \<or> (\<forall>k. alloc k)"
  shows "buf_ok op b \<Longrightarrow> good s \<Longrightarrow> NUL \<notin> set (contents s) \<Longrightarrow> lineno st + length (contents s) \<le> INT_MAX \<Longrightarrow>
    \<exists>b'. opt_lines op alloc reader handler b s st = Some (Inr (b', True, opt_reference op handler (contents s) st)) \<and> line_live b'"
proof (induction "length (contents s)" arbitrary: s st b rule: less_induct)
  case less
  show ?case
  proof (cases "contents s = []")
    case True
    then show ?thesis
      using less.prems at_end [of s "max_line b"]
      by (subst opt_lines.simps) (simp add: buf_ok_read opt_reference.simps, simp add: buf_ok_def)
  next
    case False
    let ?cs = "contents s" and ?room = "line_limit op - 1"
    let ?L = "next_chunk ?room ?cs" and ?ln = "takeWhile (\<lambda>c. c \<noteq> LF) (contents s)"
    define st1 where "st1 = st\<lparr>lineno := lineno st + 1\<rparr>"
    have room: "0 < ?room" using less.prems(1) by (simp add: buf_ok_def)
    obtain raw s1 b1 s' where fill: "reader (max_line b) s = Inr (Some (raw, s1))"
      "ini_fill op alloc reader b (c_text raw) s1 = Some (Inr (b1, Some (?L, s')))" "buf_ok op b1"
      "good s'" "contents s' = drop (length ?L) ?cs" "line_full b1 ?L = Inr (Suc (length ?L) = line_limit op \<and> last ?L \<noteq> LF)"
      by (rule fill_reads [OF alloc less.prems(1-3) False])
    let ?st2 = "if length ?ln < ?room \<or> length ?cs = ?room then st1 else ini_fail st1"
    obtain s2 where s2: "(if length ?L = ?room \<and> last ?L \<noteq> LF then ini_abyss reader s' st1 else Some (Inr (s', st1))) =
        Some (Inr (s2, ?st2))" "good s2" "contents s2 = tl (dropWhile (\<lambda>c. c \<noteq> LF) ?cs)"
      "?L = (if length ?ln < ?room then take (Suc (length ?ln)) ?cs else take ?room ?ln)"
      using line_consumed [OF fill(4) less.prems(3) False room fill(5), of st1] by blast
    define st3 where "st3 = opt_process_line op handler ?L ?st2"
    have st3: "st3 = opt_first_line op handler ?cs st"
      unfolding st3_def opt_first_line_def Let_def st1_def [symmetric] by (subst s2(4)) simp
    have full: "Suc (length ?L) = line_limit op \<longleftrightarrow> length ?L = ?room" using room by auto
    have "0 < length ?cs" using False by simp
    then have "lineno st < INT_MAX" using less.prems(4) by linarith
    note line = next_line_small [OF this, folded st1_def]
    have st3_line: "lineno st3 = lineno st + 1" by (simp add: st3_def st1_def)
    have step: "opt_lines op alloc reader handler b s st =
        (if INI_STOP_ON_FIRST_ERROR op \<and> ini_error st3 \<noteq> 0 then Some (Inr (b1, True, st3))
         else opt_lines op alloc reader handler b1 s2 st3)"
      by (subst opt_lines.simps)
        (simp only: buf_ok_read [OF less.prems(1)] fill(1,2,6) full line s2(1) st3_def Let_def run_bind_simps option.case prod.case)
    have ref: "opt_reference op handler ?cs st =
        (if INI_STOP_ON_FIRST_ERROR op \<and> ini_error st3 \<noteq> 0 then st3 else opt_reference op handler (contents s2) st3)"
      by (subst opt_reference.simps) (simp only: False if_False Let_def st3 s2(3))
    have nul: "NUL \<notin> set (contents s2)"
      using less.prems(3) s2(3) by (metis list.sel(2) list.set_sel(2) set_dropWhileD)
    have "line_live b1" using fill(3) by (simp add: buf_ok_def)
    moreover have "length (contents s2) < length ?cs" using s2(3) rest_shorter [OF False] by simp
    ultimately show ?thesis
      using less.hyps [OF _ fill(3) s2(2) nul, of st3] less.prems(4) st3_line unfolding step ref by auto
  qed
qed

text \<open>For every allocator and every text: growing ends, and so does the parse.\<close>

lemma grow_ends:
  assumes heap: "INI_ALLOW_REALLOC op" "\<not> INI_USE_STACK op"
  shows "buf_ok op b \<Longrightarrow> good s \<Longrightarrow>
    \<exists>b' r. ini_grow op alloc reader b line s = Some (Inr (b', r)) \<and>
      (case r of None \<Rightarrow> \<not> line_live b' \<and> (\<exists>k. \<not> alloc k)
       | Some (line', s') \<Rightarrow> buf_ok op b' \<and> good s' \<and> length (contents s') \<le> length (contents s))"
proof (induction "line_limit op - max_line b" arbitrary: b line s rule: less_induct)
  case less
  show ?case
  proof (cases "max_line b < INI_MAX_LINE op \<and> Suc (length line) = max_line b \<and> last line \<noteq> LF")
    case False
    then show ?thesis
      using ini_grow_stop [OF less.prems(1) False] less.prems by (intro exI [of _ b] exI [of _ "Some (line, s)"]) simp
  next
    case True
    define m where "m = min (max_line b * 2) (INI_MAX_LINE op)"
    let ?b = "b\<lparr>max_line := m, next_alloc := Suc (next_alloc b), line_size := m\<rparr>"
    have lt: "max_line b < m" "m \<le> line_limit op" and ok: "buf_ok op ?b"
      using buf_ok_grow(2,3) [OF less.prems(1) _ heap] buf_ok_grow(1) [OF less.prems(1) _ heap, of "Suc (next_alloc b)"] True
      by (simp_all add: m_def)
    note round = ini_grow_round [OF less.prems(1) _ _ _ heap, where alloc = alloc and line = line and reader = reader and s = s, folded m_def]
    have room: "2 \<le> m - length line" using lt(1) True by linarith
    consider "\<not> alloc (next_alloc b)" | "alloc (next_alloc b)" "contents s = []" | "alloc (next_alloc b)" "contents s \<noteq> []" by blast
    then show ?thesis
    proof cases
      case 1
      then show ?thesis using round(1) True by auto
    next
      case 2
      then show ?thesis using round(2) True at_end [OF less.prems(2) _ room] ok less.prems(2) by (simp add: Let_def)
    next
      case 3
      obtain raw s1 where s1: "reader (m - length line) s = Inr (Some (raw, s1))" "good s1" "length (contents s1) \<le> length (contents s)"
        using chunk [OF less.prems(2) 3(2) room] by fastforce
      have "ini_grow op alloc reader b line s = ini_grow op alloc reader ?b (line @ c_text raw) s1"
        using round(2) True 3(1) s1(1) by (simp add: Let_def)
      moreover have "line_limit op - max_line ?b < line_limit op - max_line b" using lt by simp
      ultimately show ?thesis
        using less.hyps [of ?b s1 "line @ c_text raw"] ok s1(2,3) by (fastforce split: option.splits)
    qed
  qed
qed

lemma fill_ends:
  assumes "buf_ok op b" "good s"
  shows "\<exists>b' r. ini_fill op alloc reader b line s = Some (Inr (b', r)) \<and>
      (case r of None \<Rightarrow> \<not> line_live b' \<and> \<not> INI_USE_STACK op \<and> (\<exists>k. \<not> alloc k)
       | Some (line', s') \<Rightarrow> buf_ok op b' \<and> good s' \<and> length (contents s') \<le> length (contents s))"
proof (cases "INI_ALLOW_REALLOC op \<and> \<not> INI_USE_STACK op")
  case True
  then obtain b' r where "ini_grow op alloc reader b line s = Some (Inr (b', r))"
    "case r of None \<Rightarrow> \<not> line_live b' \<and> (\<exists>k. \<not> alloc k)
     | Some (line', s') \<Rightarrow> buf_ok op b' \<and> good s' \<and> length (contents s') \<le> length (contents s)"
    using grow_ends [OF _ _ assms, of alloc line] by blast
  then show ?thesis using True by (cases r) (simp_all add: ini_fill_def)
qed (use assms in \<open>auto simp: ini_fill_def\<close>)

lemma opt_lines_end:
  "buf_ok op b \<Longrightarrow> good s \<Longrightarrow> lineno st + length (contents s) \<le> INT_MAX \<Longrightarrow>
    \<exists>b' ok st'. opt_lines op alloc reader handler b s st = Some (Inr (b', ok, st')) \<and> line_live b' = ok
      \<and> (ok \<or> \<not> INI_USE_STACK op \<and> (\<exists>k. \<not> alloc k))"
proof (induction "length (contents s)" arbitrary: s st b rule: less_induct)
  case less
  note start = opt_lines.simps [of op alloc reader handler b s st] buf_ok_read [OF less.prems(1)]
  have live: "line_live b" "2 \<le> max_line b" using less.prems(1) by (auto simp: buf_ok_def)
  show ?case
  proof (cases "contents s = []")
    case True
    then show ?thesis using at_end [OF less.prems(2) True live(2)] live(1) by (simp add: start)
  next
    case False
    let ?k = "next_chunk (max_line b - 1) (contents s)" and ?st1 = "st\<lparr>lineno := lineno st + 1\<rparr>"
    obtain s1 where s1: "reader (max_line b) s = Inr (Some (?k, s1))" "good s1" "length (contents s1) < length (contents s)"
      using chunk [OF less.prems(2) False live(2)] next_chunk_drop_less [OF False, of "max_line b - 1"] live(2) by auto
    obtain b1 r where fill: "ini_fill op alloc reader b (c_text ?k) s1 = Some (Inr (b1, r))"
      "case r of None \<Rightarrow> \<not> line_live b1 \<and> \<not> INI_USE_STACK op \<and> (\<exists>k. \<not> alloc k)
       | Some (line', s') \<Rightarrow> buf_ok op b1 \<and> good s' \<and> length (contents s') \<le> length (contents s1)"
      using fill_ends [OF less.prems(1) s1(2), of alloc "c_text ?k"] by blast
    show ?thesis
    proof (cases r)
      case None
      then show ?thesis using fill s1(1) by (auto simp: start)
    next
      case (Some ls)
      then obtain line s' where r: "r = Some (line, s')" "buf_ok op b1" "good s'" "length (contents s') \<le> length (contents s1)"
        using fill(2) by (cases ls) auto
      let ?full = "Suc (length line) = max_line b1 \<and> last line \<noteq> LF"
      obtain s2 st2 where s2: "(if ?full then ini_abyss reader s' ?st1 else Some (Inr (s', ?st1))) = Some (Inr (s2, st2))"
        "good s2" "length (contents s2) \<le> length (contents s')" "lineno st2 = lineno st + 1"
        using abyss_ends [OF r(3), of ?st1] r(3) by (cases ?full) auto
      define st3 where "st3 = opt_process_line op handler line st2"
      have "lineno st < INT_MAX" using less.prems(3) s1(3) by linarith
      note line = next_line_small [OF this]
      have step: "opt_lines op alloc reader handler b s st =
          (if INI_STOP_ON_FIRST_ERROR op \<and> ini_error st3 \<noteq> 0 then Some (Inr (b1, True, st3))
           else opt_lines op alloc reader handler b1 s2 st3)"
        unfolding start
        by (simp only: s1(1) fill(1) r(1) line buf_ok_full [OF r(2)] s2(1) st3_def Let_def run_bind_simps option.case prod.case)
      have "line_live b1" using r(2) by (simp add: buf_ok_def)
      moreover have "lineno st3 + length (contents s2) \<le> INT_MAX"
        using less.prems(3) s2(3,4) r(4) s1(3) by (simp add: st3_def)
      ultimately show ?thesis
        using less.hyps [OF _ r(2) s2(2), of st3] s2(3) r(4) s1(3) unfolding step by simp
    qed
  qed
qed

lemma opt_parse_ends:
  assumes "ini_options_ok op" "good s" "length (contents s) \<le> INT_MAX"
  shows "\<exists>e u'. opt_parse_stream op alloc reader s handler u = Some (Inr (e, u', False))
           \<and> (e < 0 \<longrightarrow> e = - 2 \<and> \<not> INI_USE_STACK op \<and> (\<exists>k. \<not> alloc k))"
proof (cases "INI_USE_STACK op")
  case True
  obtain b' st' where "opt_lines op alloc reader handler
      \<lparr>line_size = INI_MAX_LINE op, max_line = INI_MAX_LINE op, line_live = True, next_alloc = 0\<rparr> s (ini_start u) = Some (Inr (b', True, st'))"
    using opt_lines_end [OF buf_ok_start(1) [OF assms(1) True] assms(2), of "ini_start u" alloc handler] True assms(3) by auto
  then show ?thesis using True by (simp add: opt_parse_stream_def)
next
  case False
  obtain b' ok st' where lines: "opt_lines op alloc reader handler
      \<lparr>line_size = INI_INITIAL_ALLOC op, max_line = INI_INITIAL_ALLOC op, line_live = True, next_alloc = 1\<rparr> s (ini_start u) =
      Some (Inr (b', ok, st'))" "line_live b' = ok" "ok \<or> (\<exists>k. \<not> alloc k)"
    using opt_lines_end [OF buf_ok_start(2) [OF assms(1) False] assms(2), of "ini_start u" alloc handler] assms(3) by auto
  then show ?thesis
    using False by (cases "alloc 0"; cases ok) (auto simp: opt_parse_stream_def ini_free_def)
qed

lemma opt_parse_eq:
  assumes "ini_options_ok op" "INI_USE_STACK op \<or> (\<forall>k. alloc k)" "good s" "NUL \<notin> set (contents s)"
    "length (contents s) \<le> INT_MAX"
  shows "opt_parse_stream op alloc reader s handler u =
    Some (Inr (int (ini_error (opt_reference op handler (contents s) (ini_start u))),
               user (opt_reference op handler (contents s) (ini_start u)), False))"
proof (cases "INI_USE_STACK op")
  case True
  then show ?thesis
    using opt_lines_eq [where alloc = alloc and handler = handler and st = "ini_start u", OF assms(2) buf_ok_start(1) [OF assms(1) True] assms(3,4)] assms(5)
    by (auto simp: opt_parse_stream_def)
next
  case False
  then show ?thesis
    using opt_lines_eq [where alloc = alloc and handler = handler and st = "ini_start u", OF assms(2) buf_ok_start(2) [OF assms(1) False] assms(3,4)] assms(2,5)
    by (auto simp: opt_parse_stream_def ini_free_def)
qed

end

lemma opt_parse_file_eq:
  "ini_options_ok op \<Longrightarrow> INI_USE_STACK op \<or> (\<forall>k. alloc k) \<Longrightarrow> NUL \<notin> set cs \<Longrightarrow> length cs \<le> INT_MAX \<Longrightarrow>
    opt_parse_file op alloc cs handler u =
    Some (Inr (int (ini_error (opt_reference op handler cs (ini_start u))), user (opt_reference op handler cs (ini_start u)), False))"
  using file_reader.opt_parse_eq [of op alloc cs handler u] by (simp add: opt_parse_file_def)

lemma opt_parse_string_eq:
  "ini_options_ok op \<Longrightarrow> INI_USE_STACK op \<or> (\<forall>k. alloc k) \<Longrightarrow> NUL \<notin> set cs \<Longrightarrow> length cs \<le> INT_MAX \<Longrightarrow>
    opt_parse_string op alloc cs handler u = opt_parse_file op alloc cs handler u"
  using string_reader.opt_parse_eq [of op alloc "\<lparr>ctx_ptr = cs, num_left = length cs\<rparr>" handler u]
    opt_parse_file_eq [of op alloc cs handler u]
  by (simp add: opt_parse_string_def c_text_id ctx_contents_def ctx_good_def)

subsection \<open>Options that do not matter to a line\<close>

lemma opt_line_memory:
  assumes "INI_HANDLER_LINENO op' = INI_HANDLER_LINENO op" "INI_ALLOW_MULTILINE op' = INI_ALLOW_MULTILINE op"
    "INI_ALLOW_BOM op' = INI_ALLOW_BOM op" "INI_START_COMMENT_PREFIXES op' = INI_START_COMMENT_PREFIXES op"
    "INI_ALLOW_INLINE_COMMENTS op' = INI_ALLOW_INLINE_COMMENTS op"
    "INI_INLINE_COMMENT_PREFIXES op' = INI_INLINE_COMMENT_PREFIXES op"
    "INI_CALL_HANDLER_ON_NEW_SECTION op' = INI_CALL_HANDLER_ON_NEW_SECTION op"
    "INI_ALLOW_NO_VALUE op' = INI_ALLOW_NO_VALUE op"
  shows "opt_process_line op' = (opt_process_line op :: 'u opt_handler \<Rightarrow> _)"
proof -
  have "opt_find_loop op' chars sp cs = opt_find_loop op chars sp cs" for chars sp cs
    by (induction cs arbitrary: sp) (simp_all add: assms(5,6))
  then have f: "opt_find op' = opt_find op" by (simp add: opt_find_def fun_eq_iff)
  have c: "opt_call op' = (opt_call op :: 'u opt_handler \<Rightarrow> _)" unfolding opt_call_def assms(1) ..
  show ?thesis unfolding opt_process_line_def opt_section_def opt_pair_def opt_value_def assms f c ..
qed

text \<open>Only the limit on a line matters of where the buffer is.\<close>

lemma line_limit_stack [simp]: "line_limit (op\<lparr>INI_USE_STACK := True, INI_MAX_LINE := y\<rparr>) = y"
  by (simp add: line_limit_def)

lemma opt_reference_memory:
  "opt_reference (op\<lparr>INI_USE_STACK := True, INI_MAX_LINE := line_limit op\<rparr>) handler cs st = opt_reference op handler cs st"
proof (induction op handler cs st rule: opt_reference.induct)
  case (1 op handler cs st)
  have "opt_first_line (op\<lparr>INI_USE_STACK := True, INI_MAX_LINE := line_limit op\<rparr>) handler cs st = opt_first_line op handler cs st"
    by (simp add: opt_first_line_def Let_def opt_line_memory [of "op\<lparr>INI_USE_STACK := True, INI_MAX_LINE := line_limit op\<rparr>" op])
  then show ?case using 1 by (subst (1 2) opt_reference.simps) (simp add: Let_def)
qed

lemma opt_first_line_error: "ini_error st \<noteq> 0 \<Longrightarrow> ini_error (opt_first_line op handler cs st) = ini_error st"
  by (simp add: opt_first_line_def Let_def opt_line_error)

lemma opt_reference_error:
  "ini_error st \<noteq> 0 \<Longrightarrow> ini_error (opt_reference op handler cs st) = ini_error st"
proof (induction op handler cs st rule: opt_reference.induct)
  case (1 op handler cs st)
  then show ?case by (subst opt_reference.simps) (simp add: Let_def opt_first_line_error)
qed

lemma opt_reference_stop:
  "ini_error (opt_reference (op\<lparr>INI_STOP_ON_FIRST_ERROR := z\<rparr>) handler cs st) = ini_error (opt_reference op handler cs st)"
proof (induction op handler cs st rule: opt_reference.induct)
  case (1 op handler cs st)
  have "line_limit (op\<lparr>INI_STOP_ON_FIRST_ERROR := z\<rparr>) = line_limit op" by (simp add: line_limit_def)
  then have first: "opt_first_line (op\<lparr>INI_STOP_ON_FIRST_ERROR := z\<rparr>) handler cs st = opt_first_line op handler cs st"
    by (simp add: opt_first_line_def Let_def opt_line_memory [of "op\<lparr>INI_STOP_ON_FIRST_ERROR := z\<rparr>" op])
  let ?st = "opt_first_line op handler cs st" and ?rest = "tl (dropWhile (\<lambda>c. c \<noteq> LF) cs)"
  show ?case
  proof (cases "ini_error ?st = 0")
    case True
    then show ?thesis using 1 first by (subst (1 2) opt_reference.simps) (simp add: Let_def)
  next
    case False
    then show ?thesis
      using opt_reference_error [of ?st _ handler ?rest] first by (subst (1 2) opt_reference.simps) (simp add: Let_def)
  qed
qed

subsection \<open>The options of the build\<close>

text \<open>A handler that expects a name and a value, as every handler of the program does.\<close>

definition plain_handler :: "'u ini_handler \<Rightarrow> 'u opt_handler" where
  "plain_handler h u s n v l = (case (n, v) of (Some name, Some value) \<Rightarrow> h u s name value | _ \<Rightarrow> (False, u))"

lemma find_defaults: "opt_find ini_defaults s chars = ini_find_chars_or_comment s chars"
proof -
  have "opt_find_loop ini_defaults chars sp s = ini_find_loop chars sp s" for sp
    by (induction chars sp s rule: ini_find_loop.induct) (simp_all add: ini_defaults_def)
  then show ?thesis by (simp add: opt_find_def ini_find_chars_or_comment_def)
qed

lemma line_defaults: "opt_process_line ini_defaults (plain_handler h) line st = ini_process_line h line st"
proof -
  have call: "opt_call ini_defaults (plain_handler h) st (Some n) (Some v) = ini_call h st n v" for st n v
    by (simp add: opt_call_def ini_call_def plain_handler_def ini_defaults_def)
  show ?thesis
    unfolding opt_process_line_def opt_section_def opt_pair_def opt_value_def call find_defaults ini_process_line_def
    by (simp add: Let_def split_def ini_defaults_def)
qed

lemma reference_defaults: "opt_reference ini_defaults (plain_handler h) cs st = ini_reference h cs st"
proof (induction h cs st rule: ini_reference.induct)
  case (1 h cs st)
  have op: "line_limit ini_defaults = 200" "\<not> INI_STOP_ON_FIRST_ERROR ini_defaults"
    by (simp_all add: line_limit_def ini_defaults_def)
  show ?case
    using 1 by (subst opt_reference.simps, subst ini_reference.simps) (simp add: op line_defaults opt_first_line_def Let_def)
qed

subsection \<open>Properties\<close>

text \<open>With the options that \<open>ini.h\<close> sets, the configurable parser is the parser of the build: the
  same error line and the same calls of the handler, for a file and for a string, with every
  handler and without one call of the allocator that could matter, for texts without zero bytes and
  of less than \<open>2^31\<close> bytes.\<close>

lemma ini_defaults_parse:
  assumes "NUL \<notin> set cs" and "length cs \<le> INT_MAX"
  shows "opt_parse_file ini_defaults alloc cs (plain_handler h) u =
           run_bind (ini_parse_file cs h u) (\<lambda>(e, u'). Some (Inr (int e, u', False)))
       \<and> opt_parse_string ini_defaults alloc cs (plain_handler h) u =
           run_bind (ini_parse_string cs h u) (\<lambda>(e, u'). Some (Inr (int e, u', False)))"
proof -
  have op: "ini_options_ok ini_defaults" "INI_USE_STACK ini_defaults \<or> (\<forall>k. alloc k)"
    by (simp_all add: ini_options_ok_def ini_defaults_def line_limit_def)
  have "line_count cs \<le> INT_MAX" using line_count_le assms(2) le_trans by blast
  then show ?thesis
    using opt_parse_string_eq [OF op assms, of "plain_handler h" u] opt_parse_file_eq [OF op assms, of "plain_handler h" u]
      ini_parse_file_reference [OF assms(1), of h u] ini_parse_string_reference [OF assms(1), of h u]
    by (simp add: reference_defaults)
qed

lemma ini_defaults_parse_witness:
  "opt_parse_file ini_defaults (\<lambda>_. False) (''[A]'' @ [LF] @ ''k = v ; c'' @ [LF]) (plain_handler (\<lambda>u s n v. (True, u @ [(s, n, v)]))) [] =
   run_bind (ini_parse_file (''[A]'' @ [LF] @ ''k = v ; c'' @ [LF]) (\<lambda>u s n v. (True, u @ [(s, n, v)])) [])
     (\<lambda>(e, u'). Some (Inr (int e, u', False)))"
  using ini_defaults_parse [of "''[A]'' @ [LF] @ ''k = v ; c'' @ [LF]" "\<lambda>_. False" "\<lambda>u s n v. (True, u @ [(s, n, v)])" "[]"]
  by simp

text \<open>C28. Where the line buffer is makes no difference but for its size: on a text without zero bytes and of
  less than \<open>2^31\<close> bytes, for sizes with \<open>2 \<le> INI_INITIAL_ALLOC \<le> INI_MAX_LINE < 2^31\<close>, and when the allocations
  succeed, a parser with its buffer on the heap, doubled up to \<open>INI_MAX_LINE\<close> in the middle of a line as
  often as needed, gives the result of the parser with a buffer of the largest size on the stack.
  Without \<open>INI_ALLOW_REALLOC\<close> that size is \<open>INI_INITIAL_ALLOC\<close>, although the comment on that option in \<open>ini.h\<close>
  speaks of a fixed-size buffer of \<open>INI_MAX_LINE\<close> bytes.\<close>

theorem ini_heap_is_stack:
  assumes "\<not> INI_USE_STACK op" and "2 \<le> INI_INITIAL_ALLOC op" and "INI_INITIAL_ALLOC op \<le> INI_MAX_LINE op"
    and "INI_MAX_LINE op \<le> INT_MAX" and "\<forall>k. alloc k" and "NUL \<notin> set cs" and "length cs \<le> INT_MAX"
  shows "opt_parse_file op alloc cs handler u =
           opt_parse_file (op\<lparr>INI_USE_STACK := True,
             INI_MAX_LINE := if INI_ALLOW_REALLOC op then INI_MAX_LINE op else INI_INITIAL_ALLOC op\<rparr>) alloc cs handler u"
proof -
  have limit: "(if INI_ALLOW_REALLOC op then INI_MAX_LINE op else INI_INITIAL_ALLOC op) = line_limit op"
    using assms(1,3) by (simp add: line_limit_def)
  have "ini_options_ok op" "ini_options_ok (op\<lparr>INI_USE_STACK := True, INI_MAX_LINE := line_limit op\<rparr>)"
    using assms(1-4) by (simp_all add: ini_options_ok_def line_limit_def)
  then show ?thesis
    unfolding limit using opt_parse_file_eq [OF _ disjI2 [OF assms(5)] assms(6,7), of _ handler u]
    by (simp add: opt_reference_memory)
qed

theorem ini_heap_is_stack_witness:
  "opt_parse_file (ini_defaults\<lparr>INI_USE_STACK := False, INI_ALLOW_REALLOC := True, INI_INITIAL_ALLOC := 4\<rparr>) (\<lambda>_. True)
     (''key = a value longer than the first buffer'') (plain_handler (\<lambda>u s n v. (True, u @ [(s, n, v)]))) [] =
   opt_parse_file (ini_defaults\<lparr>INI_ALLOW_REALLOC := True, INI_INITIAL_ALLOC := 4\<rparr>) (\<lambda>_. True)
     (''key = a value longer than the first buffer'') (plain_handler (\<lambda>u s n v. (True, u @ [(s, n, v)]))) []"
  using ini_heap_is_stack [of "ini_defaults\<lparr>INI_USE_STACK := False, INI_ALLOW_REALLOC := True, INI_INITIAL_ALLOC := 4\<rparr>"
      "\<lambda>_. True" "''key = a value longer than the first buffer''" "plain_handler (\<lambda>u s n v. (True, u @ [(s, n, v)]))" "[]"]
  by (simp add: ini_defaults_def)

text \<open>C29. Under every choice of the options for which the first buffer has at least two bytes and the buffer
  sizes are in the range of \<open>int\<close>, whatever calls of the allocator fail, the parser ends on every text of less
  than \<open>2^31\<close> bytes from a file or a string, without an overflow of its line counter; it never writes
  behind the line buffer, also not in the middle of growing it, frees it exactly once and does
  not leak it. It returns a negative number only for lack of memory, and that is \<open>-2\<close>.\<close>

theorem ini_options_safe:
  assumes "ini_options_ok op" and "length cs \<le> INT_MAX"
  shows "(\<exists>e u'. opt_parse_file op alloc cs handler u = Some (Inr (e, u', False))
             \<and> (e < 0 \<longrightarrow> e = - 2 \<and> \<not> INI_USE_STACK op \<and> (\<exists>k. \<not> alloc k)))
       \<and> (\<exists>e u'. opt_parse_string op alloc cs handler u = Some (Inr (e, u', False))
             \<and> (e < 0 \<longrightarrow> e = - 2 \<and> \<not> INI_USE_STACK op \<and> (\<exists>k. \<not> alloc k)))"
proof
  show "\<exists>e u'. opt_parse_file op alloc cs handler u = Some (Inr (e, u', False))
      \<and> (e < 0 \<longrightarrow> e = - 2 \<and> \<not> INI_USE_STACK op \<and> (\<exists>k. \<not> alloc k))"
    unfolding opt_parse_file_def using assms(1) TrueI assms(2) by (rule file_reader.opt_parse_ends)
  have "ctx_good \<lparr>ctx_ptr = cs, num_left = length (c_text cs)\<rparr>"
    using length_c_text [of cs] by (simp add: ctx_good_def)
  moreover have "length (ctx_contents \<lparr>ctx_ptr = cs, num_left = length (c_text cs)\<rparr>) \<le> INT_MAX"
    using assms(2) by (simp add: ctx_contents_def)
  ultimately show "\<exists>e u'. opt_parse_string op alloc cs handler u = Some (Inr (e, u', False))
      \<and> (e < 0 \<longrightarrow> e = - 2 \<and> \<not> INI_USE_STACK op \<and> (\<exists>k. \<not> alloc k))"
    unfolding opt_parse_string_def by (rule string_reader.opt_parse_ends [OF assms(1)])
qed

theorem ini_options_safe_witness:
  "\<exists>e u'. opt_parse_file (ini_defaults\<lparr>INI_USE_STACK := False, INI_ALLOW_REALLOC := True, INI_INITIAL_ALLOC := 4\<rparr>) (\<lambda>k. k < 2)
     ''key = value'' (plain_handler (\<lambda>u s n v. (True, u @ [(s, n, v)]))) [] = Some (Inr (e, u', False))"
  using ini_options_safe [of "ini_defaults\<lparr>INI_USE_STACK := False, INI_ALLOW_REALLOC := True, INI_INITIAL_ALLOC := 4\<rparr>"
      "''key = value''" "\<lambda>k. k < 2" "plain_handler (\<lambda>u s n v. (True, u @ [(s, n, v)]))" "[]"]
  by (auto simp: ini_options_ok_def ini_defaults_def line_limit_def)

text \<open>Stopping at the first error does not change the number returned: it is the line of the first
  error also for a parser that reads on, since later errors do not overwrite it.\<close>

lemma ini_stop_same_error:
  assumes "ini_options_ok op" and "INI_USE_STACK op \<or> (\<forall>k. alloc k)" and "NUL \<notin> set cs" and "length cs \<le> INT_MAX"
  shows "\<exists>e u1 u2. opt_parse_file (op\<lparr>INI_STOP_ON_FIRST_ERROR := True\<rparr>) alloc cs handler u = Some (Inr (e, u1, False))
           \<and> opt_parse_file (op\<lparr>INI_STOP_ON_FIRST_ERROR := False\<rparr>) alloc cs handler u = Some (Inr (e, u2, False))"
proof -
  have "ini_options_ok (op\<lparr>INI_STOP_ON_FIRST_ERROR := z\<rparr>)" for z
    using assms(1) by (simp add: ini_options_ok_def line_limit_def split: if_splits)
  then show ?thesis
    using opt_parse_file_eq [of "op\<lparr>INI_STOP_ON_FIRST_ERROR := _\<rparr>" alloc cs handler u] assms(2-4)
    by (simp add: opt_reference_stop)
qed

lemma ini_stop_same_error_witness:
  "\<exists>e u1 u2. opt_parse_file (ini_defaults\<lparr>INI_STOP_ON_FIRST_ERROR := True\<rparr>) (\<lambda>_. False) (''lost'' @ [LF] @ ''k = v'')
       (plain_handler (\<lambda>u s n v. (True, u @ [(s, n, v)]))) [] = Some (Inr (e, u1, False))
     \<and> opt_parse_file (ini_defaults\<lparr>INI_STOP_ON_FIRST_ERROR := False\<rparr>) (\<lambda>_. False) (''lost'' @ [LF] @ ''k = v'')
       (plain_handler (\<lambda>u s n v. (True, u @ [(s, n, v)]))) [] = Some (Inr (e, u2, False))"
  using ini_stop_same_error [of ini_defaults "\<lambda>_. False" "''lost'' @ [LF] @ ''k = v''"
      "plain_handler (\<lambda>u s n v. (True, u @ [(s, n, v)]))" "[]"]
  by (simp add: ini_options_ok_def ini_defaults_def line_limit_def)

end
