(* ===== verification/Spec2Isabelle.thy ===== *)
theory Spec2Isabelle
  imports Sha1_Vector Network Startup Store_Heap Store_Threads Lookup_Heap Lookup_Threads Memory Ini_Options
begin

text \<open>
  CDHT, a node of a distributed hash table written in C, and what is proved of it.

  \<^bold>\<open>The program.\<close> \<open>main\<close> (\<open>src/src/main.c\<close>) reads a configuration file, creates the lookup table
  of known peers and the node, asks the configured seed nodes with a ping until one answers
  \<open>PONG\<close>, and then runs the UDP server. The server has one receiving thread and eight workers
  that share a queue: the receiver copies each datagram into a request and enqueues it, a worker
  dequeues it, calls the request handler, and sends what the handler produced back to the
  sender. The handler parses the datagram as a packet, prints it to the log and calls the
  command that the table of 256 function pointers has for the type of the packet. The node keeps a
  key-value store and an identity: 20 random bytes kept in a file, whose SHA-1 digest is the
  node's hash, carried by every packet it sends.

  \<^bold>\<open>Theories and sources.\<close> Each theory models the source files named; the definitions have the
  names of the C functions and structures.

  \<^item> \<open>CDHT_Prelude\<close>: machine types as words, the faults of C (null, out of bounds, freed, division
    by zero, signed overflow, use of destroyed locks), bounded memory blocks, C strings, byte order. \<open>'a faulty\<close> is a result or a fault;
    \<open>'a run\<close> is that or \<open>None\<close>, a computation that never returns.
  \<^item> \<open>Threads\<close>: what the step relations of the concurrent theories share: runs that keep an invariant and are
    bounded by a measure come to rest, and each thread gets the results of its own calls.
  \<^item> \<open>Sha1\<close>, \<open>Sha1_Block\<close>, \<open>Sha1_Stream\<close>, \<open>Sha1_Vector\<close>: \<open>helpers/sha1.c\<close>. The unrolled block function
    with its in-place schedule equals the block function of FIPS 180; \<open>SHA1Update\<close> appends to the
    message a context stands for; \<open>SHA1\<close> is the digest of the standard for every input.
  \<^item> \<open>Convert\<close>: \<open>helpers/convert.c\<close>, the two hexadecimal printers into allocated blocks.
  \<^item> \<open>Packet\<close>: \<open>packet/packet.c\<close>, \<open>packet.h\<close>, \<open>types.h\<close>. Parser and serialiser are inverse in both
    directions, the parser reads only inside the datagram, and the debug printer stays inside its
    512 bytes up to 82 payload bytes and leaves them from 85 on.
  \<^item> \<open>Xqueue\<close>: \<open>helpers/xqueue.c\<close>, the linked queue with a dummy node, on an explicit heap.
  \<^item> \<open>Udp_Server\<close>: \<open>transfer/udp.c\<close> and the locking of \<open>xqueue.c\<close>. The nine threads are a step
    relation (\<open>inner_step\<close> for the threads, \<open>outer_step\<close> for arriving datagrams and spurious
    wake-ups); a step is one lock operation or one critical section. Invariants by rule induction
    give mutual exclusion, the order of requests, and that nothing is lost; a rank function
    bounds the steps, and a state without steps has every request answered.
  \<^item> \<open>Server_Destroy\<close>: \<open>udp_server_destroy\<close> and \<open>xqueue_destroy\<close> statement by statement, while the workers run; the use
    of a destroyed mutex or condition variable and of the freed queue are faults. The queue goes first, so
    there is a run into undefined behaviour before any worker is cancelled.
  \<^item> \<open>Request_Handler\<close>: \<open>node/request_handler.c\<close>, \<open>node/load_commands.c\<close>, \<open>node/commands/ping.command.c\<close>.
  \<^item> \<open>Udp_Client\<close>: \<open>transfer/udp_client.c\<close>, with the results of the system calls as an argument. A
    descriptor that \<open>select\<close> cannot hold (\<open>FD_SETSIZE\<close> and above) is a fault.
  \<^item> \<open>Store\<close>: \<open>database/store.c\<close>, the buckets with their locks; it refines a map that keeps the first
    value written under a digest.
  \<^item> \<open>Store_Heap\<close>: the same file with its entries and data blocks in a heap, pointer by pointer; for every
    allocator it computes what the operations on lists compute, and nothing is lost or freed twice.
  \<^item> \<open>Store_Threads\<close>: the same file run by several threads, a step relation whose steps are the lock
    operations and the comparison with one entry of a chain. The store is linearizable, and calls
    that have begun come to their end.
  \<^item> \<open>Lookup_Table\<close>: \<open>node/lookup_table.c\<close>; it refines an address book, and its flat byte form is read
    back.
  \<^item> \<open>Lookup_Heap\<close>: add, remove, find and destroy of the same file on nodes in a heap, pointer by pointer;
    they compute what the operations on lists compute, with every allocator.
  \<^item> \<open>Lookup_Threads\<close>: the same file run by several threads, a step relation whose steps are the lock
    operations and the visit of one node. The calls have the results of the sequential functions in the
    order in which they took effect; they end, unless a thread calls \<open>lookup_table_serialize\<close>, which stops
    the table for all of them.
  \<^item> \<open>Ini\<close>: \<open>helpers/ini.c\<close>. The chunked reading through fixed buffers equals a reference that cuts
    the text into lines first, and a printed configuration is read back. The line counter is an \<open>int\<close>: a text of more than
    \<open>2 ^ 31 - 1\<close> lines overflows it.
  \<^item> \<open>Ini_Options\<close>: the same file under the options of \<open>ini.h\<close>, as a record. For texts without zero bytes the heap buffer
    that grows with \<open>realloc\<close> reads what a fixed buffer of the largest size reads; with buffer sizes of at least two bytes (\<open>ini_options_ok\<close>)
    it is neither overrun nor leaked, whatever allocations fail; with the options of the build the parser is that of \<open>Ini\<close>.
  \<^item> \<open>Args\<close>: \<open>core/args.c\<close>, the handler of the configuration entries and \<open>process_args\<close>.
  \<^item> \<open>Node\<close>: \<open>helpers/network.c\<close>, \<open>node/node.c\<close> and the handshake loop of \<open>main.c\<close>.
  \<^item> \<open>Runtime\<close>: \<open>core/signal.c\<close>, \<open>core/global.h\<close>, \<open>helpers/time.c\<close>, \<open>helpers/default_logger.c\<close>.
  \<^item> \<open>Process\<close>: the signal handler statement by statement, on any of the threads of the running server.
    \<open>exit\<close> is not async-signal-safe: called by a handler that has interrupted such a function, or a second time, it is undefined
    behaviour, an outcome of the model. A delivered signal brings the process to an exit with its number or to
    undefined behaviour after boundedly many steps; it says when the latter can be, and that it is so when a waiting worker is
    interrupted. On one thread the shutdown message is printed once.
  \<^item> \<open>Memory\<close>: the blocks that serving a datagram and asking a seed allocate and free (\<open>packet.c\<close>, the
    commands, \<open>request_handler.c\<close>, the loops of \<open>udp.c\<close>, \<open>udp_client.c\<close>, the handshake of \<open>main.c\<close>), on a memory of
    addresses: everything is freed once, nothing is leaked, and the results are those of the theories
    above.
  \<^item> \<open>Main_Program\<close>: \<open>main.c\<close> up to the server loop, the loop (\<open>node_start\<close>), which does not return, and the statements
    behind it.
  \<^item> \<open>Startup\<close>: \<open>main.c\<close> and \<open>node_new\<close> statement by statement, while the workers created by \<open>udp_server_new\<close>
    run already and signals arrive. The start computes what \<open>main_start\<close> computes in one go, no worker
    gets to a request before handler, command table and global node are set, and a signal ends the
    process at any time: by its default action until \<open>signal\<close> was called, by the handler afterwards, with the
    outcomes of \<open>Process\<close>.
  \<^item> \<open>Network\<close>: any number of nodes, each with the server of \<open>Udp_Server\<close> and the handler its node installs,
    joined by the datagrams in flight; the network reorders and loses them, and the outside sends
    anything under any address. The lemma that carries the rest is conservation: what was sent is in
    flight, has arrived or was lost. Nothing is forged on the way, a client gets one answer for each
    request, and a request with the source address of a node is answered for ever.
  \<^item> this theory: the handshake of a starting node through a network, and the answers of the whole program.

  \<^bold>\<open>Interfaces.\<close> \<open>fixed_field\<close> (encoders of a fixed width with a decoder, for the fields of packets and
  of the flat form), \<open>fifo_queue\<close> (what the server relies on of the queue), \<open>first_write_map\<close> (put and
  get of the store), \<open>address_book\<close> (add, remove and find of the lookup table), \<open>line_reader\<close> (what
  the parser relies on of \<open>fgets\<close> and of its string reader) and \<open>allocator\<close> (what the code relies on of
  \<open>malloc\<close>) are locales. Each is interpreted on the definitions of the code: \<open>u16_net\<close>, \<open>u32_host\<close>,
  \<open>u64_host\<close>, \<open>hash_field\<close>, \<open>xq\<close>, \<open>kv\<close>, \<open>lt\<close>, \<open>string_reader\<close>, \<open>file_reader\<close>. \<open>malloc\<close> is not code of the program:
  \<open>allocator\<close> is extended by \<open>node_allocator\<close>, which makes the linked table an \<open>address_book\<close> (\<open>linked\<close>),
  by \<open>kv_allocator\<close>, which makes the linked store a \<open>first_write_map\<close> (\<open>linked_kv\<close>), and
  by \<open>block_allocator\<close>, in which the lemmas of \<open>Memory\<close> are proved; \<open>next_addr\<close> is an instance.
  \<open>bounded_steps\<close> is the contract of a step relation with an invariant and a measure; its interpretations are
  \<open>server_steps\<close>, \<open>kv_steps\<close>, \<open>lt_steps\<close>, \<open>handler_steps\<close> and \<open>client_steps\<close>, and the results
  about boundedly many steps and about rest are its lemmas there.

  \<^bold>\<open>Loops and bounds.\<close> Loops over a list or a counter are structural recursion. The loops whose end is
  not apparent (\<open>SHA1Update_blocks\<close>, \<open>SHA1Final_pad\<close>, \<open>xqueue_free_from\<close>, \<open>ini_lines\<close>, \<open>ini_abyss\<close>,
  \<open>find_loop\<close>, \<open>remove_loop\<close>, \<open>free_loop\<close>, \<open>put_loop\<close>, \<open>get_loop\<close>, \<open>destroy_chain\<close>,
  \<open>ini_grow\<close>, \<open>opt_lines\<close>) are
  partial functions into \<open>option\<close>, and that they return is proved for the states that occur;
  there is no fuel. \<open>main_run\<close> ends by the order of its statements and, inside a loop, by the rounds left. A mutex taken twice by one thread is a run that never returns. Lengths that
  the C code computes with are words of their width: the size of the flat form wraps around, the
  32-bit loop counter of \<open>SHA1Update\<close> is why its contract asks for \<open>len + 63 < 2^32\<close>, and keys are
  below \<open>2^32\<close> bytes because the store passes their length as 32 bits.

  \<^bold>\<open>What the outside gives\<close> is an argument: results of sockets, files, \<open>malloc\<close> where the code tests it,
  OpenSSL's random bytes, the initial contents of allocated or automatic memory, the address a
  queue node is allocated at. Named hypotheses say what the code relies on: \<open>net_ok\<close> (\<open>recvfrom\<close>
  fills at most the buffer), \<open>xq_fresh\<close> (an allocated address is not in use), 20 bytes from
  \<open>RAND_bytes\<close>.

  \<^bold>\<open>Not modelled\<close>: the text of log lines inside the handlers (the logger itself is in \<open>Runtime\<close>, for
  one thread: the threads share the static buffer of its time stamp without a lock, a data race), the data race on \<open>global_state\<close>
  between handlers on two threads (each access is one step), allocation
  failures that the code does not test, socket options and \<open>bind\<close>, whose results the code ignores, and weak
  memory. The rest of the source files are declarations, includes and comments. Servers of a network do not fail and come
  back, and a datagram the network duplicates is one more datagram from the outside. In the sequential theories a mutex is a flag that is free between calls; in \<open>Store_Threads\<close> and \<open>Lookup_Threads\<close>
  the threads contend for it. Store and lookup table are not used by any command of the program yet.

  \<^bold>\<open>What the theorems show to be wrong\<close> is stated as well: a packet of 85 payload bytes overruns the
  debug string, a packet with the source address of a node is answered without end,
  \<open>lookup_table_serialize\<close> never returns and blocks every other user of the table, a node count that wraps around defeats the size test, a long host is stored twice, an
  empty payload stops the handshake, the error answer is built but not
  sent, the queue is destroyed under its workers, a found table entry can be freed under its reader, \<open>exit\<close> in the signal
  handler is undefined when the signal has interrupted a waiting worker, two
  signals can both begin the shutdown and call \<open>exit\<close> twice, a descriptor of 1024 is written past a set of descriptors,
  and the shutdown drops requests that were accepted.
\<close>

subsection \<open>Properties that span components\<close>

lemma pong_online:
  assumes "length hb = 20" "answered (seed_net env)"
    "recvfrom_result (seed_net env) = int (length (wire (pong_packet hb 1)))"
    "take (length (wire (pong_packet hb 1))) (recv_buffer (seed_net env)) = wire (pong_packet hb 1)"
  shows "seed_online env"
proof -
  let ?p = "pong_packet hb 1" and ?b = "recv_buffer (seed_net env)"
  have "?b = wire ?p @ drop (length (wire ?p)) ?b" using assms(4) by (metis append_take_drop_id)
  moreover have "packet_norm ?p = ?p" by (simp add: packet_norm_def pong_packet_def)
  ultimately have "packet_from_bytes ?b (length (wire ?p)) = Inr (Some ?p)"
    using packet_from_wire [OF pong_packet_wf [OF assms(1)], of 1 "length (wire ?p)" "drop (length (wire ?p)) ?b"]
      length_wire [OF pong_packet_wf [OF assms(1)], of 1] by simp
  then have "seed_response env = Some ?p" using assms(2,3) by (simp add: seed_response_def)
  then show ?thesis by (simp add: seed_online_def pong_packet_def pong_def)
qed

text \<open>What the client of the handshake has when \<open>recvfrom\<close> has given it a datagram.\<close>

definition delivered :: "'a datagram \<Rightarrow> seed_env \<Rightarrow> bool" where
  "delivered d env \<longleftrightarrow> seed_ready env \<and> answered (seed_net env)
     \<and> recvfrom_result (seed_net env) = int (length (dg_bytes d))
     \<and> take (length (dg_bytes d)) (recv_buffer (seed_net env)) = dg_bytes d"

definition handshake_ping :: "'a \<Rightarrow> 'a \<Rightarrow> byte list \<Rightarrow> 'a datagram" where
  "handshake_ping c a hash = \<lparr>dg_from = c, dg_to = a, dg_bytes = wire (ping_request hash)\<rparr>"

lemma ping_reply:
  assumes "length ha = 20"
  shows "reply hash (handshake_ping c a ha) = \<lparr>dg_from = a, dg_to = c, dg_bytes = wire (pong_packet (hash a) 1)\<rparr>"
    "printable (wire (ping_request ha))"
proof -
  have parse: "packet_from_bytes (wire (ping_request ha)) (length (wire (ping_request ha))) = Inr (Some (packet_norm (ping_request ha)))"
    using parse_wire ping_request_new [OF assms] by simp
  then have "packet_of (wire (ping_request ha)) = packet_norm (ping_request ha)" by (simp add: packet_of_def)
  then show "reply hash (handshake_ping c a ha) = \<lparr>dg_from = a, dg_to = c, dg_bytes = wire (pong_packet (hash a) 1)\<rparr>"
    by (simp add: reply_def handshake_ping_def answer_def packet_norm_def ping_request_def)
  show "printable (wire (ping_request ha))"
    using parse by (simp add: printable_def packet_norm_def ping_request_def)
qed

text \<open>C9. The handshake works through the network: when a starting node at the address \<open>c\<close> has sent its ping to
  the node at \<open>a\<close> and nothing else, all other datagrams from outside go from addresses of clients to nodes and are packets with at most
  82 payload bytes, and nothing is lost, then the
  network comes to rest after boundedly many steps, an answer from \<open>a\<close> that fits the client's buffer has then come to \<open>c\<close>, and
  whatever has come to \<open>c\<close>, once a client with a descriptor below \<open>FD_SETSIZE\<close> has received it, ends the handshake with success.\<close>

theorem handshake_through_network:
  assumes "net_reach (node_handlers hash g gs) N" and "dom (nw_servers N) = A" and "\<forall>a \<in> A. length (hash a) = 20"
    and "length ha = 20" and "\<forall>d \<in># nw_outside N. client_request A d" and "nw_lost N = {#}"
    and "handshake_ping c a ha \<in># nw_outside N" and "\<forall>d \<in># nw_outside N. dg_from d = c \<longrightarrow> d = handshake_ping c a ha"
  shows "(\<forall>n N'. (net_inner (node_handlers hash g gs) ^^ n) N N' \<longrightarrow> n \<le> net_work A N)
       \<and> (\<forall>N'. (net_inner (node_handlers hash g gs))\<^sup>*\<^sup>* N N' \<and> at_rest (node_handlers hash g gs) N' \<longrightarrow>
            (\<exists>d \<in># nw_received N'. dg_from d = a \<and> dg_to d = c \<and> length (dg_bytes d) \<le> UDP_CLIENT_BUFFER_SIZE)
            \<and> (\<forall>d \<in># nw_received N'. dg_to d = c \<longrightarrow>
                 (\<forall>env seed g'. delivered d env \<longrightarrow> handshake_one g' (Some ha) seed env = Inr True)))"
proof (intro conjI allI impI)
  let ?H = "node_handlers hash g gs" and ?d = "\<lparr>dg_from = a, dg_to = c, dg_bytes = wire (pong_packet (hash a) 1)\<rparr>"
  have "\<forall>d \<in># nw_outside N. with_client A d" using assms(5) by (simp add: client_request_def with_client_def)
  then show "n \<le> net_work A N" if "(net_inner ?H ^^ n) N N'" for n N'
    using client_steps.run_bounded [OF that] assms(1,2) by (simp add: only_clients_def)
  have received: "nw_received N' = image_mset (reply hash) (nw_outside N)"
    if "(net_inner ?H)\<^sup>*\<^sup>* N N' \<and> at_rest ?H N'" for N'
    using client_rest [of hash g gs N' A] inner_run_reach [of ?H N N'] that assms(1-3,5,6) by simp
  have a: "a \<in> A" "length (hash a) = 20" using assms(3,5,7) by (auto simp: client_request_def handshake_ping_def)
  have "length (dg_bytes ?d) \<le> UDP_CLIENT_BUFFER_SIZE"
    using length_wire [OF pong_packet_wf [OF a(2)], of 1] by (simp add: pong_packet_def)
  then show "\<exists>d \<in># nw_received N'. dg_from d = a \<and> dg_to d = c \<and> length (dg_bytes d) \<le> UDP_CLIENT_BUFFER_SIZE"
    if N': "(net_inner ?H)\<^sup>*\<^sup>* N N' \<and> at_rest ?H N'" for N'
    using received [OF N'] assms(7) ping_reply(1) [OF assms(4), of hash c a] by (intro bexI [of _ ?d]) force+
  show "\<forall>d \<in># nw_received N'. dg_to d = c \<longrightarrow>
      (\<forall>env seed g'. delivered d env \<longrightarrow> handshake_one g' (Some ha) seed env = Inr True)"
    if N': "(net_inner ?H)\<^sup>*\<^sup>* N N' \<and> at_rest ?H N'" for N'
  proof (intro ballI impI allI)
    fix d env seed g' assume d: "d \<in># nw_received N'" "dg_to d = c" and e: "delivered d env"
    have "d = ?d" using d received [OF N'] assms(8) ping_reply(1) [OF assms(4), of hash c a] by (auto simp: reply_def)
    then have "seed_online env" using pong_online [OF a(2), of env] e by (simp add: delivered_def)
    then show "handshake_one g' (Some ha) seed env = Inr True"
      using handshake_one_online [OF assms(4)] e by (simp add: delivered_def)
  qed
qed

text \<open>A client that has received a datagram.\<close>

lemma delivered_exists:
  assumes "length (dg_bytes d) \<le> UDP_CLIENT_BUFFER_SIZE" "dg_bytes d \<noteq> []"
  shows "\<exists>env. delivered d env"
proof -
  let ?env = "\<lparr>seed_mem = True, seed_socket = 5, seed_net = \<lparr>pton_result = 1, sendto_result = 26,
        select_result = 1, fd_isset = True, recvfrom_result = int (length (dg_bytes d)),
        recv_buffer = dg_bytes d @ replicate (65536 - length (dg_bytes d)) 0\<rparr>\<rparr>"
  have "delivered d ?env"
    using assms by (simp add: delivered_def seed_ready_def net_ok_def answered_def)
  then show ?thesis by blast
qed

theorem handshake_through_network_witness:
  "\<exists>N d env. net_reach sample_handlers N \<and> d \<in># nw_received N \<and> dg_from d = 1 \<and> dg_to d = 9 \<and> delivered d env
     \<and> handshake_one (\<lambda>_. 0) (Some (replicate 20 5)) \<lparr>addr_host = ''10.0.0.1'', addr_port = 1998\<rparr> env = Inr True"
proof -
  let ?ha = "replicate 20 5 :: byte list" and ?hash = "\<lambda>a :: nat. replicate 20 (word_of_nat a) :: byte list"
  let ?p = "handshake_ping 9 1 ?ha :: nat datagram"
  have "length (wire (ping_request ?ha)) \<le> 65507"
    using length_wire [of "ping_request ?ha"] ping_request_new [of ?ha] by (simp add: ping_request_def)
  from sample_send [OF this, of 9] obtain N where N: "net_reach sample_handlers N" "dom (nw_servers N) = {1, 2}"
    "nw_lost N = {#}" "nw_outside N = {#?p#}" by (auto simp: handshake_ping_def)
  have out: "\<forall>d \<in># nw_outside N. client_request {1, 2} d"
    using N(4) ping_reply(2) [of ?ha] by (simp add: client_request_def handshake_ping_def)
  then have "\<forall>d \<in># nw_outside N. with_client {1, 2} d" by (simp add: client_request_def with_client_def)
  then obtain N' where N': "(net_inner sample_handlers)\<^sup>*\<^sup>* N N'" "at_rest sample_handlers N'"
    using clients_run_to_rest [OF N(1,2)] by blast
  have h: "(\<exists>d \<in># nw_received N'. dg_from d = 1 \<and> dg_to d = 9 \<and> length (dg_bytes d) \<le> UDP_CLIENT_BUFFER_SIZE)
      \<and> (\<forall>d \<in># nw_received N'. dg_to d = 9 \<longrightarrow> (\<forall>env seed g'. delivered d env \<longrightarrow> handshake_one g' (Some ?ha) seed env = Inr True))"
    using handshake_through_network [OF N(1,2) _ _ out N(3), of ?ha 9 1] N' N(4) by simp
  then obtain d where d: "d \<in># nw_received N'" "dg_from d = 1" "dg_to d = 9" "length (dg_bytes d) \<le> UDP_CLIENT_BUFFER_SIZE" by blast
  have r: "net_reach sample_handlers N'" "nw_received N' = {#reply ?hash ?p#}"
    using inner_run_reach [OF N'(1) N(1)] client_rest [of ?hash "\<lambda>_. 0" "\<lambda>_. NUL" N' "{1, 2}"] N N'(2) out by simp_all
  then have "dg_bytes d \<noteq> []"
    using d(1) answer_printable [of "?hash 1"] printable_nonempty by (force simp: reply_def handshake_ping_def)
  then obtain env where "delivered d env" using delivered_exists [OF d(4)] by blast
  with h d r(1) show ?thesis by blast
qed

text \<open>C6. The whole program answers: once \<open>main\<close> has come to the server loop, whatever the
  configuration and the seeds were, in every state that the server comes to from there in which all
  accepted datagrams are packets with at most 82 payload bytes, the process has not
  crashed, and once the threads are at rest it has sent exactly one answer to the
  sender of each datagram: a pong with the same request id for a ping and an error
  packet for the rest, both with the node's hash.\<close>

theorem server_answers_packets:
  assumes "main_start g gs env = Some (Inr (Serving node lookup dispatcher connected))"
    and "node_start node dispatcher g gs s"
    and "\<forall>r \<in> set (s_accepted s). printable_request r"
  shows "s_crash s = None \<and>
         ((\<nexists>s'. inner_step (installed_handler node dispatcher g gs) s s') \<longrightarrow>
            mset (s_sent s) =
              image_mset (\<lambda>r. (req_addr r, wire (answer (node_hash node) (request_packet r)))) (mset (s_accepted s)))"
proof -
  note m = main_start_serving [OF assms(1)]
  then have h: "installed_handler node dispatcher g gs =
      Some (node_request_handler (load_commands initial_dispatcher) (Some (node_hash node)) g gs)"
    by (simp add: installed_handler_def)
  show ?thesis
    using node_start_reach [OF assms(1,2)] unfolding h by (rule server_answers) (use m assms(3) in simp_all)
qed

definition ping_datagram :: "nat udp_request_t" where
  "ping_datagram = \<lparr>req_addr = 7, req_data = wire sample_packet, req_length = int (length (wire sample_packet))\<rparr>"

text \<open>A run of the program on \<open>sample_main\<close> that accepts one ping and comes to rest.\<close>

theorem server_answers_packets_witness:
  "\<exists>node lookup dispatcher connected s.
     main_start (\<lambda>_. 0) (\<lambda>_. NUL) sample_main = Some (Inr (Serving node lookup dispatcher connected))
     \<and> node_start node dispatcher (\<lambda>_. 0) (\<lambda>_. NUL) s
     \<and> s_accepted s = [ping_datagram] \<and> s_sent s = [(7, wire (pong_packet (node_hash node) 0x1234))]"
proof -
  obtain node lookup dispatcher connected where
    m: "main_start (\<lambda>_. 0) (\<lambda>_. NUL) sample_main = Some (Inr (Serving node lookup dispatcher connected))"
    using sample_main_serving by blast
  let ?H = "installed_handler node dispatcher (\<lambda>_. 0) (\<lambda>_. NUL)"
  have len: "length (wire sample_packet) = 30" using length_wire [OF sample_packet_wf] by (simp add: sample_packet_def)
  have "packet_norm sample_packet = sample_packet" by (simp add: packet_norm_def sample_packet_def)
  then have parse: "packet_from_bytes (wire sample_packet) (length (wire sample_packet)) = Inr (Some sample_packet)"
    using parse_wire [OF sample_packet_wf] by simp
  have short: "unat (payload_len sample_packet) \<le> 82" "ptype sample_packet = 5" "req_id sample_packet = 0x1234"
    by (simp_all add: sample_packet_def)
  obtain s where s: "node_start node dispatcher (\<lambda>_. 0) (\<lambda>_. NUL) s" "s_accepted s = [ping_datagram]" "s_recv s = P_Unlock"
    using accept_run [of ping_datagram ?H "queue_addr (m_node sample_main)"] len main_start_serving [OF m]
    by (auto simp: ping_datagram_def node_start_def)
  obtain s' where s': "(inner_step ?H)\<^sup>*\<^sup>* s s'" "server_reach ?H s'" "\<nexists>s''. inner_step ?H s' s''"
    using server_steps.comes_to_rest [OF node_start_reach [OF m s(1)]] by blast
  have n: "node_start node dispatcher (\<lambda>_. 0) (\<lambda>_. NUL) s'"
    using udp_server_run_inner s(1) s'(1) by (auto simp: node_start_def)
  have acc: "s_accepted s' = [ping_datagram]" using settled_run [OF s'(1)] s(2,3) by simp
  have ok: "printable_request ping_datagram" "request_packet ping_datagram = sample_packet"
    using parse short by (simp_all add: printable_request_def printable_def packet_of_def ping_datagram_def)
  have "mset (s_sent s') = {#(req_addr ping_datagram, wire (answer (node_hash node) sample_packet))#}"
    using server_answers_packets [OF m n] s'(3) acc ok by simp
  then have "s_sent s' = [(7, wire (pong_packet (node_hash node) 0x1234))]"
    using short by (simp add: answer_def ping_datagram_def)
  with acc n m show ?thesis by blast
qed

end
